(* ===== verification/Prelude.thy ===== *)
theory Prelude
  imports Main "HOL-Library.Word" "HOL-Library.Monad_Syntax"
begin

text \<open>
  Shared vocabulary of the development: the C integer types of lwIP (\<open>u8_t\<close>, \<open>u16_t\<close>,
  \<open>u32_t\<close> of \<open>arch.h\<close>) as words, machine addresses, the \<open>err_t\<close> codes of \<open>err.h\<close>, the
  alignment macros of \<open>arch.h\<close>, and the generic facts about words, lists and linked
  structures that the component theories share.

  Conventions. An address is a natural number and \<open>0\<close> is \<open>NULL\<close>. A function that
  dereferences pointers returns an \<open>option\<close>: \<open>None\<close> is the dereference of \<open>NULL\<close> or of an
  object that is not there, and also a loop that never ends. \<open>LWIP_ASSERT\<close> prints a message
  and continues in this port (\<open>LWIP_PLATFORM_ASSERT\<close> is a \<open>printf\<close>), so assertions do not
  appear in the definitions; the handler of an \<open>LWIP_ERROR\<close> does.
\<close>

section \<open>Collections of facts\<close>

named_theorems chain_simps \<open>rewriting of linked-list predicates\<close>
named_theorems inv_intros \<open>preservation of component invariants\<close>
named_theorems const_defs \<open>numeric constants and configuration values\<close>

section \<open>Machine types\<close>

type_synonym u8 = "8 word"
type_synonym u16 = "16 word"
type_synonym u32 = "32 word"
type_synonym addr = nat

abbreviation (input) NULL :: addr where "NULL \<equiv> 0"

text \<open>The error codes of \<open>lwip/err.h\<close> that the modelled functions return.\<close>

datatype err_t = ERR_OK | ERR_MEM | ERR_BUF | ERR_TIMEOUT | ERR_RTE | ERR_INPROGRESS
  | ERR_VAL | ERR_WOULDBLOCK | ERR_USE | ERR_ALREADY | ERR_ISCONN | ERR_CONN | ERR_IF
  | ERR_ABRT | ERR_RST | ERR_CLSD | ERR_ARG

section \<open>Alignment (MEM_ALIGNMENT is 4 in lwipopts.h)\<close>

definition MEM_ALIGNMENT :: nat where [const_defs]: "MEM_ALIGNMENT = 4"

text \<open>\<open>LWIP_MEM_ALIGN_SIZE\<close> on unbounded numbers: round up to a multiple of four.\<close>

definition LWIP_MEM_ALIGN_SIZE :: "nat \<Rightarrow> nat" where
  "LWIP_MEM_ALIGN_SIZE sz = ((sz + MEM_ALIGNMENT - 1) div MEM_ALIGNMENT) * MEM_ALIGNMENT"

text \<open>The same macro evaluated in 32-bit unsigned arithmetic, where the addition wraps.\<close>

definition LWIP_MEM_ALIGN_SIZE32 :: "nat \<Rightarrow> nat" where
  "LWIP_MEM_ALIGN_SIZE32 sz =
     (((sz + MEM_ALIGNMENT - 1) mod 2 ^ 32) div MEM_ALIGNMENT) * MEM_ALIGNMENT"

lemma align_size_ge: "sz \<le> LWIP_MEM_ALIGN_SIZE sz"
  unfolding LWIP_MEM_ALIGN_SIZE_def MEM_ALIGNMENT_def by presburger

lemma align_size_lt: "LWIP_MEM_ALIGN_SIZE sz < sz + 4"
  unfolding LWIP_MEM_ALIGN_SIZE_def MEM_ALIGNMENT_def by presburger

lemma align_size_dvd [simp]: "4 dvd LWIP_MEM_ALIGN_SIZE sz"
  unfolding LWIP_MEM_ALIGN_SIZE_def MEM_ALIGNMENT_def by simp

lemma align_size_id [simp]: "4 dvd sz \<Longrightarrow> LWIP_MEM_ALIGN_SIZE sz = sz"
  unfolding LWIP_MEM_ALIGN_SIZE_def MEM_ALIGNMENT_def by presburger

lemma align_size32_dvd [simp]: "4 dvd LWIP_MEM_ALIGN_SIZE32 sz"
  unfolding LWIP_MEM_ALIGN_SIZE32_def MEM_ALIGNMENT_def by simp

lemma align_size32_exact:
  "sz + 3 < 2 ^ 32 \<Longrightarrow> LWIP_MEM_ALIGN_SIZE32 sz = LWIP_MEM_ALIGN_SIZE sz"
  by (simp add: LWIP_MEM_ALIGN_SIZE32_def LWIP_MEM_ALIGN_SIZE_def MEM_ALIGNMENT_def)

text \<open>The overflow test \<open>sz < size_in\<close> of the allocators detects exactly the wrap.\<close>

lemma align_size32_no_wrap:
  assumes "sz < 2 ^ 32" and "sz \<le> LWIP_MEM_ALIGN_SIZE32 sz"
  shows "LWIP_MEM_ALIGN_SIZE32 sz = LWIP_MEM_ALIGN_SIZE sz"
proof (cases "sz + 3 < 2 ^ 32")
  case True
  then show ?thesis by (rule align_size32_exact)
next
  case False
  with assms(1) have "(3 + sz) mod 2 ^ 32 = sz + 3 - 2 ^ 32"
    by (simp add: mod_if)
  then have "LWIP_MEM_ALIGN_SIZE32 sz \<le> sz + 3 - 2 ^ 32"
    by (simp add: LWIP_MEM_ALIGN_SIZE32_def MEM_ALIGNMENT_def)
  with False assms have False by simp
  then show ?thesis ..
qed

section \<open>Words\<close>

lemma unat_u16_less [simp]: "unat (x :: u16) < 65536"
  using unsigned_less [of x] by simp

lemma unat_u8_less [simp]: "unat (x :: u8) < 256"
  using unsigned_less [of x] by simp

lemma unat_u32_less [simp]: "unat (x :: u32) < 4294967296"
  using unsigned_less [of x] by simp

lemma unat_add_no_wrap:
  fixes a b :: "'a::len word"
  assumes "unat a + unat b < 2 ^ LENGTH('a)"
  shows "unat (a + b) = unat a + unat b"
  using assms by (simp add: unat_add_lem [THEN iffD1])

lemma unat_of_nat_id:
  "n < 2 ^ LENGTH('a) \<Longrightarrow> unat (of_nat n :: 'a::len word) = n"
  by (simp add: unat_of_nat)

lemma unat_sub_le:
  fixes a b :: "'a::len word"
  assumes "b \<le> a"
  shows "unat (a - b) = unat a - unat b"
  using assms by (rule unat_sub)

lemma word_less_add_wrap:
  fixes a b :: "'a::len word"
  shows "a + b < a \<longleftrightarrow> \<not> unat a + unat b < 2 ^ LENGTH('a)"
  using no_olen_add_nat [of a b] by (auto simp: not_less)

unbundle bit_operations_syntax

text \<open>Shifts, masks and the exchange of two bytes, read as numbers.\<close>

lemma or_eq_shift_add:
  fixes a b :: nat
  assumes "b < 2 ^ n"
  shows "push_bit n a OR b = 2 ^ n * a + b"
proof -
  have b: "take_bit n b = b" using assms by (simp add: take_bit_nat_eq_self)
  have "push_bit n a AND take_bit n b = 0"
    by (rule bit_eqI) (auto simp: bit_push_bit_iff bit_and_iff bit_take_bit_iff)
  then have "push_bit n a AND b = 0" unfolding b .
  then have "push_bit n a OR b = push_bit n a + b" by (simp add: disjunctive_add_eq_or)
  then show ?thesis by (simp add: push_bit_eq_mult mult.commute)
qed

lemma unat_and_mask:
  fixes x :: "'a::len word"
  shows "unat (x AND mask n) = unat x mod 2 ^ n"
  by (simp only: take_bit_eq_mask [symmetric] unsigned_take_bit_eq) (simp add: take_bit_eq_mod)

lemma mask_8: "(0xFF :: 'a::len word) = mask 8"
  by (simp add: mask_eq_exp_minus_1)

lemma mask_16: "(0xFFFF :: 'a::len word) = mask 16"
  by (simp add: mask_eq_exp_minus_1)

lemma unat_drop_bit: "unat (drop_bit n x) = unat x div 2 ^ n"
  by (simp only: unat_drop_bit_eq) (simp add: drop_bit_eq_div)

lemma unat_push_bit:
  fixes x :: "'a::len word"
  assumes "unat x * 2 ^ n < 2 ^ LENGTH('a)"
  shows "unat (push_bit n x) = unat x * 2 ^ n"
  using assms by (simp only: unsigned_push_bit_eq) (simp add: take_bit_eq_mod push_bit_eq_mult)

lemma unat_push_or:
  fixes x y :: "'a::len word"
  assumes "unat x * 2 ^ n < 2 ^ LENGTH('a)" and "unat y < 2 ^ n"
  shows "unat (push_bit n x OR y) = 2 ^ n * unat x + unat y"
  using or_eq_shift_add [OF assms(2), of "unat x"] unat_push_bit [OF assms(1)]
  by (simp only: unsigned_or_eq) (simp add: push_bit_eq_mult)

lemma unat_ucast_id:
  fixes x :: "'a::len word"
  assumes "unat x < 2 ^ LENGTH('b)"
  shows "unat (ucast x :: 'b::len word) = unat x"
  using assms by (simp add: unsigned_ucast_eq take_bit_nat_eq_self)

lemma drop_and_mask:
  fixes x :: "'a::len word"
  assumes "16 \<le> LENGTH('a)"
  shows "drop_bit 8 (x AND 0xFF00) = drop_bit 8 x AND mask 8"
proof -
  have m: "(0xFF00 :: 'a word) = push_bit 8 (mask 8)" by (simp add: mask_eq_exp_minus_1 push_bit_eq_mult)
  show ?thesis
    unfolding m using assms by (auto intro!: bit_word_eqI simp: bit_drop_bit_eq bit_and_iff bit_push_bit_iff bit_mask_iff)
qed

lemma unat_swap:
  fixes x :: "'a::len word"
  assumes "16 \<le> LENGTH('a)"
  shows "unat (push_bit 8 (x AND 0xFF) OR drop_bit 8 (x AND 0xFF00)) = 256 * (unat x mod 256) + unat x div 256 mod 256"
proof -
  have u: "unat (x AND mask 8) = unat x mod 256" "unat (drop_bit 8 x AND mask 8) = unat x div 256 mod 256"
    by (simp_all add: unat_and_mask unat_drop_bit)
  have "(2 :: nat) ^ 16 \<le> 2 ^ LENGTH('a)" using assms by (rule power_increasing) simp
  moreover have "unat x mod 256 * 2 ^ 8 < 2 ^ 16" using mod_less_divisor [of 256 "unat x"] by simp
  ultimately have "unat (x AND mask 8) * 2 ^ 8 < 2 ^ LENGTH('a)" unfolding u by linarith
  from unat_push_or [OF this, of "drop_bit 8 x AND mask 8"] show ?thesis
    unfolding mask_8 drop_and_mask [OF assms] u by simp
qed

lemma upt_split_at: "i \<le> j \<Longrightarrow> j \<le> k \<Longrightarrow> [i..<k] = [i..<j] @ [j..<k]" for i j k :: nat
  using upt_add_eq_append [of i j "k - j"] by simp

lemma unat_not:
  fixes x :: "'a::len word"
  shows "unat (NOT x) = 2 ^ LENGTH('a) - 1 - unat x"
proof -
  have "NOT x = -1 - x" by (simp add: not_eq_complement)
  moreover have "x \<le> -1" by simp
  ultimately show ?thesis using unat_sub_le [of x "-1"] by (simp add: unsigned_minus_1_eq_mask mask_eq_exp_minus_1)
qed

lemma mod_add_cancel: "(r + x) mod q = (r + y) mod q \<Longrightarrow> x mod q = y mod q" for r x y q :: nat
proof (induction x y rule: linorder_wlog)
  case (le x y)
  then have "q dvd (r + y) - (r + x)" using mod_eq_dvd_iff_nat [of "r + x" "r + y" q] by simp
  then show ?case using mod_eq_dvd_iff_nat [of x y q] le by simp
qed simp

text \<open>Subtraction of \<open>u32_t\<close> values kept as numbers below \<open>2 ^ 32\<close>: it wraps.\<close>

definition sub32 :: "nat \<Rightarrow> nat \<Rightarrow> nat" where
  "sub32 a b = (a + (2 ^ 32 - b mod 2 ^ 32)) mod 2 ^ 32"

lemma sub32_le: "b \<le> a \<Longrightarrow> a < 2 ^ 32 \<Longrightarrow> sub32 a b = a - b"
  by (simp add: sub32_def mod_if)

section \<open>Linked lists through a successor function\<close>

text \<open>
  \<open>linked nx p as\<close>: following the links \<open>nx\<close> from \<open>p\<close> visits exactly the nodes \<open>as\<close> and
  ends at \<open>NULL\<close>. It is the abstraction of every singly linked list of the stack.
\<close>

primrec linked :: "(addr \<Rightarrow> addr option) \<Rightarrow> addr \<Rightarrow> addr list \<Rightarrow> bool" where
  "linked nx p [] \<longleftrightarrow> p = NULL"
| "linked nx p (a # as) \<longleftrightarrow> p = a \<and> a \<noteq> NULL \<and> (\<exists>q. nx a = Some q \<and> linked nx q as)"

lemma linked_NULL [simp, chain_simps]: "linked nx NULL as \<longleftrightarrow> as = []"
  by (cases as) auto

lemma linked_not_NULL [chain_simps]:
  "p \<noteq> NULL \<Longrightarrow> linked nx p as \<longleftrightarrow> (\<exists>q bs. as = p # bs \<and> nx p = Some q \<and> linked nx q bs)"
  by (cases as) auto

lemma linked_upd [simp, chain_simps]:
  "a \<notin> set as \<Longrightarrow> linked (nx(a := v)) p as = linked nx p as"
  by (induction as arbitrary: p) auto

lemma linked_unique: "linked nx p as \<Longrightarrow> linked nx p bs \<Longrightarrow> as = bs"
proof (induction as arbitrary: p bs)
  case Nil
  then show ?case by simp
next
  case (Cons a as)
  then show ?case by (cases bs) auto
qed

lemma linked_split:
  "linked nx p (as @ b # bs) \<Longrightarrow> linked nx b (b # bs)"
  by (induction as arbitrary: p) auto

lemma linked_distinct: "linked nx p as \<Longrightarrow> distinct as"
proof (induction as arbitrary: p)
  case Nil
  then show ?case by simp
next
  case (Cons a as)
  then obtain q where q: "nx a = Some q" "linked nx q as" and a: "p = a" "a \<noteq> NULL"
    by auto
  have "a \<notin> set as"
  proof
    assume "a \<in> set as"
    then obtain xs ys where as: "as = xs @ a # ys" by (auto simp: in_set_conv_decomp)
    then have "linked nx a (a # ys)" using q(2) by (auto dest: linked_split)
    then have "linked nx q ys" using q(1) by auto
    then have "as = ys" using q(2) by (blast dest: linked_unique)
    then show False using as by simp
  qed
  with q Cons.IH show ?case by auto
qed

lemma linked_nonnull: "linked nx p as \<Longrightarrow> NULL \<notin> set as"
  by (induction as arbitrary: p) auto

lemma linked_cong:
  "(\<And>a. a \<in> set as \<Longrightarrow> nx a = nx' a) \<Longrightarrow> linked nx p as = linked nx' p as"
  by (induction as arbitrary: p) auto

lemma linked_in_dom: "linked nx p as \<Longrightarrow> a \<in> set as \<Longrightarrow> nx a \<noteq> None"
  by (induction as arbitrary: p) auto

end
