(* ===== verification/Memp.thy ===== *)
theory Memp
  imports Prelude
begin

text \<open>
  The fixed-size object pools of \<open>lwip/src/core/memp.c\<close>, in the configuration of the port
  (\<open>MEMP_MEM_MALLOC = 0\<close>, \<open>MEMP_OVERFLOW_CHECK = 0\<close>, so \<open>MEMP_SIZE\<close> is 0, and
  \<open>MEMP_STATS = 1\<close>). A pool is a free list threaded through the first word of its unused
  elements; the model keeps those words as a successor function. The locale
  \<open>object_pool\<close> states the contract that the other components rely on; it is interpreted
  on the pool operations at the end.
\<close>

section \<open>Data\<close>

text \<open>\<open>struct memp_desc\<close> (memp_priv.h): element size (already aligned), count and base.\<close>

record memp_desc =
  md_size :: nat
  md_num :: nat
  md_base :: addr

text \<open>\<open>struct stats_mem\<close> (stats.h, \<open>LWIP_STATS_LARGE = 0\<close>, \<open>mem_size_t\<close> is \<open>u32_t\<close>).\<close>

record stats_mem =
  st_err :: u16
  st_avail :: u32
  st_used :: u32
  st_max :: u32
  st_illegal :: u16

text \<open>The mutable part of a pool: \<open>*desc->tab\<close>, the \<open>next\<close> words, the statistics.\<close>

record memp_pool =
  mp_tab :: addr
  mp_next :: "addr \<Rightarrow> addr"
  mp_stats :: stats_mem

definition stats_mem_zero :: stats_mem where
  "stats_mem_zero = \<lparr>st_err = 0, st_avail = 0, st_used = 0, st_max = 0, st_illegal = 0\<rparr>"

definition memp_pool_zero :: memp_pool where
  "memp_pool_zero = \<lparr>mp_tab = NULL, mp_next = (\<lambda>_. NULL), mp_stats = stats_mem_zero\<rparr>"

section \<open>Operations\<close>

text \<open>The loop of \<open>memp_init_pool\<close>: the first argument counts the iterations left.\<close>

fun memp_init_loop :: "nat \<Rightarrow> memp_desc \<Rightarrow> addr \<Rightarrow> memp_pool \<Rightarrow> memp_pool" where
  "memp_init_loop 0 d memp s = s"
| "memp_init_loop (Suc n) d memp s =
     memp_init_loop n d (memp + md_size d)
       (s\<lparr>mp_next := (mp_next s)(memp := mp_tab s), mp_tab := memp\<rparr>)"

definition memp_init_pool :: "memp_desc \<Rightarrow> memp_pool \<Rightarrow> memp_pool" where
  "memp_init_pool d s =
     (let s = s\<lparr>mp_tab := NULL\<rparr>;
          s = memp_init_loop (md_num d) d (LWIP_MEM_ALIGN_SIZE (md_base d)) s
      in s\<lparr>mp_stats := (mp_stats s)\<lparr>st_avail := of_nat (md_num d)\<rparr>\<rparr>)"

definition do_memp_malloc_pool :: "memp_pool \<Rightarrow> addr \<times> memp_pool" where
  "do_memp_malloc_pool s =
     (let memp = mp_tab s in
      if memp \<noteq> NULL then
        (let st = mp_stats s;
             st = st\<lparr>st_used := st_used st + 1\<rparr>;
             st = (if st_used st > st_max st then st\<lparr>st_max := st_used st\<rparr> else st)
         in (memp, s\<lparr>mp_tab := mp_next s memp, mp_stats := st\<rparr>))
      else (NULL, s\<lparr>mp_stats := (mp_stats s)\<lparr>st_err := st_err (mp_stats s) + 1\<rparr>\<rparr>))"

definition do_memp_free_pool :: "addr \<Rightarrow> memp_pool \<Rightarrow> memp_pool" where
  "do_memp_free_pool mem s =
     s\<lparr>mp_stats := (mp_stats s)\<lparr>st_used := st_used (mp_stats s) - 1\<rparr>,
       mp_next := (mp_next s)(mem := mp_tab s),
       mp_tab := mem\<rparr>"

text \<open>
  The exported wrappers. \<open>memp_malloc_pool\<close> and \<open>memp_free_pool\<close> take a descriptor that may
  be \<open>NULL\<close> (\<open>None\<close> here); \<open>memp_malloc\<close> and \<open>memp_free\<close> take an index into the table
  \<open>memp_pools\<close>, here the list of pools.
\<close>

definition memp_malloc_pool :: "memp_desc option \<Rightarrow> memp_pool \<Rightarrow> addr \<times> memp_pool" where
  "memp_malloc_pool desc s =
     (case desc of None \<Rightarrow> (NULL, s) | Some _ \<Rightarrow> do_memp_malloc_pool s)"

definition memp_free_pool :: "memp_desc option \<Rightarrow> addr \<Rightarrow> memp_pool \<Rightarrow> memp_pool" where
  "memp_free_pool desc mem s =
     (if desc = None \<or> mem = NULL then s else do_memp_free_pool mem s)"

definition memp_init :: "memp_desc list \<Rightarrow> memp_pool list \<Rightarrow> memp_pool list" where
  "memp_init ds ps = map2 memp_init_pool ds ps"

definition memp_malloc :: "nat \<Rightarrow> memp_pool list \<Rightarrow> addr \<times> memp_pool list" where
  "memp_malloc type ps =
     (if type < length ps then
        (let (m, p) = do_memp_malloc_pool (ps ! type) in (m, ps[type := p]))
      else (NULL, ps))"

definition memp_free :: "nat \<Rightarrow> addr \<Rightarrow> memp_pool list \<Rightarrow> memp_pool list" where
  "memp_free type mem ps =
     (if type < length ps then
        (if mem = NULL then ps else ps[type := do_memp_free_pool mem (ps ! type)])
      else ps)"

section \<open>Well-formed pools\<close>

text \<open>
  The elements of a pool, and the invariant: the free list is linked through the unused
  elements, which together with the outstanding ones \<open>A\<close> make up the pool, and the
  statistics count the outstanding elements.
\<close>

definition pool_elem :: "memp_desc \<Rightarrow> nat \<Rightarrow> addr" where
  "pool_elem d i = LWIP_MEM_ALIGN_SIZE (md_base d) + i * md_size d"

definition pool_elems :: "memp_desc \<Rightarrow> addr set" where
  "pool_elems d = pool_elem d ` {..<md_num d}"

definition wf_desc :: "memp_desc \<Rightarrow> bool" where
  "wf_desc d \<longleftrightarrow> 0 < md_size d \<and> 4 dvd md_size d \<and> md_num d < 2 ^ 16 \<and> 0 < md_base d"

abbreviation links :: "memp_pool \<Rightarrow> addr \<Rightarrow> addr option" where
  "links s \<equiv> \<lambda>a. Some (mp_next s a)"

definition pool_stats_ok :: "memp_desc \<Rightarrow> memp_pool \<Rightarrow> addr set \<Rightarrow> bool" where
  "pool_stats_ok d s A \<longleftrightarrow>
     unat (st_used (mp_stats s)) = card A \<and> st_used (mp_stats s) \<le> st_max (mp_stats s)
     \<and> unat (st_max (mp_stats s)) \<le> md_num d"

definition pool_inv :: "memp_desc \<Rightarrow> memp_pool \<Rightarrow> addr set \<Rightarrow> bool" where
  "pool_inv d s A \<longleftrightarrow> wf_desc d \<and> pool_stats_ok d s A \<and>
     (\<exists>fl. linked (links s) (mp_tab s) fl \<and> set fl \<inter> A = {} \<and> set fl \<union> A = pool_elems d)"

lemma finite_pool_elems [simp]: "finite (pool_elems d)"
  by (simp add: pool_elems_def)

lemma pool_elem_inj: "wf_desc d \<Longrightarrow> inj (pool_elem d)"
  by (auto simp: wf_desc_def pool_elem_def inj_def)

lemma card_pool_elems: "wf_desc d \<Longrightarrow> card (pool_elems d) = md_num d"
  using card_image [OF inj_on_subset [OF pool_elem_inj subset_UNIV], of d "{..<md_num d}"]
  by (simp add: pool_elems_def)

lemma pool_elems_nonnull: "wf_desc d \<Longrightarrow> NULL \<notin> pool_elems d"
  using align_size_ge [of "md_base d"]
  by (auto simp: pool_elems_def pool_elem_def wf_desc_def)

lemma pool_elems_aligned: "wf_desc d \<Longrightarrow> a \<in> pool_elems d \<Longrightarrow> 4 dvd a"
  by (auto simp: pool_elems_def pool_elem_def wf_desc_def)

text \<open>Two different elements do not overlap.\<close>

lemma pool_elems_disjoint:
  assumes "wf_desc d" "a \<in> pool_elems d" "b \<in> pool_elems d" "a < b"
  shows "a + md_size d \<le> b"
proof -
  obtain i j where ij: "a = pool_elem d i" "b = pool_elem d j"
    using assms(2,3) by (auto simp: pool_elems_def)
  with assms(1,4) have "i * md_size d < j * md_size d" by (simp add: pool_elem_def)
  then have "Suc i \<le> j" by simp
  then have "Suc i * md_size d \<le> j * md_size d" by (rule mult_le_mono1)
  then show ?thesis using ij by (simp add: pool_elem_def)
qed

section \<open>Initialisation\<close>

lemma memp_init_loop_frame [simp]:
  "mp_stats (memp_init_loop n d m s) = mp_stats s"
  by (induction n d m s rule: memp_init_loop.induct) auto

lemma memp_init_loop_linked:
  assumes "linked (links s) (mp_tab s) fl" and "0 < md_size d" and "0 < m"
    and "\<forall>a \<in> set fl. a < m"
  shows "\<exists>fl'. linked (links (memp_init_loop n d m s)) (mp_tab (memp_init_loop n d m s)) fl'
           \<and> set fl' = set fl \<union> (\<lambda>i. m + i * md_size d) ` {..<n}"
  using assms
proof (induction n d m s arbitrary: fl rule: memp_init_loop.induct)
  case (1 d m s)
  then show ?case by auto
next
  case (2 n d m s)
  let ?s = "s\<lparr>mp_next := (mp_next s)(m := mp_tab s), mp_tab := m\<rparr>"
  have "links ?s = (links s)(m := Some (mp_tab s))" by auto
  moreover have "m \<notin> set fl" using "2.prems"(4) by auto
  ultimately have l: "linked (links ?s) (mp_tab ?s) (m # fl)"
    using "2.prems"(1,3) by simp
  have "\<forall>a \<in> set (m # fl). a < m + md_size d" using "2.prems"(2,4) by fastforce
  from "2.IH" [OF l "2.prems"(2) _ this] "2.prems"(3) obtain fl' where fl':
    "linked (links (memp_init_loop n d (m + md_size d) ?s))
       (mp_tab (memp_init_loop n d (m + md_size d) ?s)) fl'"
    "set fl' = set (m # fl) \<union> (\<lambda>i. m + md_size d + i * md_size d) ` {..<n}" by auto
  have "(\<lambda>i. m + i * md_size d) ` {..<Suc n}
        = insert m ((\<lambda>i. m + md_size d + i * md_size d) ` {..<n})"
    by (simp add: lessThan_Suc_eq_insert_0 image_image ac_simps)
  with fl' show ?case by auto
qed

lemma memp_init_pool_inv:
  assumes "wf_desc d" and "mp_stats s = stats_mem_zero"
  shows "pool_inv d (memp_init_pool d s) {}"
proof -
  let ?s = "s\<lparr>mp_tab := NULL\<rparr>"
  have "0 < LWIP_MEM_ALIGN_SIZE (md_base d)"
    using assms(1) align_size_ge [of "md_base d"] by (simp add: wf_desc_def)
  then obtain fl where
    "linked (links (memp_init_loop (md_num d) d (LWIP_MEM_ALIGN_SIZE (md_base d)) ?s))
       (mp_tab (memp_init_loop (md_num d) d (LWIP_MEM_ALIGN_SIZE (md_base d)) ?s)) fl"
    "set fl = (\<lambda>i. LWIP_MEM_ALIGN_SIZE (md_base d) + i * md_size d) ` {..<md_num d}"
    using memp_init_loop_linked [of ?s "[]" d "LWIP_MEM_ALIGN_SIZE (md_base d)" "md_num d"] assms(1)
    by (auto simp: wf_desc_def)
  then show ?thesis
    using assms
    by (auto simp: pool_inv_def pool_stats_ok_def memp_init_pool_def Let_def pool_elems_def
        pool_elem_def stats_mem_zero_def)
qed

section \<open>Allocation and release\<close>

lemma pool_inv_subset: "pool_inv d s A \<Longrightarrow> A \<subseteq> pool_elems d"
  by (auto simp: pool_inv_def)

lemma pool_inv_finite: "pool_inv d s A \<Longrightarrow> finite A"
  by (rule finite_subset [OF pool_inv_subset finite_pool_elems])

lemma pool_inv_card: "pool_inv d s A \<Longrightarrow> card A \<le> md_num d"
  using pool_inv_subset [of d s A] card_mono [of "pool_elems d" A] card_pool_elems [of d]
  by (auto simp: pool_inv_def)

lemma stats_used_inc:
  assumes "pool_stats_ok d s A" and "finite A" and "p \<notin> A" and "card A < md_num d"
    and "md_num d < 2 ^ 16" and "do_memp_malloc_pool s = (p, s')" and "p \<noteq> NULL"
  shows "pool_stats_ok d s' (insert p A)"
proof -
  have u: "unat (st_used (mp_stats s) + 1) = card A + 1"
    using assms(1,4,5) by (subst unat_add_no_wrap) (auto simp: pool_stats_ok_def)
  show ?thesis
    using assms u
    by (auto simp: pool_stats_ok_def do_memp_malloc_pool_def Let_def word_le_nat_alt
        word_less_nat_alt split: if_splits)
qed

lemma do_memp_malloc_pool_ok [inv_intros]:
  assumes inv: "pool_inv d s A" and m: "do_memp_malloc_pool s = (p, s')" and p: "p \<noteq> NULL"
  shows "p \<in> pool_elems d" and "p \<notin> A" and "pool_inv d s' (insert p A)"
proof -
  obtain fl where fl: "linked (links s) (mp_tab s) fl" "set fl \<inter> A = {}"
    "set fl \<union> A = pool_elems d" using inv by (auto simp: pool_inv_def)
  have tab: "mp_tab s = p" "mp_tab s' = mp_next s p" "mp_next s' = mp_next s"
    using m p by (auto simp: do_memp_malloc_pool_def Let_def split: if_splits)
  with fl(1) p obtain fl' where fl': "fl = p # fl'" "linked (links s) (mp_next s p) fl'"
    by (auto simp: linked_not_NULL)
  have d: "p \<notin> set fl'" using linked_distinct [OF fl(1)] fl'(1) by simp
  show "p \<in> pool_elems d" and nA: "p \<notin> A" using fl fl'(1) by auto
  have fA: "finite A" using inv by (rule pool_inv_finite)
  have wf: "wf_desc d" using inv by (simp add: pool_inv_def)
  have "A \<subset> pool_elems d" using fl fl'(1) nA by auto
  then have "card A < md_num d" using psubset_card_mono [of "pool_elems d" A] card_pool_elems [OF wf] by simp
  then have st: "pool_stats_ok d s' (insert p A)"
    using stats_used_inc [OF _ fA nA _ _ m p] inv wf by (simp add: pool_inv_def wf_desc_def)
  show "pool_inv d s' (insert p A)"
    using wf st fl fl' d tab by (auto simp: pool_inv_def intro!: exI [of _ fl'])
qed

lemma do_memp_malloc_pool_fail:
  assumes inv: "pool_inv d s A" and m: "do_memp_malloc_pool s = (NULL, s')"
  shows "A = pool_elems d" and "pool_inv d s' A"
proof -
  have tab: "mp_tab s = NULL" "mp_tab s' = NULL" "mp_next s' = mp_next s"
    "st_used (mp_stats s') = st_used (mp_stats s)" "st_max (mp_stats s') = st_max (mp_stats s)"
    using m by (auto simp: do_memp_malloc_pool_def Let_def split: if_splits)
  then show "A = pool_elems d" using inv by (auto simp: pool_inv_def)
  show "pool_inv d s' A" using inv tab by (auto simp: pool_inv_def pool_stats_ok_def)
qed

lemma do_memp_free_pool_ok [inv_intros]:
  assumes inv: "pool_inv d s A" and p: "p \<in> A"
  shows "pool_inv d (do_memp_free_pool p s) (A - {p})"
proof -
  obtain fl where fl: "linked (links s) (mp_tab s) fl" "set fl \<inter> A = {}"
    "set fl \<union> A = pool_elems d" using inv by (auto simp: pool_inv_def)
  let ?s = "do_memp_free_pool p s"
  have wf: "wf_desc d" using inv by (simp add: pool_inv_def)
  have "p \<noteq> NULL" using p pool_inv_subset [OF inv] pool_elems_nonnull [OF wf] by (metis subsetD)
  moreover have "links ?s = (links s)(p := Some (mp_tab s))" by (auto simp: do_memp_free_pool_def)
  moreover have "p \<notin> set fl" using fl(2) p by auto
  ultimately have l: "linked (links ?s) (mp_tab ?s) (p # fl)"
    using fl(1) by (simp add: do_memp_free_pool_def)
  have fA: "finite A" using inv by (rule pool_inv_finite)
  then have c: "0 < card A" using p by (auto simp: card_gt_0_iff)
  have "unat (st_used (mp_stats s) - 1) = card A - 1"
    using inv c by (subst unat_sub_le) (auto simp: pool_inv_def pool_stats_ok_def word_le_nat_alt)
  then have "pool_stats_ok d ?s (A - {p})"
    using inv p fA
    by (auto simp: pool_inv_def pool_stats_ok_def do_memp_free_pool_def word_le_nat_alt)
  then show ?thesis
    using wf l fl p by (auto simp: pool_inv_def intro!: exI [of _ "p # fl"])
qed

section \<open>The contract of an object pool\<close>

text \<open>
  What a client of a pool relies on. \<open>inv s A\<close> reads: the pool is in state \<open>s\<close> and the
  objects \<open>A\<close> are outstanding.
\<close>

locale object_pool =
  fixes alloc :: "'s \<Rightarrow> addr \<times> 's"
    and release :: "addr \<Rightarrow> 's \<Rightarrow> 's"
    and inv :: "'s \<Rightarrow> addr set \<Rightarrow> bool"
    and elems :: "addr set"
  assumes elems_finite: "finite elems"
    and inv_elems: "inv s A \<Longrightarrow> A \<subseteq> elems \<and> NULL \<notin> elems"
    and alloc_ok: "inv s A \<Longrightarrow> alloc s = (p, s') \<Longrightarrow> p \<noteq> NULL \<Longrightarrow>
      p \<in> elems \<and> p \<notin> A \<and> inv s' (insert p A)"
    and alloc_fail: "inv s A \<Longrightarrow> alloc s = (NULL, s') \<Longrightarrow> A = elems \<and> inv s' A"
    and release_ok: "inv s A \<Longrightarrow> p \<in> A \<Longrightarrow> inv (release p s) (A - {p})"
begin

text \<open>Allocation succeeds exactly when an object is left.\<close>

lemma alloc_iff:
  assumes "inv s A"
  shows "fst (alloc s) \<noteq> NULL \<longleftrightarrow> A \<noteq> elems"
proof -
  obtain p s' where a: "alloc s = (p, s')" by (cases "alloc s")
  show ?thesis
  proof (cases "p = NULL")
    case True
    then show ?thesis using alloc_fail [OF assms] a by auto
  next
    case False
    then have "p \<in> elems" "p \<notin> A" using alloc_ok [OF assms a] by auto
    then show ?thesis using a False by auto
  qed
qed

text \<open>\<open>n\<close> allocations in a row, as a client that fills a ring or a queue makes them.\<close>

fun alloc_n :: "nat \<Rightarrow> 's \<Rightarrow> addr list \<times> 's" where
  "alloc_n 0 s = ([], s)"
| "alloc_n (Suc n) s =
     (let (p, s) = alloc s; (ps, s) = alloc_n n s in (p # ps, s))"

lemma alloc_n_ok:
  assumes "inv s A" and "card A + n \<le> card elems"
  shows "let (ps, s') = alloc_n n s in
     length ps = n \<and> distinct ps \<and> NULL \<notin> set ps \<and> set ps \<inter> A = {} \<and> inv s' (A \<union> set ps)"
  using assms
proof (induction n arbitrary: s A)
  case 0
  then show ?case by simp
next
  case (Suc n)
  obtain p s1 where a: "alloc s = (p, s1)" by (cases "alloc s")
  have fA: "finite A" using inv_elems [OF Suc.prems(1)] elems_finite finite_subset by blast
  have "A \<noteq> elems" using Suc.prems(2) by auto
  then have "p \<noteq> NULL" using alloc_iff [OF Suc.prems(1)] a by simp
  note ok = alloc_ok [OF Suc.prems(1) a this]
  have c: "card (insert p A) + n \<le> card elems" using ok fA Suc.prems(2) by simp
  obtain ps s2 where r: "alloc_n n s1 = (ps, s2)" by (cases "alloc_n n s1")
  have "length ps = n \<and> distinct ps \<and> NULL \<notin> set ps \<and> set ps \<inter> insert p A = {}
        \<and> inv s2 (insert p A \<union> set ps)"
    using Suc.IH [of s1 "insert p A", OF _ c] ok r by simp
  then show ?case using a r ok \<open>p \<noteq> NULL\<close> by (auto simp: Let_def)
qed

text \<open>Releasing and allocating again: the pool never hands out more than it has.\<close>

lemma capacity: "inv s A \<Longrightarrow> card A \<le> card elems"
  using inv_elems [of s A] card_mono [OF elems_finite, of A] by simp

end

interpretation memp: object_pool do_memp_malloc_pool do_memp_free_pool "pool_inv d" "pool_elems d"
  for d
proof (unfold_locales, goal_cases)
  case 1
  show ?case by simp
next
  case (2 s A)
  then show ?case
    using pool_inv_subset pool_elems_nonnull by (auto simp: pool_inv_def)
next
  case (3 s A p s')
  then show ?case using do_memp_malloc_pool_ok by blast
next
  case (4 s A s')
  then show ?case using do_memp_malloc_pool_fail by blast
next
  case (5 s A p)
  then show ?case by (rule do_memp_free_pool_ok)
qed

section \<open>Properties\<close>

text \<open>The pools that initialisation, allocation and release of outstanding elements reach.\<close>

inductive pool_reach :: "memp_desc \<Rightarrow> memp_pool \<Rightarrow> addr set \<Rightarrow> bool" for d where
  pool_init: "wf_desc d \<Longrightarrow> mp_stats s = stats_mem_zero \<Longrightarrow> pool_reach d (memp_init_pool d s) {}"
| pool_alloc: "pool_reach d s A \<Longrightarrow> do_memp_malloc_pool s = (p, s') \<Longrightarrow>
    pool_reach d s' (if p = NULL then A else insert p A)"
| pool_free: "pool_reach d s A \<Longrightarrow> p \<in> A \<Longrightarrow> pool_reach d (do_memp_free_pool p s) (A - {p})"

lemma pool_reach_inv: "pool_reach d s A \<Longrightarrow> pool_inv d s A"
proof (induction rule: pool_reach.induct)
  case (pool_init s)
  then show ?case by (rule memp_init_pool_inv)
next
  case (pool_alloc s A p s')
  then show ?case using memp.alloc_ok [of d s A p s'] memp.alloc_fail [of d s A s'] by auto
next
  case (pool_free s A p)
  then show ?case by (simp add: memp.release_ok)
qed

text \<open>
  C23 Pool safety. In every state that a pool reaches, \<open>memp_malloc\<close> fails exactly when all
  \<open>num\<close> elements are outstanding; otherwise it returns an aligned element of the pool that is
  not outstanding and overlaps no outstanding element, and the statistics count the elements
  in use.
\<close>

theorem memp_malloc_safe:
  assumes "pool_reach d s A" and "do_memp_malloc_pool s = (p, s')"
  shows "(p = NULL \<longleftrightarrow> card A = md_num d)
    \<and> (p \<noteq> NULL \<longrightarrow> p \<in> pool_elems d - A \<and> 4 dvd p
      \<and> (\<forall>q \<in> A. p + md_size d \<le> q \<or> q + md_size d \<le> p))
    \<and> unat (st_used (mp_stats s)) = card A"
proof (intro conjI impI)
  have inv: "pool_inv d s A" by (rule pool_reach_inv [OF assms(1)])
  then have wf: "wf_desc d" and sub: "A \<subseteq> pool_elems d" by (auto simp: pool_inv_def)
  have "card A = md_num d \<longleftrightarrow> A = pool_elems d"
    using card_subset_eq [OF finite_pool_elems sub] card_pool_elems [OF wf] by auto
  then show "p = NULL \<longleftrightarrow> card A = md_num d" using memp.alloc_iff [OF inv] assms(2) by auto
  show "unat (st_used (mp_stats s)) = card A" using inv by (simp add: pool_inv_def pool_stats_ok_def)
  assume "p \<noteq> NULL"
  with memp.alloc_ok [OF inv assms(2)] have p: "p \<in> pool_elems d" "p \<notin> A" by auto
  then show "p \<in> pool_elems d - A" and "4 dvd p" using pool_elems_aligned [OF wf] by auto
  show "\<forall>q \<in> A. p + md_size d \<le> q \<or> q + md_size d \<le> p"
    using pool_elems_disjoint [OF wf] p sub by (metis nat_neq_iff subsetD)
qed

definition demo_desc :: memp_desc where
  "demo_desc = \<lparr>md_size = 16, md_num = 2, md_base = 98\<rparr>"

definition demo_pool :: memp_pool where
  "demo_pool = memp_init_pool demo_desc memp_pool_zero"

lemma demo_pool_reach: "pool_reach demo_desc demo_pool {}"
  unfolding demo_pool_def
  by (rule pool_init) (simp_all add: demo_desc_def wf_desc_def memp_pool_zero_def)

theorem memp_malloc_safe_witness:
  "fst (do_memp_malloc_pool demo_pool) = 116
   \<and> fst (do_memp_malloc_pool (snd (do_memp_malloc_pool demo_pool))) = 100
   \<and> fst (do_memp_malloc_pool demo_pool) \<in> pool_elems demo_desc"
proof -
  have v: "fst (do_memp_malloc_pool demo_pool) = 116"
    "fst (do_memp_malloc_pool (snd (do_memp_malloc_pool demo_pool))) = 100" by code_simp+
  have "fst (do_memp_malloc_pool demo_pool) \<in> pool_elems demo_desc"
    using memp_malloc_safe [OF demo_pool_reach prod.collapse [symmetric]] v(1) by simp
  then show ?thesis using v by simp
qed

end
