(* ===== verification/Mem.thy ===== *)
theory Mem
  imports Memp
begin

text \<open>
  The heap of \<open>lwip/src/core/mem.c\<close> in the configuration of the port: the lwIP heap itself
  (\<open>MEM_LIBC_MALLOC = 0\<close>, \<open>MEM_USE_POOLS = 0\<close>), \<open>MEM_SIZE\<close> of 256 KiB, so \<open>mem_size_t\<close> is
  \<open>u32_t\<close>, no overflow or sanity checking, statistics on, and
  \<open>LWIP_ALLOW_MEM_FREE_FROM_OTHER_CONTEXT = 1\<close>: while \<open>mem_malloc\<close> searches it opens
  windows in which other contexts may run \<open>mem_free\<close>. The windows are explicit in the model:
  \<open>mem_malloc\<close> takes a script, the list of the pointers that other contexts free in each
  successive window.

  The abstraction is the sequence of blocks, each a size (header included) and a used flag.
  The heap operations are shown to implement first-fit allocation, release and trimming on
  block sequences.
\<close>

section \<open>Data\<close>

text \<open>\<open>struct mem\<close>: indices into \<open>ram\<close> of the next and the previous block, and \<open>used\<close>.\<close>

record mem_hdr =
  m_next :: nat
  m_prev :: nat
  m_used :: bool

text \<open>
  The static variables \<open>ram\<close>, \<open>lfree\<close> (as an index), \<open>mem_free_count\<close>, the statistics, and
  the contents of \<open>ram\<close> read as block headers.
\<close>

record mem_heap =
  hdr :: "nat \<Rightarrow> mem_hdr"
  ram :: addr
  lfree :: nat
  mem_free_count :: bool
  mem_stats :: stats_mem

definition MEM_SIZE_ALIGNED :: nat where
  [const_defs]: "MEM_SIZE_ALIGNED = LWIP_MEM_ALIGN_SIZE (256 * 1024)"

definition SIZEOF_STRUCT_MEM :: nat where
  [const_defs]: "SIZEOF_STRUCT_MEM = LWIP_MEM_ALIGN_SIZE 12"

definition MIN_SIZE_ALIGNED :: nat where
  [const_defs]: "MIN_SIZE_ALIGNED = LWIP_MEM_ALIGN_SIZE 12"

lemma MEM_SIZE_ALIGNED_val: "MEM_SIZE_ALIGNED = 262144"
  by (simp add: const_defs)

lemma SIZEOF_STRUCT_MEM_val [simp]: "SIZEOF_STRUCT_MEM = 12"
  by (simp add: const_defs LWIP_MEM_ALIGN_SIZE_def)

lemma MIN_SIZE_ALIGNED_val [simp]: "MIN_SIZE_ALIGNED = 12"
  by (simp add: const_defs LWIP_MEM_ALIGN_SIZE_def)

abbreviation ram_end :: nat where "ram_end \<equiv> MEM_SIZE_ALIGNED"

definition set_next :: "nat \<Rightarrow> nat \<Rightarrow> mem_heap \<Rightarrow> mem_heap" where
  "set_next m v s = s\<lparr>hdr := (hdr s)(m := (hdr s m)\<lparr>m_next := v\<rparr>)\<rparr>"

definition set_prev :: "nat \<Rightarrow> nat \<Rightarrow> mem_heap \<Rightarrow> mem_heap" where
  "set_prev m v s = s\<lparr>hdr := (hdr s)(m := (hdr s m)\<lparr>m_prev := v\<rparr>)\<rparr>"

definition set_used :: "nat \<Rightarrow> bool \<Rightarrow> mem_heap \<Rightarrow> mem_heap" where
  "set_used m v s = s\<lparr>hdr := (hdr s)(m := (hdr s m)\<lparr>m_used := v\<rparr>)\<rparr>"

text \<open>The statistics macros \<open>MEM_STATS_INC_USED\<close>, \<open>MEM_STATS_DEC_USED\<close>, \<open>MEM_STATS_INC\<close>.\<close>

definition stats_inc_used :: "nat \<Rightarrow> mem_heap \<Rightarrow> mem_heap" where
  "stats_inc_used y s =
     (let st = mem_stats s; st = st\<lparr>st_used := st_used st + of_nat y\<rparr>;
          st = (if st_max st < st_used st then st\<lparr>st_max := st_used st\<rparr> else st)
      in s\<lparr>mem_stats := st\<rparr>)"

definition stats_dec_used :: "nat \<Rightarrow> mem_heap \<Rightarrow> mem_heap" where
  "stats_dec_used y s =
     s\<lparr>mem_stats := (mem_stats s)\<lparr>st_used := st_used (mem_stats s) - of_nat y\<rparr>\<rparr>"

definition stats_inc_err :: "mem_heap \<Rightarrow> mem_heap" where
  "stats_inc_err s = s\<lparr>mem_stats := (mem_stats s)\<lparr>st_err := st_err (mem_stats s) + 1\<rparr>\<rparr>"

definition stats_inc_illegal :: "mem_heap \<Rightarrow> mem_heap" where
  "stats_inc_illegal s =
     s\<lparr>mem_stats := (mem_stats s)\<lparr>st_illegal := st_illegal (mem_stats s) + 1\<rparr>\<rparr>"

section \<open>Operations\<close>

text \<open>The two halves of \<open>plug_holes\<close>: joining with the next and with the previous block.\<close>

definition plug_next :: "nat \<Rightarrow> mem_heap \<Rightarrow> mem_heap" where
  "plug_next mem s =
     (let nmem = m_next (hdr s mem) in
      if mem \<noteq> nmem \<and> \<not> m_used (hdr s nmem) \<and> nmem \<noteq> ram_end then
        (let s = (if lfree s = nmem then s\<lparr>lfree := mem\<rparr> else s);
             s = set_next mem (m_next (hdr s nmem)) s
         in if m_next (hdr s nmem) \<noteq> MEM_SIZE_ALIGNED
            then set_prev (m_next (hdr s nmem)) mem s else s)
      else s)"

definition plug_prev :: "nat \<Rightarrow> mem_heap \<Rightarrow> mem_heap" where
  "plug_prev mem s =
     (let pmem = m_prev (hdr s mem) in
      if pmem \<noteq> mem \<and> \<not> m_used (hdr s pmem) then
        (let s = (if lfree s = mem then s\<lparr>lfree := pmem\<rparr> else s);
             s = set_next pmem (m_next (hdr s mem)) s
         in if m_next (hdr s mem) \<noteq> MEM_SIZE_ALIGNED
            then set_prev (m_next (hdr s mem)) pmem s else s)
      else s)"

definition plug_holes :: "nat \<Rightarrow> mem_heap \<Rightarrow> mem_heap" where
  "plug_holes mem s = plug_prev mem (plug_next mem s)"

definition mem_init :: "addr \<Rightarrow> mem_heap \<Rightarrow> mem_heap" where
  "mem_init base s =
     (let s = s\<lparr>ram := LWIP_MEM_ALIGN_SIZE base\<rparr>;
          s = set_next 0 MEM_SIZE_ALIGNED s; s = set_prev 0 0 s; s = set_used 0 False s;
          s = set_used ram_end True s; s = set_next ram_end MEM_SIZE_ALIGNED s;
          s = set_prev ram_end MEM_SIZE_ALIGNED s; s = s\<lparr>lfree := 0\<rparr>
      in s\<lparr>mem_stats := (mem_stats s)\<lparr>st_avail := of_nat MEM_SIZE_ALIGNED\<rparr>\<rparr>)"

definition mem_link_valid :: "nat \<Rightarrow> mem_heap \<Rightarrow> bool" where
  "mem_link_valid mem s =
     (let nmem = m_next (hdr s mem); pmem = m_prev (hdr s mem) in
      \<not> (m_next (hdr s mem) > MEM_SIZE_ALIGNED \<or> m_prev (hdr s mem) > MEM_SIZE_ALIGNED \<or>
         (m_prev (hdr s mem) \<noteq> mem \<and> m_next (hdr s pmem) \<noteq> mem) \<or>
         (nmem \<noteq> ram_end \<and> m_prev (hdr s nmem) \<noteq> mem)))"

text \<open>
  \<open>mem_sanity\<close> (compiled with \<open>MEM_SANITY_CHECK\<close>): whether all its assertions hold.
\<close>

partial_function (option) mem_sanity_loop :: "nat \<Rightarrow> bool \<Rightarrow> mem_heap \<Rightarrow> bool option" where
  "mem_sanity_loop mem last_used s =
     (if 0 < mem \<and> mem < ram_end then
        (if 4 dvd mem \<and> m_prev (hdr s mem) \<le> MEM_SIZE_ALIGNED \<and> m_next (hdr s mem) \<le> MEM_SIZE_ALIGNED
            \<and> 4 dvd m_prev (hdr s mem) \<and> 4 dvd m_next (hdr s mem)
            \<and> (\<not> last_used \<longrightarrow> m_used (hdr s mem)) \<and> mem_link_valid mem s
         then mem_sanity_loop (m_next (hdr s mem)) (m_used (hdr s mem)) s
         else Some False)
      else Some (mem = ram_end \<and> m_used (hdr s mem) \<and> m_prev (hdr s mem) = MEM_SIZE_ALIGNED
                 \<and> m_next (hdr s mem) = MEM_SIZE_ALIGNED))"

definition mem_sanity :: "mem_heap \<Rightarrow> bool option" where
  "mem_sanity s =
     (if m_prev (hdr s 0) = 0 \<and> m_next (hdr s 0) \<le> MEM_SIZE_ALIGNED \<and> 4 dvd m_next (hdr s 0)
      then mem_sanity_loop (m_next (hdr s 0)) (m_used (hdr s 0)) s else Some False)"

definition mem_free :: "addr \<Rightarrow> mem_heap \<Rightarrow> mem_heap" where
  "mem_free rmem s =
     (if rmem = NULL then s
      else if rmem mod MEM_ALIGNMENT \<noteq> 0 then stats_inc_illegal s
      else if rmem < ram s + SIZEOF_STRUCT_MEM \<or> rmem + MIN_SIZE_ALIGNED > ram s + ram_end
      then stats_inc_illegal s
      else
        (let mem = rmem - SIZEOF_STRUCT_MEM - ram s in
         if \<not> m_used (hdr s mem) then stats_inc_illegal s
         else if \<not> mem_link_valid mem s then stats_inc_illegal s
         else
           (let s = set_used mem False s;
                s = (if mem < lfree s then s\<lparr>lfree := mem\<rparr> else s);
                s = stats_dec_used (sub32 (m_next (hdr s mem)) mem) s;
                s = plug_holes mem s
            in s\<lparr>mem_free_count := True\<rparr>)))"

text \<open>
  The header writes that both branches of \<open>mem_trim\<close> make: a free block at \<open>ptr2\<close> between
  \<open>ptr\<close> and \<open>nxt\<close>.
\<close>

definition split_tail :: "nat \<Rightarrow> nat \<Rightarrow> nat \<Rightarrow> mem_heap \<Rightarrow> mem_heap" where
  "split_tail ptr ptr2 nxt s =
     (let s = set_used ptr2 False s;
          s = set_next ptr2 nxt s;
          s = set_prev ptr2 ptr s;
          s = set_next ptr ptr2 s
      in if m_next (hdr s ptr2) \<noteq> MEM_SIZE_ALIGNED
         then set_prev (m_next (hdr s ptr2)) ptr2 s else s)"

text \<open>\<open>mem_trim\<close>: the pointer it returns and the new state.\<close>

definition mem_trim :: "addr \<Rightarrow> nat \<Rightarrow> mem_heap \<Rightarrow> addr \<times> mem_heap" where
  "mem_trim rmem new_size s =
     (let newsize = LWIP_MEM_ALIGN_SIZE32 new_size;
          newsize = (if newsize < MIN_SIZE_ALIGNED then MIN_SIZE_ALIGNED else newsize) in
      if newsize > MEM_SIZE_ALIGNED \<or> newsize < new_size then (NULL, s)
      else if rmem < ram s \<or> rmem \<ge> ram s + ram_end then (rmem, stats_inc_illegal s)
      else
        (let ptr = sub32 (sub32 rmem SIZEOF_STRUCT_MEM) (ram s);
             sz = sub32 (sub32 (m_next (hdr s ptr)) ptr) SIZEOF_STRUCT_MEM in
         if newsize > sz then (NULL, s)
         else if newsize = sz then (rmem, s)
         else
           (let mem2 = m_next (hdr s ptr);
                s = (if \<not> m_used (hdr s mem2) then
                       (let nxt = m_next (hdr s mem2);
                            ptr2 = ptr + SIZEOF_STRUCT_MEM + newsize;
                            s = (if lfree s = mem2 then s\<lparr>lfree := ptr2\<rparr> else s);
                            s = split_tail ptr ptr2 nxt s
                        in stats_dec_used (sz - newsize) s)
                     else if newsize + SIZEOF_STRUCT_MEM + MIN_SIZE_ALIGNED \<le> sz then
                       (let ptr2 = ptr + SIZEOF_STRUCT_MEM + newsize;
                            s = (if ptr2 < lfree s then s\<lparr>lfree := ptr2\<rparr> else s);
                            s = split_tail ptr ptr2 (m_next (hdr s ptr)) s
                        in stats_dec_used (sz - newsize) s)
                     else s)
            in (rmem, s\<lparr>mem_free_count := True\<rparr>))))"

text \<open>
  A window of \<open>mem_malloc\<close>: \<open>mem_free_count\<close> is cleared, the protection is dropped, and the
  frees of the first entry of the script run.
\<close>

definition window :: "addr list list \<Rightarrow> mem_heap \<Rightarrow> mem_heap \<times> addr list list" where
  "window script s =
     (let s = s\<lparr>mem_free_count := False\<rparr> in
      case script of [] \<Rightarrow> (s, []) | ps # script \<Rightarrow> (fold mem_free ps s, script))"

text \<open>The part of \<open>mem_malloc\<close> from the label \<open>mem_malloc_adjust_lfree\<close>.\<close>

partial_function (option) adjust_lfree_loop ::
  "addr list list \<Rightarrow> nat \<Rightarrow> nat \<Rightarrow> mem_heap \<Rightarrow> mem_heap option" where
  "adjust_lfree_loop script mem cur s =
     (if m_used (hdr s cur) \<and> cur \<noteq> ram_end then
        (let (s, script) = window script s in
         if mem_free_count s then
           (if mem = lfree s then adjust_lfree_loop script mem (lfree s) s else Some s)
         else adjust_lfree_loop script mem (m_next (hdr s cur)) s)
      else Some (s\<lparr>lfree := cur\<rparr>))"

definition adjust_lfree :: "addr list list \<Rightarrow> nat \<Rightarrow> mem_heap \<Rightarrow> mem_heap option" where
  "adjust_lfree script mem s =
     (if mem = lfree s then adjust_lfree_loop script mem (lfree s) s else Some s)"

text \<open>The body of the search once a free block that is large enough is found.\<close>

definition take_block :: "nat \<Rightarrow> nat \<Rightarrow> mem_heap \<Rightarrow> mem_heap" where
  "take_block ptr sz s =
     (if sub32 (m_next (hdr s ptr)) (ptr + SIZEOF_STRUCT_MEM) \<ge> sz + SIZEOF_STRUCT_MEM + MIN_SIZE_ALIGNED
      then
        (let ptr2 = ptr + SIZEOF_STRUCT_MEM + sz;
             s = set_used ptr2 False s;
             s = set_next ptr2 (m_next (hdr s ptr)) s;
             s = set_prev ptr2 ptr s;
             s = set_next ptr ptr2 s;
             s = set_used ptr True s;
             s = (if m_next (hdr s ptr2) \<noteq> MEM_SIZE_ALIGNED
                  then set_prev (m_next (hdr s ptr2)) ptr2 s else s)
         in stats_inc_used (sz + SIZEOF_STRUCT_MEM) s)
      else
        (let s = set_used ptr True s in stats_inc_used (sub32 (m_next (hdr s ptr)) ptr) s))"

partial_function (option) mem_malloc_loop ::
  "addr list list \<Rightarrow> nat \<Rightarrow> nat \<Rightarrow> mem_heap \<Rightarrow> (addr \<times> mem_heap) option" where
  "mem_malloc_loop script sz ptr s =
     (if ptr < MEM_SIZE_ALIGNED - sz then
        (let (s, script) = window script s in
         if mem_free_count s then mem_malloc_loop script sz (lfree s) s
         else if \<not> m_used (hdr s ptr) \<and> sub32 (m_next (hdr s ptr)) (ptr + SIZEOF_STRUCT_MEM) \<ge> sz then
           (case adjust_lfree script ptr (take_block ptr sz s) of
              None \<Rightarrow> None
            | Some s \<Rightarrow> Some (ram s + ptr + SIZEOF_STRUCT_MEM, s))
         else mem_malloc_loop script sz (m_next (hdr s ptr)) s)
      else Some (NULL, stats_inc_err s))"

definition mem_malloc :: "addr list list \<Rightarrow> nat \<Rightarrow> mem_heap \<Rightarrow> (addr \<times> mem_heap) option" where
  "mem_malloc script size_in s =
     (if size_in = 0 then Some (NULL, s)
      else
        (let sz = LWIP_MEM_ALIGN_SIZE32 size_in;
             sz = (if sz < MIN_SIZE_ALIGNED then MIN_SIZE_ALIGNED else sz) in
         if sz > MEM_SIZE_ALIGNED \<or> sz < size_in then Some (NULL, s)
         else mem_malloc_loop script sz (lfree s) s))"

text \<open>
  \<open>mem_calloc\<close>: the multiplication is in \<open>size_t\<close>, 32 bits wide like \<open>mem_size_t\<close>, so the
  conversion test never fails. The bytes that \<open>memset\<close> clears are given as an address and
  a count.
\<close>

definition mem_calloc ::
  "addr list list \<Rightarrow> nat \<Rightarrow> nat \<Rightarrow> mem_heap \<Rightarrow> (addr \<times> (addr \<times> nat) option \<times> mem_heap) option" where
  "mem_calloc script count sz s =
     (let alloc_size = (count * sz) mod 2 ^ 32 in
      case mem_malloc script alloc_size s of
        None \<Rightarrow> None
      | Some (p, s) \<Rightarrow> Some (p, if p \<noteq> NULL then Some (p, alloc_size) else None, s))"

section \<open>The block sequence\<close>

type_synonym blk = "nat \<times> bool"

definition blk_total :: "blk list \<Rightarrow> nat" where
  "blk_total bs = sum_list (map fst bs)"

lemma blk_total_simps [simp]:
  "blk_total [] = 0" "blk_total (b # bs) = fst b + blk_total bs" "blk_total (xs @ ys) = blk_total xs + blk_total ys"
  by (simp_all add: blk_total_def)

text \<open>
  \<open>prefix_blocks H pv o bs\<close>: at index \<open>o\<close> the headers \<open>H\<close> lay out the blocks \<open>bs\<close>, the
  first of which points back to \<open>pv\<close>. \<open>blocks\<close> says in addition that they end at
  \<open>ram_end\<close>.
\<close>

fun prefix_blocks :: "(nat \<Rightarrow> mem_hdr) \<Rightarrow> nat \<Rightarrow> nat \<Rightarrow> blk list \<Rightarrow> bool" where
  "prefix_blocks H pv off [] \<longleftrightarrow> True"
| "prefix_blocks H pv off ((n, u) # bs) \<longleftrightarrow>
     m_next (H off) = off + n \<and> m_prev (H off) = pv \<and> m_used (H off) = u \<and> 24 \<le> n \<and> 4 dvd n
     \<and> prefix_blocks H off (off + n) bs"

fun last_off :: "nat \<Rightarrow> nat \<Rightarrow> blk list \<Rightarrow> nat" where
  "last_off pv off [] = pv"
| "last_off pv off (b # bs) = last_off off (off + fst b) bs"

definition blocks :: "(nat \<Rightarrow> mem_hdr) \<Rightarrow> nat \<Rightarrow> nat \<Rightarrow> blk list \<Rightarrow> bool" where
  "blocks H pv off bs \<longleftrightarrow> prefix_blocks H pv off bs \<and> off + blk_total bs = MEM_SIZE_ALIGNED"

lemma prefix_blocks_append:
  "prefix_blocks H pv off (xs @ ys) \<longleftrightarrow>
     prefix_blocks H pv off xs \<and> prefix_blocks H (last_off pv off xs) (off + blk_total xs) ys"
  by (induction H pv off xs rule: prefix_blocks.induct) (auto simp: ac_simps)

lemma prefix_blocks_upd:
  "a < off \<or> off + blk_total bs \<le> a \<Longrightarrow>
     prefix_blocks (H(a := h)) pv off bs = prefix_blocks H pv off bs"
  by (induction H pv off bs rule: prefix_blocks.induct) auto

lemma prefix_blocks_pos: "prefix_blocks H pv off bs \<Longrightarrow> bs \<noteq> [] \<Longrightarrow> 24 \<le> blk_total bs"
  by (cases bs) auto

lemma last_off_append [simp]:
  "last_off pv off (xs @ [b]) = off + blk_total xs"
  by (induction xs arbitrary: pv off) (auto simp: ac_simps)

text \<open>Redirecting the back pointer of the block at \<open>off\<close>, if there is one.\<close>

definition relink :: "nat \<Rightarrow> nat \<Rightarrow> (nat \<Rightarrow> mem_hdr) \<Rightarrow> (nat \<Rightarrow> mem_hdr)" where
  "relink off q H = (if off \<noteq> MEM_SIZE_ALIGNED then H(off := (H off)\<lparr>m_prev := q\<rparr>) else H)"

lemma blocks_relink:
  "blocks H pv off bs \<Longrightarrow> blocks (relink off q H) q off bs"
  by (cases bs) (auto simp: blocks_def relink_def prefix_blocks_upd)

lemma relink_other: "a \<noteq> off \<Longrightarrow> relink off q H a = H a"
  by (simp add: relink_def)

lemma prefix_blocks_relink:
  "off' < off \<or> off + blk_total bs \<le> off' \<Longrightarrow>
     prefix_blocks (relink off' q H) pv off bs = prefix_blocks H pv off bs"
  by (simp add: relink_def prefix_blocks_upd)

text \<open>The indices of the blocks, of the free ones, and the bytes in use.\<close>

fun boundaries :: "nat \<Rightarrow> blk list \<Rightarrow> nat set" where
  "boundaries off [] = {off}"
| "boundaries off (b # bs) = insert off (boundaries (off + fst b) bs)"

fun free_offs :: "nat \<Rightarrow> blk list \<Rightarrow> nat set" where
  "free_offs off [] = {}"
| "free_offs off (b # bs) = (if snd b then {} else {off}) \<union> free_offs (off + fst b) bs"

fun used_offs :: "nat \<Rightarrow> blk list \<Rightarrow> (nat \<times> nat) set" where
  "used_offs off [] = {}"
| "used_offs off (b # bs) = (if snd b then {(off, fst b)} else {}) \<union> used_offs (off + fst b) bs"

fun free_blks :: "nat \<Rightarrow> blk list \<Rightarrow> (nat \<times> nat) set" where
  "free_blks off [] = {}"
| "free_blks off (b # bs) = (if snd b then {} else {(off, fst b)}) \<union> free_blks (off + fst b) bs"

definition used_bytes :: "blk list \<Rightarrow> nat" where
  "used_bytes bs = sum_list (map (\<lambda>b. if snd b then fst b else 0) bs)"

fun no_adjacent_free :: "blk list \<Rightarrow> bool" where
  "no_adjacent_free (a # b # bs) \<longleftrightarrow> (snd a \<or> snd b) \<and> no_adjacent_free (b # bs)"
| "no_adjacent_free _ \<longleftrightarrow> True"

lemma boundaries_append:
  "boundaries off (xs @ ys) = boundaries off xs \<union> boundaries (off + blk_total xs) ys"
proof (induction xs arbitrary: off)
  case Nil
  then show ?case by (cases ys) auto
next
  case (Cons a xs)
  then show ?case by (auto simp: ac_simps)
qed

lemma free_offs_append:
  "free_offs off (xs @ ys) = free_offs off xs \<union> free_offs (off + blk_total xs) ys"
  by (induction xs arbitrary: off) (auto simp: ac_simps)

lemma free_blks_append:
  "free_blks off (xs @ ys) = free_blks off xs \<union> free_blks (off + blk_total xs) ys"
  by (induction xs arbitrary: off) (auto simp: ac_simps)

lemma used_offs_append:
  "used_offs off (xs @ ys) = used_offs off xs \<union> used_offs (off + blk_total xs) ys"
  by (induction xs arbitrary: off) (auto simp: ac_simps)

lemma used_bytes_simps [simp]:
  "used_bytes [] = 0" "used_bytes (b # bs) = (if snd b then fst b else 0) + used_bytes bs"
  "used_bytes (xs @ ys) = used_bytes xs + used_bytes ys"
  by (simp_all add: used_bytes_def)

lemma used_bytes_le_blk_total: "used_bytes bs \<le> blk_total bs"
  by (induction bs) auto

lemma no_adjacent_free_append:
  "no_adjacent_free (xs @ ys) \<longleftrightarrow> no_adjacent_free xs \<and> no_adjacent_free ys
     \<and> (xs \<noteq> [] \<and> ys \<noteq> [] \<longrightarrow> snd (last xs) \<or> snd (hd ys))"
proof (induction xs rule: no_adjacent_free.induct)
  case (1 a b bs)
  then show ?case by auto
qed (simp, cases ys, auto)

lemma boundaries_bounds: "b \<in> boundaries off bs \<Longrightarrow> off \<le> b \<and> b \<le> off + blk_total bs"
  by (induction bs arbitrary: off) fastforce+

lemma free_offs_bounds: "b \<in> free_offs off bs \<Longrightarrow> off \<le> b \<and> b \<le> off + blk_total bs"
  by (induction bs arbitrary: off) (fastforce split: if_splits)+

lemma free_offs_boundaries: "free_offs off bs \<subseteq> boundaries off bs"
  by (induction bs arbitrary: off) auto

lemma start_in_boundaries [simp]: "off \<in> boundaries off bs" "off + blk_total bs \<in> boundaries off bs"
proof -
  show "off \<in> boundaries off bs" by (cases bs) auto
  show "off + blk_total bs \<in> boundaries off bs"
  proof (induction bs arbitrary: off)
    case Nil
    then show ?case by simp
  next
    case (Cons b bs)
    from Cons [of "off + fst b"] show ?case by (simp add: ac_simps)
  qed
qed

section \<open>The heap invariant\<close>

text \<open>
  \<open>heap_inv s bs\<close>: the headers lay out \<open>bs\<close> from index 0 to \<open>ram_end\<close>, no two free blocks
  are adjacent, no free block lies before \<open>lfree\<close>, and the statistics count the used bytes.
  \<open>heap_ok\<close>, which holds whenever no allocation is under way, says in addition that \<open>lfree\<close>
  is the first free block, or \<open>ram_end\<close> when there is none.
\<close>

definition heap_rep :: "mem_heap \<Rightarrow> blk list \<Rightarrow> bool" where
  "heap_rep s bs \<longleftrightarrow> blocks (hdr s) 0 0 bs \<and>
     hdr s ram_end = \<lparr>m_next = ram_end, m_prev = ram_end, m_used = True\<rparr>
     \<and> 0 < ram s \<and> 4 dvd ram s \<and> ram s + ram_end < 2 ^ 32"

definition lfree_ok :: "nat \<Rightarrow> blk list \<Rightarrow> bool" where
  "lfree_ok l bs \<longleftrightarrow> l \<in> boundaries 0 bs \<and> (\<forall>f \<in> free_offs 0 bs. l \<le> f)"

definition heap_inv :: "mem_heap \<Rightarrow> blk list \<Rightarrow> bool" where
  "heap_inv s bs \<longleftrightarrow> heap_rep s bs \<and> no_adjacent_free bs
     \<and> lfree_ok (lfree s) bs \<and> unat (st_used (mem_stats s)) = used_bytes bs"

definition heap_ok :: "mem_heap \<Rightarrow> blk list \<Rightarrow> bool" where
  "heap_ok s bs \<longleftrightarrow> heap_inv s bs \<and> (lfree s = ram_end \<or> lfree s \<in> free_offs 0 bs)"

section \<open>Local replacement of blocks\<close>

text \<open>
  Every heap operation replaces a few consecutive blocks by others of the same total size
  and redirects the back pointer of the block that follows them. One lemma covers them all.
\<close>

lemma prefix_blocks_cong:
  "(\<And>a. off \<le> a \<Longrightarrow> a < off + blk_total bs \<Longrightarrow> H a = H' a) \<Longrightarrow>
     prefix_blocks H pv off bs \<Longrightarrow> prefix_blocks H' pv off bs"
proof (induction bs arbitrary: pv off)
  case Nil
  then show ?case by simp
next
  case (Cons b bs)
  obtain n u where b: "b = (n, u)" by (cases b)
  have n: "24 \<le> n" using Cons.prems(2) b by simp
  have "H off = H' off" using Cons.prems(1) [of off] b n by simp
  moreover have "prefix_blocks H' off (off + n) bs"
    using Cons.IH [of "off + n" off] Cons.prems b by (simp add: ac_simps)
  ultimately show ?case using Cons.prems(2) b by simp
qed

lemma last_off_replace:
  "bs \<noteq> [] \<Longrightarrow> last_off pv off (xs @ bs) = last_off (last_off pv off xs) (off + blk_total xs) bs"
  by (induction xs arbitrary: pv off) (auto simp: ac_simps)

lemma last_off_in: "bs \<noteq> [] \<Longrightarrow> last_off pv off bs = last_off pv' off bs"
  by (cases bs) auto

lemma heap_rep_replace:
  assumes rep: "heap_rep s (xs @ as @ ys)"
    and agree: "\<And>a. a < blk_total xs \<or> blk_total xs + blk_total as \<le> a \<Longrightarrow> G a = hdr s a"
    and new: "prefix_blocks G (last_off 0 0 xs) (blk_total xs) bs"
    and tot: "blk_total bs = blk_total as" and ne: "bs \<noteq> []" "as \<noteq> []"
    and s': "hdr s' = relink (blk_total xs + blk_total as) (last_off 0 (blk_total xs) bs) G
       \<or> hdr s' = G \<and> last_off 0 (blk_total xs) bs = last_off 0 (blk_total xs) as"
    and ram: "ram s' = ram s"
  shows "heap_rep s' (xs @ bs @ ys)"
proof -
  let ?o = "blk_total xs" and ?e = "blk_total xs + blk_total as"
  let ?q = "last_off 0 ?o bs"
  have pre: "prefix_blocks (hdr s) 0 0 xs"
    and tl: "prefix_blocks (hdr s) (last_off 0 ?o as) ?e ys"
    and endb: "?e + blk_total ys = MEM_SIZE_ALIGNED"
    using rep ne(2) last_off_in [of as "last_off 0 0 xs" ?o 0]
    by (auto simp: heap_rep_def blocks_def prefix_blocks_append ac_simps)
  have xs: "prefix_blocks G 0 0 xs"
    using prefix_blocks_cong [OF _ pre, of G] agree by auto
  have ys: "prefix_blocks G (last_off 0 ?o as) ?e ys"
    using prefix_blocks_cong [OF _ tl, of G] agree by auto
  have *: "prefix_blocks (hdr s') 0 0 xs \<and> prefix_blocks (hdr s') (last_off 0 0 xs) ?o bs
      \<and> prefix_blocks (hdr s') ?q ?e ys \<and> hdr s' ram_end = hdr s ram_end"
  proof (cases "hdr s' = G \<and> ?q = last_off 0 ?o as")
    case True
    then show ?thesis using xs ys new agree [of ram_end] endb by simp
  next
    case False
    with s' have h: "hdr s' = relink ?e ?q G" by blast
    have "blocks (relink ?e ?q G) ?q ?e ys"
      by (rule blocks_relink) (use ys endb in \<open>simp add: blocks_def\<close>)
    then have "prefix_blocks (relink ?e ?q G) ?q ?e ys" by (simp add: blocks_def)
    moreover have "relink ?e ?q G ram_end = hdr s ram_end"
      using agree [of ram_end] endb by (auto simp: relink_def)
    ultimately show ?thesis using xs new tot h by (simp add: prefix_blocks_relink)
  qed
  then show ?thesis
    using rep ram endb tot ne last_off_in [of bs "last_off 0 0 xs" ?o 0]
    by (auto simp: heap_rep_def blocks_def prefix_blocks_append ac_simps)
qed

lemma heap_rep_at:
  assumes "heap_rep s (xs @ (n, u) # ys)"
  shows "m_next (hdr s (blk_total xs)) = blk_total xs + n"
    and "m_prev (hdr s (blk_total xs)) = last_off 0 0 xs"
    and "m_used (hdr s (blk_total xs)) = u" and "24 \<le> n" and "4 dvd n"
    and "blk_total xs + n \<le> MEM_SIZE_ALIGNED"
  using assms by (auto simp: heap_rep_def blocks_def prefix_blocks_append)

lemma heap_rep_end:
  assumes "heap_rep s (xs @ ys)"
  shows "blk_total xs = MEM_SIZE_ALIGNED \<longleftrightarrow> ys = []"
  using assms prefix_blocks_pos [of "hdr s" "last_off 0 0 xs" "blk_total xs" ys]
  by (cases "ys = []") (auto simp: heap_rep_def blocks_def prefix_blocks_append)

section \<open>Releasing a block\<close>

lemmas setter_defs = set_next_def set_prev_def set_used_def stats_dec_used_def stats_inc_used_def
  stats_inc_illegal_def stats_inc_err_def

lemma heap_rep_cong:
  "hdr s' = hdr s \<Longrightarrow> ram s' = ram s \<Longrightarrow> heap_rep s' bs = heap_rep s bs"
  by (simp add: heap_rep_def)

text \<open>Joining with the next block.\<close>

lemma plug_next_merge:
  assumes rep: "heap_rep s (xs @ (n, False) # (m, False) # ys)"
  defines "off \<equiv> blk_total xs"
  shows "heap_rep (plug_next off s) (xs @ (n + m, False) # ys)"
    and "lfree (plug_next off s) = (if lfree s = off + n then off else lfree s)"
    and "mem_stats (plug_next off s) = mem_stats s"
proof -
  note b1 = heap_rep_at [OF rep, folded off_def]
  have rep': "heap_rep s ((xs @ [(n, False)]) @ (m, False) # ys)" using rep by simp
  note b2 = heap_rep_at [OF rep']
  have e: "blk_total (xs @ [(n, False)]) = off + n" by (simp add: off_def)
  have nend: "off + n \<noteq> ram_end" using heap_rep_end [OF rep'] e by simp
  let ?H = "(hdr s)(off := (hdr s off)\<lparr>m_next := off + n + m\<rparr>)"
  have h: "hdr (plug_next off s) = relink (off + n + m) off ?H"
    and r: "ram (plug_next off s) = ram s"
    using b1 b2 e nend
    by (auto simp: plug_next_def Let_def setter_defs relink_def)
  have "heap_rep (plug_next off s) (xs @ [(n + m, False)] @ ys)"
    by (rule heap_rep_replace [where as = "[(n, False), (m, False)]" and G = ?H and s = s])
      (use rep b1 b2 e h r in \<open>auto simp: ac_simps off_def\<close>)
  then show "heap_rep (plug_next off s) (xs @ (n + m, False) # ys)" by simp
  show "lfree (plug_next off s) = (if lfree s = off + n then off else lfree s)"
    and "mem_stats (plug_next off s) = mem_stats s"
    using b1 b2 e nend by (auto simp: plug_next_def Let_def setter_defs)
qed

lemma plug_next_skip:
  assumes "heap_rep s (xs @ (n, u) # ys)" and "ys \<noteq> [] \<Longrightarrow> snd (hd ys)"
  shows "plug_next (blk_total xs) s = s"
proof (cases ys)
  case Nil
  then show ?thesis
    using heap_rep_at [OF assms(1)] assms(1)
    by (auto simp: plug_next_def Let_def heap_rep_def blocks_def)
next
  case (Cons y ys')
  obtain k where y: "y = (k, True)" using assms(2) Cons by (cases y) auto
  have "heap_rep s ((xs @ [(n, u)]) @ (k, True) # ys')" using assms(1) Cons y by simp
  from heap_rep_at [OF this] show ?thesis
    using heap_rep_at [OF assms(1)] by (simp add: plug_next_def Let_def)
qed

text \<open>Joining with the previous block.\<close>

lemma plug_prev_merge:
  assumes rep: "heap_rep s (xs @ (k, False) # (n, False) # ys)"
  defines "off \<equiv> blk_total xs + k"
  shows "heap_rep (plug_prev off s) (xs @ (k + n, False) # ys)"
    and "lfree (plug_prev off s) = (if lfree s = off then blk_total xs else lfree s)"
    and "mem_stats (plug_prev off s) = mem_stats s"
proof -
  note b1 = heap_rep_at [OF rep]
  have rep': "heap_rep s ((xs @ [(k, False)]) @ (n, False) # ys)" using rep by simp
  note b2 = heap_rep_at [OF rep', simplified, folded off_def]
  let ?p = "blk_total xs"
  let ?H = "(hdr s)(?p := (hdr s ?p)\<lparr>m_next := off + n\<rparr>)"
  have ne: "?p \<noteq> off" using b1(4) off_def by simp
  have h: "hdr (plug_prev off s) = relink (off + n) ?p ?H"
    and r: "ram (plug_prev off s) = ram s"
    using b1 b2 ne by (auto simp: plug_prev_def Let_def setter_defs relink_def)
  have "heap_rep (plug_prev off s) (xs @ [(k + n, False)] @ ys)"
    by (rule heap_rep_replace [where as = "[(k, False), (n, False)]" and G = ?H and s = s])
      (use rep b1 b2 h r in \<open>auto simp: ac_simps off_def\<close>)
  then show "heap_rep (plug_prev off s) (xs @ (k + n, False) # ys)" by simp
  show "lfree (plug_prev off s) = (if lfree s = off then blk_total xs else lfree s)"
    and "mem_stats (plug_prev off s) = mem_stats s"
    using b1 b2 ne by (auto simp: plug_prev_def Let_def setter_defs)
qed

lemma plug_prev_skip:
  assumes rep: "heap_rep s (xs @ (n, u) # ys)" and "xs \<noteq> [] \<Longrightarrow> snd (last xs)"
  shows "plug_prev (blk_total xs) s = s"
proof (cases xs rule: rev_cases)
  case Nil
  then show ?thesis using heap_rep_at [OF rep] by (simp add: plug_prev_def Let_def)
next
  case (snoc zs z)
  obtain k where z: "z = (k, True)" using assms(2) snoc by (cases z) auto
  have "heap_rep s (zs @ (k, True) # (n, u) # ys)" using rep snoc z by simp
  from heap_rep_at [OF this] show ?thesis
    using heap_rep_at [OF rep] snoc z by (simp add: plug_prev_def Let_def)
qed

text \<open>How the hint \<open>lfree\<close> moves when a block is released or two blocks are joined.\<close>

lemma lfree_ok_merge:
  assumes "lfree_ok l (zs @ (k, False) # (n, False) # ys)" and "0 < k"
  shows "lfree_ok l (zs @ (k + n, False) # ys)"
proof -
  have "l \<le> blk_total zs" using assms(1) by (auto simp: lfree_ok_def free_offs_append)
  moreover have "l \<notin> boundaries (blk_total zs + k + n) ys"
    using boundaries_bounds [of l "blk_total zs + k + n" ys] calculation assms(2) by auto
  ultimately show ?thesis
    using assms by (auto simp: lfree_ok_def boundaries_append free_offs_append ac_simps)
qed

lemma lfree_ok_release:
  assumes "lfree_ok l (xs @ (n, True) # ys)"
  shows "lfree_ok (min l (blk_total xs)) (xs @ (n, False) # ys)"
proof (cases "l \<le> blk_total xs")
  case True
  with assms show ?thesis by (auto simp: lfree_ok_def boundaries_append free_offs_append min_def)
next
  case False
  then have "\<forall>f \<in> free_offs 0 (xs @ (n, True) # ys). blk_total xs \<le> f"
    using assms by (auto simp: lfree_ok_def)
  with False show ?thesis by (auto simp: lfree_ok_def boundaries_append free_offs_append min_def)
qed

text \<open>What releasing a block does to the sequence: it absorbs its free neighbours.\<close>

definition abs_join :: "blk list \<Rightarrow> nat \<Rightarrow> blk list \<Rightarrow> blk list" where
  "abs_join xs n ys =
     (let (n', ys') = (case ys of (m, False) # ys' \<Rightarrow> (n + m, ys') | _ \<Rightarrow> (n, ys)) in
      if xs \<noteq> [] \<and> \<not> snd (last xs) then butlast xs @ (fst (last xs) + n', False) # ys'
      else xs @ (n', False) # ys')"

lemma plug_holes_rep:
  assumes rep: "heap_rep s (xs @ (n, False) # ys)" and l: "lfree_ok (lfree s) (xs @ (n, False) # ys)"
  defines "s' \<equiv> plug_holes (blk_total xs) s"
  shows "heap_rep s' (abs_join xs n ys)" and "lfree_ok (lfree s') (abs_join xs n ys)"
    and "lfree s' = lfree s" and "mem_stats s' = mem_stats s"
proof -
  have lo: "lfree s \<le> blk_total xs" using l by (auto simp: lfree_ok_def free_offs_append)
  have n0: "24 \<le> n" using heap_rep_at(4) [OF rep] .
  define n' where "n' = fst (case ys of (m, False) # ys' \<Rightarrow> (n + m, ys') | _ \<Rightarrow> (n, ys))"
  define ys' where "ys' = snd (case ys of (m, False) # ys' \<Rightarrow> (n + m, ys') | _ \<Rightarrow> (n, ys))"
  define s1 where "s1 = plug_next (blk_total xs) s"
  have one: "heap_rep s1 (xs @ (n', False) # ys') \<and> lfree_ok (lfree s) (xs @ (n', False) # ys')
     \<and> lfree s1 = lfree s \<and> mem_stats s1 = mem_stats s"
  proof (cases "ys \<noteq> [] \<and> \<not> snd (hd ys)")
    case True
    then obtain m zs where ys: "ys = (m, False) # zs" by (cases ys) auto
    show ?thesis
      using plug_next_merge [of s xs n m zs] rep l lo n0 lfree_ok_merge [of "lfree s" xs n m zs]
      by (auto simp: ys n'_def ys'_def s1_def)
  next
    case False
    then have "n' = n" "ys' = ys" by (auto simp: n'_def ys'_def split: list.split bool.splits)
    then show ?thesis using plug_next_skip [OF rep] rep l False by (auto simp: s1_def)
  qed
  have j: "abs_join xs n ys = (if xs \<noteq> [] \<and> \<not> snd (last xs)
      then butlast xs @ (fst (last xs) + n', False) # ys' else xs @ (n', False) # ys')"
    by (simp add: abs_join_def n'_def ys'_def split: prod.split)
  have s': "s' = plug_prev (blk_total xs) s1" by (simp add: s'_def plug_holes_def s1_def)
  have "heap_rep s' (abs_join xs n ys) \<and> lfree_ok (lfree s') (abs_join xs n ys)
     \<and> lfree s' = lfree s \<and> mem_stats s' = mem_stats s"
  proof (cases "xs \<noteq> [] \<and> \<not> snd (last xs)")
    case True
    then obtain zs k where xs: "xs = zs @ [(k, False)]" by (cases xs rule: rev_cases) auto
    have k: "24 \<le> k" using rep xs by (auto dest: heap_rep_at(4))
    have "lfree s \<le> blk_total zs" using one xs by (auto simp: lfree_ok_def free_offs_append)
    moreover have "abs_join xs n ys = zs @ (k + n', False) # ys'" using j xs by simp
    ultimately show ?thesis
      using plug_prev_merge [of s1 zs k n' ys'] lfree_ok_merge [of "lfree s" zs k n' ys'] one k
      by (auto simp: s' xs)
  next
    case False
    then show ?thesis using plug_prev_skip [of s1 xs n' False ys'] one by (auto simp: s' j)
  qed
  then show "heap_rep s' (abs_join xs n ys)" "lfree_ok (lfree s') (abs_join xs n ys)"
    "lfree s' = lfree s" "mem_stats s' = mem_stats s" by auto
qed

lemma no_adjacent_free_join:
  assumes "no_adjacent_free (xs @ (n, True) # ys)"
  shows "no_adjacent_free (abs_join xs n ys)"
proof -
  have a: "no_adjacent_free xs" "no_adjacent_free ys"
    using assms by (auto simp: no_adjacent_free_append) (cases ys; simp)
  show ?thesis
    using a
    by (cases xs rule: rev_cases; cases ys rule: no_adjacent_free.cases)
      (auto simp: abs_join_def no_adjacent_free_append split: bool.splits prod.splits list.splits)
qed

lemma used_bytes_join: "used_bytes (abs_join xs n ys) = used_bytes xs + used_bytes ys"
  by (cases xs rule: rev_cases; cases ys)
    (auto simp: abs_join_def split: bool.splits prod.splits)

lemma blk_total_join: "blk_total (abs_join xs n ys) = blk_total (xs @ (n, b) # ys)"
  by (cases xs rule: rev_cases; cases ys)
    (auto simp: abs_join_def split: bool.splits prod.splits)

lemma prefix_blocks_dvd: "prefix_blocks H pv off zs \<Longrightarrow> 4 dvd blk_total zs"
  by (induction H pv off zs rule: prefix_blocks.induct) auto

lemma heap_rep_dvd: "heap_rep s (xs @ ys) \<Longrightarrow> 4 dvd blk_total xs"
  using prefix_blocks_dvd [of "hdr s" 0 0 xs]
  by (auto simp: heap_rep_def blocks_def prefix_blocks_append)

text \<open>A block's user pointer, and the test that \<open>mem_free\<close> makes on it.\<close>

definition user_ptr :: "mem_heap \<Rightarrow> nat \<Rightarrow> addr" where
  "user_ptr s off = ram s + off + SIZEOF_STRUCT_MEM"

lemma mem_link_valid_block:
  assumes rep: "heap_rep s (xs @ (n, u) # ys)"
  shows "mem_link_valid (blk_total xs) s"
proof -
  note b = heap_rep_at [OF rep]
  have nx: "ys \<noteq> [] \<Longrightarrow> m_prev (hdr s (blk_total xs + n)) = blk_total xs"
  proof -
    assume "ys \<noteq> []"
    then obtain k v zs where "ys = (k, v) # zs" by (cases ys) auto
    then have "heap_rep s ((xs @ [(n, u)]) @ (k, v) # zs)" using rep by simp
    from heap_rep_at(2) [OF this] show ?thesis by simp
  qed
  have pv: "last_off 0 0 xs = blk_total xs \<or> m_next (hdr s (last_off 0 0 xs)) = blk_total xs"
    and lo: "last_off 0 0 xs \<le> blk_total xs"
  proof -
    show "last_off 0 0 xs = blk_total xs \<or> m_next (hdr s (last_off 0 0 xs)) = blk_total xs"
    proof (cases xs rule: rev_cases)
      case (snoc zs z)
      then have "heap_rep s (zs @ (fst z, snd z) # (n, u) # ys)" using rep by simp
      from heap_rep_at(1) [OF this] show ?thesis using snoc by simp
    qed simp
    show "last_off 0 0 xs \<le> blk_total xs" by (cases xs rule: rev_cases) auto
  qed
  have "ys = [] \<Longrightarrow> blk_total xs + n = ram_end"
    using rep by (simp add: heap_rep_def blocks_def)
  then show ?thesis
    using b nx pv lo by (cases "ys = []") (auto simp: mem_link_valid_def Let_def)
qed

lemma set_used_rep:
  assumes rep: "heap_rep s (xs @ (n, u) # ys)"
  shows "heap_rep (set_used (blk_total xs) v s) (xs @ (n, v) # ys)"
proof -
  have "heap_rep (set_used (blk_total xs) v s) (xs @ [(n, v)] @ ys)"
    by (rule heap_rep_replace [where as = "[(n, u)]" and s = s
          and G = "(hdr s)(blk_total xs := (hdr s (blk_total xs))\<lparr>m_used := v\<rparr>)"])
      (use rep heap_rep_at [OF rep] in \<open>auto simp: set_used_def\<close>)
  then show ?thesis by simp
qed

lemma used_bytes_less: "heap_rep s bs \<Longrightarrow> used_bytes bs < 2 ^ 32"
  using used_bytes_le_blk_total [of bs] by (simp add: heap_rep_def blocks_def MEM_SIZE_ALIGNED_val)

text \<open>
  Releasing a used block: \<open>mem_free\<close> accepts the pointer, and the block sequence is the
  old one with the block freed and joined to its free neighbours.
\<close>

lemma mem_free_refines:
  assumes inv: "heap_inv s (xs @ (n, True) # ys)"
  defines "s' \<equiv> mem_free (user_ptr s (blk_total xs)) s"
  shows "heap_inv s' (abs_join xs n ys)"
    and "lfree s' = min (lfree s) (blk_total xs)" and "mem_free_count s'" and "ram s' = ram s"
proof -
  let ?o = "blk_total xs"
  have rep: "heap_rep s (xs @ (n, True) # ys)" using inv by (simp add: heap_inv_def)
  note b = heap_rep_at [OF rep]
  have o4: "4 dvd ?o" by (rule heap_rep_dvd [OF rep])
  have r: "0 < ram s" "4 dvd ram s" "ram s + ram_end < 2 ^ 32" using rep by (auto simp: heap_rep_def)
  define s1 where "s1 = set_used ?o False s"
  define s2 where "s2 = (if ?o < lfree s1 then s1\<lparr>lfree := ?o\<rparr> else s1)"
  define s3 where "s3 = stats_dec_used (sub32 (m_next (hdr s2 ?o)) ?o) s2"
  have h3: "hdr s3 = hdr s1" "ram s3 = ram s" "lfree s3 = min (lfree s) ?o"
    by (auto simp: s3_def s2_def s1_def setter_defs min_def)
  have s': "s' = (plug_holes ?o s3)\<lparr>mem_free_count := True\<rparr>"
    using r o4 b mem_link_valid_block [OF rep]
    by (auto simp: s'_def mem_free_def user_ptr_def MEM_ALIGNMENT_def Let_def s1_def s2_def s3_def
        dvd_eq_mod_eq_0 [symmetric])
  have rep3: "heap_rep s3 (xs @ (n, False) # ys)"
    using set_used_rep [OF rep, of False] heap_rep_cong [of s3 s1] h3 by (simp add: s1_def setter_defs)
  have l3: "lfree_ok (lfree s3) (xs @ (n, False) # ys)"
    using lfree_ok_release inv h3 by (simp add: heap_inv_def)
  have sub: "sub32 (m_next (hdr s2 ?o)) ?o = n"
    using b r by (simp add: s2_def s1_def setter_defs sub32_le)
  have "unat (st_used (mem_stats s3)) = used_bytes xs + used_bytes ys"
  proof -
    have "st_used (mem_stats s3) = st_used (mem_stats s2) - of_nat n"
      by (simp add: s3_def sub stats_dec_used_def)
    moreover have "st_used (mem_stats s2) = st_used (mem_stats s)"
      by (simp add: s2_def s1_def setter_defs)
    moreover have u: "unat (st_used (mem_stats s)) = used_bytes xs + n + used_bytes ys"
      using inv by (simp add: heap_inv_def)
    moreover have "unat (of_nat n :: u32) = n"
      using b(6) r by (simp add: unat_of_nat_id)
    ultimately show ?thesis by (simp add: unat_sub_le word_le_nat_alt)
  qed
  then show "heap_inv s' (abs_join xs n ys)"
    using plug_holes_rep [OF rep3 l3] no_adjacent_free_join [of xs n ys] inv s'
      heap_rep_cong [of s' "plug_holes ?o s3"]
    by (simp add: heap_inv_def used_bytes_join)
  show "lfree s' = min (lfree s) ?o" using plug_holes_rep(3) [OF rep3 l3] h3 s' by simp
  show "mem_free_count s'" by (simp add: s')
  show "ram s' = ram s"
    using h3(2) by (simp add: s' plug_holes_def plug_prev_def plug_next_def Let_def setter_defs)
qed

section \<open>Interference: frees by other contexts\<close>

text \<open>
  While an allocation adjusts \<open>lfree\<close>, the hint may still point to the block \<open>m\<close> just
  taken; otherwise it is the first free block. Frees by other contexts keep this.
\<close>

definition heap_ok_or :: "nat \<Rightarrow> mem_heap \<Rightarrow> blk list \<Rightarrow> bool" where
  "heap_ok_or m s bs \<longleftrightarrow>
     heap_inv s bs \<and> (lfree s = m \<or> lfree s = ram_end \<or> lfree s \<in> free_offs 0 bs)"

lemma heap_ok_or_end: "heap_ok s bs \<longleftrightarrow> heap_ok_or ram_end s bs"
  by (auto simp: heap_ok_def heap_ok_or_def)

lemma used_offs_bounds: "(o', n) \<in> used_offs off bs \<Longrightarrow> off \<le> o' \<and> o' + n \<le> off + blk_total bs"
  by (induction bs arbitrary: off) (fastforce split: if_splits)+

lemma free_blks_bounds: "(o', n) \<in> free_blks off bs \<Longrightarrow> off \<le> o' \<and> o' + n \<le> off + blk_total bs"
  by (induction bs arbitrary: off) (fastforce split: if_splits)+

lemma used_offs_split:
  "(o', n) \<in> used_offs off bs \<Longrightarrow> \<exists>xs ys. bs = xs @ (n, True) # ys \<and> o' = off + blk_total xs"
proof (induction bs arbitrary: off)
  case Nil
  then show ?case by simp
next
  case (Cons b bs)
  show ?case
  proof (cases "snd b \<and> o' = off \<and> n = fst b")
    case True
    then show ?thesis by (intro exI [of _ "[]"] exI [of _ bs]) (cases b; simp)
  next
    case False
    then have "(o', n) \<in> used_offs (off + fst b) bs" using Cons.prems by (auto split: if_splits)
    from Cons.IH [OF this] obtain xs ys where "bs = xs @ (n, True) # ys"
      "o' = off + fst b + blk_total xs" by auto
    then show ?thesis by (intro exI [of _ "b # xs"] exI [of _ ys]) simp
  qed
qed

lemma free_blks_split:
  "(o', n) \<in> free_blks off bs \<Longrightarrow> \<exists>xs ys. bs = xs @ (n, False) # ys \<and> o' = off + blk_total xs"
proof (induction bs arbitrary: off)
  case Nil
  then show ?case by simp
next
  case (Cons b bs)
  show ?case
  proof (cases "\<not> snd b \<and> o' = off \<and> n = fst b")
    case True
    then show ?thesis by (intro exI [of _ "[]"] exI [of _ bs]) (cases b; simp)
  next
    case False
    then have "(o', n) \<in> free_blks (off + fst b) bs" using Cons.prems by (auto split: if_splits)
    from Cons.IH [OF this] obtain xs ys where "bs = xs @ (n, False) # ys"
      "o' = off + fst b + blk_total xs" by auto
    then show ?thesis by (intro exI [of _ "b # xs"] exI [of _ ys]) simp
  qed
qed

lemma used_offs_join:
  assumes "prefix_blocks H pv off (xs @ (n, True) # ys)"
  shows "used_offs off (abs_join xs n ys) = used_offs off (xs @ (n, True) # ys) - {(off + blk_total xs, n)}"
proof -
  have n: "24 \<le> n" using assms by (auto simp: prefix_blocks_append)
  have 1: "(off + blk_total xs, n) \<notin> used_offs off xs"
    using used_offs_bounds [of "off + blk_total xs" n off xs] n by auto
  have 2: "(off + blk_total xs, n) \<notin> used_offs (off + blk_total xs + n) ys"
    using used_offs_bounds [of "off + blk_total xs" n "off + blk_total xs + n" ys] n by auto
  have "used_offs off (abs_join xs n ys) = used_offs off xs \<union> used_offs (off + blk_total xs + n) ys"
    by (cases xs rule: rev_cases; cases ys)
      (auto simp: abs_join_def used_offs_append ac_simps split: bool.splits prod.splits)
  then show ?thesis using 1 2 by (auto simp: used_offs_append)
qed

lemma lfree_first_join:
  assumes l: "lfree_ok l (xs @ (n, True) # ys)" and n: "0 < n"
    and "l = m \<or> l = ram_end \<or> l \<in> free_offs 0 (xs @ (n, True) # ys)"
    and e: "blk_total xs < ram_end"
  defines "l' \<equiv> min l (blk_total xs)"
  shows "l' = m \<or> l' = ram_end \<or> l' \<in> free_offs 0 (abs_join xs n ys)"
proof (cases "blk_total xs < l")
  case True
  have "\<not> (xs \<noteq> [] \<and> \<not> snd (last xs))"
  proof
    assume "xs \<noteq> [] \<and> \<not> snd (last xs)"
    then obtain zs k where "xs = zs @ [(k, False)]" by (cases xs rule: rev_cases) auto
    then have "l \<le> blk_total zs" "blk_total xs = blk_total zs + k"
      using l by (auto simp: lfree_ok_def free_offs_append)
    then show False using True by simp
  qed
  then have "blk_total xs \<in> free_offs 0 (abs_join xs n ys)"
    by (auto simp: abs_join_def free_offs_append split: prod.split)
  then show ?thesis using True by (simp add: l'_def min_def)
next
  case False
  then have l': "l' = l" by (simp add: l'_def)
  show ?thesis
  proof (cases "l \<in> free_offs 0 (xs @ (n, True) # ys)")
    case True
    have "l \<notin> free_offs (blk_total xs + n) ys"
      using free_offs_bounds [of l "blk_total xs + n" ys] False n by auto
    then have "l \<in> free_offs 0 xs" using True by (auto simp: free_offs_append)
    then have "l \<in> free_offs 0 (abs_join xs n ys)"
      by (cases xs rule: rev_cases)
        (auto simp: abs_join_def free_offs_append split: prod.splits if_splits)
    then show ?thesis by (simp add: l')
  next
    case False
    then show ?thesis using assms(3) l' e \<open>\<not> blk_total xs < l\<close> by auto
  qed
qed

text \<open>The pointers of the used blocks, which a context may free.\<close>

definition used_ptrs :: "mem_heap \<Rightarrow> blk list \<Rightarrow> addr set" where
  "used_ptrs s bs = (\<lambda>(o', n). user_ptr s o') ` used_offs 0 bs"

text \<open>The used blocks left when those with the user pointers \<open>P\<close> are taken away.\<close>

definition without :: "mem_heap \<Rightarrow> addr set \<Rightarrow> (nat \<times> nat) set \<Rightarrow> (nat \<times> nat) set" where
  "without s P B = {(o', n) \<in> B. user_ptr s o' \<notin> P}"

lemma without_simps [simp]:
  "without s {} B = B" "without s P (without s Q B) = without s (P \<union> Q) B"
  by (auto simp: without_def)

lemma without_subset: "without s P B \<subseteq> B"
  by (auto simp: without_def)

lemma without_ram: "ram s = ram s' \<Longrightarrow> without s P B = without s' P B"
  by (simp add: without_def user_ptr_def)

lemma used_offs_unique:
  "(o', n) \<in> used_offs off bs \<Longrightarrow> (o', k) \<in> used_offs off bs \<Longrightarrow> \<forall>b \<in> set bs. 0 < fst b \<Longrightarrow> n = k"
proof (induction bs arbitrary: off)
  case Nil
  then show ?case by simp
next
  case (Cons b bs)
  have lo: "(x, y) \<in> used_offs (off + fst b) bs \<Longrightarrow> off < x" for x y
    using used_offs_bounds [of x y "off + fst b" bs] Cons.prems(3) by auto
  show ?case
  proof (cases "o' = off")
    case True
    then show ?thesis using Cons.prems lo [of o' n] lo [of o' k] by (auto split: if_splits)
  next
    case False
    then show ?thesis using Cons.prems Cons.IH [of "off + fst b"] by (auto split: if_splits)
  qed
qed

lemma prefix_blocks_all_pos: "prefix_blocks H pv off bs \<Longrightarrow> \<forall>b \<in> set bs. 24 \<le> fst b"
  by (induction H pv off bs rule: prefix_blocks.induct) auto

lemma heap_inv_all_pos: "heap_inv s bs \<Longrightarrow> \<forall>b \<in> set bs. 24 \<le> fst b"
  by (auto simp: heap_inv_def heap_rep_def blocks_def dest: prefix_blocks_all_pos)

lemma mem_free_step:
  assumes inv: "heap_ok_or m s bs" and p: "p \<in> used_ptrs s bs"
  shows "\<exists>bs'. heap_ok_or m (mem_free p s) bs' \<and> used_offs 0 bs' = without s {p} (used_offs 0 bs)
     \<and> mem_free_count (mem_free p s) \<and> ram (mem_free p s) = ram s"
proof -
  obtain o' n where o': "(o', n) \<in> used_offs 0 bs" "p = user_ptr s o'"
    using p by (auto simp: used_ptrs_def)
  obtain xs ys where bs: "bs = xs @ (n, True) # ys" "o' = blk_total xs"
    using used_offs_split [OF o'(1)] by auto
  have hi: "heap_inv s (xs @ (n, True) # ys)" using inv bs by (simp add: heap_ok_or_def)
  have pb: "prefix_blocks (hdr s) 0 0 (xs @ (n, True) # ys)" and n: "24 \<le> n"
    and e: "blk_total xs < ram_end" and l: "lfree_ok (lfree s) (xs @ (n, True) # ys)"
    using hi by (auto simp: heap_inv_def heap_rep_def blocks_def prefix_blocks_append)
  note f = mem_free_refines [OF hi, folded bs(2), folded o'(2)]
  have "lfree (mem_free p s) = m \<or> lfree (mem_free p s) = ram_end
      \<or> lfree (mem_free p s) \<in> free_offs 0 (abs_join xs n ys)"
    using lfree_first_join [OF l _ _ e, of m] n f(2) inv bs by (auto simp: heap_ok_or_def)
  then have "heap_ok_or m (mem_free p s) (abs_join xs n ys)"
    using f(1) by (simp add: heap_ok_or_def)
  moreover have "used_offs 0 (abs_join xs n ys) = without s {p} (used_offs 0 bs)"
  proof -
    have "(o', k) \<in> used_offs 0 bs \<Longrightarrow> k = n" for k
      using used_offs_unique [OF _ o'(1), of k] heap_inv_all_pos [OF hi] bs(1) by force
    then show ?thesis
      using used_offs_join [OF pb] bs o' by (auto simp: without_def user_ptr_def)
  qed
  ultimately show ?thesis using f by auto
qed

lemma used_ptrs_without:
  assumes "used_offs 0 bs' = without s P (used_offs 0 bs)" and "ram s' = ram s"
  shows "used_ptrs s' bs' = used_ptrs s bs - P"
  using assms by (auto simp: used_ptrs_def without_def user_ptr_def)

lemma fold_mem_free:
  assumes "heap_ok_or m s bs" and "distinct ps" and "set ps \<subseteq> used_ptrs s bs"
  shows "\<exists>bs'. heap_ok_or m (fold mem_free ps s) bs'
     \<and> used_offs 0 bs' = without s (set ps) (used_offs 0 bs)
     \<and> (ps \<noteq> [] \<longrightarrow> mem_free_count (fold mem_free ps s)) \<and> ram (fold mem_free ps s) = ram s"
  using assms
proof (induction ps arbitrary: s bs)
  case Nil
  then show ?case by (auto simp: without_def)
next
  case (Cons p ps)
  obtain b1 where b1: "heap_ok_or m (mem_free p s) b1"
    "used_offs 0 b1 = without s {p} (used_offs 0 bs)"
    "mem_free_count (mem_free p s)" "ram (mem_free p s) = ram s"
    using mem_free_step [OF Cons.prems(1), of p] Cons.prems(3) by auto
  have sub: "set ps \<subseteq> used_ptrs (mem_free p s) b1"
    using used_ptrs_without [OF b1(2,4)] Cons.prems(2,3) by auto
  from Cons.IH [OF b1(1) _ sub] Cons.prems(2) obtain b2 where b2:
    "heap_ok_or m (fold mem_free ps (mem_free p s)) b2"
    "used_offs 0 b2 = without (mem_free p s) (set ps) (used_offs 0 b1)"
    "ps \<noteq> [] \<longrightarrow> mem_free_count (fold mem_free ps (mem_free p s))"
    "ram (fold mem_free ps (mem_free p s)) = ram (mem_free p s)" by auto
  have "used_offs 0 b2 = without s (set (p # ps)) (used_offs 0 bs)"
    using b2(2) b1(2,4) by (auto simp: without_def user_ptr_def)
  then show ?case using b2 b1 by (cases "ps = []") auto
qed

text \<open>
  A script is legal for a heap when the pointers it frees are distinct and belong to used
  blocks. One window keeps that.
\<close>

definition script_ok :: "mem_heap \<Rightarrow> blk list \<Rightarrow> addr list list \<Rightarrow> bool" where
  "script_ok s bs script \<longleftrightarrow> distinct (concat script) \<and> set (concat script) \<subseteq> used_ptrs s bs"

lemma window_step:
  assumes inv: "heap_ok_or m s bs" and sc: "script_ok s bs script" and w: "window script s = (s', script')"
  shows "\<exists>bs'. heap_ok_or m s' bs' \<and> script_ok s' bs' script' \<and> ram s' = ram s
     \<and> used_offs 0 bs' = without s (set (concat script) - set (concat script')) (used_offs 0 bs)
     \<and> set (concat script') \<subseteq> set (concat script)
     \<and> (\<not> mem_free_count s' \<longrightarrow> bs' = bs \<and> s' = s\<lparr>mem_free_count := False\<rparr>)
     \<and> (mem_free_count s' \<longrightarrow> length script' < length script)
     \<and> length script' = length script - 1"
proof -
  let ?s = "s\<lparr>mem_free_count := False\<rparr>"
  have 0: "heap_ok_or m ?s bs" using inv by (simp add: heap_ok_or_def heap_inv_def heap_rep_def)
  have up: "used_ptrs ?s bs = used_ptrs s bs" by (simp add: used_ptrs_def user_ptr_def)
  have wo: "without ?s P B = without s P B" for P B by (rule without_ram) simp
  show ?thesis
  proof (cases script)
    case Nil
    then show ?thesis using 0 w sc by (auto simp: window_def script_ok_def)
  next
    case (Cons ps rest)
    then have s': "s' = fold mem_free ps ?s" "script' = rest" using w by (auto simp: window_def)
    have sc': "distinct ps" "distinct (concat rest)" "set ps \<inter> set (concat rest) = {}"
      "set ps \<subseteq> used_ptrs ?s bs" "set (concat rest) \<subseteq> used_ptrs ?s bs"
      using sc Cons up by (auto simp: script_ok_def)
    obtain bs' where bs': "heap_ok_or m s' bs'" "used_offs 0 bs' = without ?s (set ps) (used_offs 0 bs)"
      "ps \<noteq> [] \<longrightarrow> mem_free_count s'" "ram s' = ram s"
      using fold_mem_free [OF 0 sc'(1,4)] s' by auto
    have "script_ok s' bs' script'"
      using used_ptrs_without [OF bs'(2), of s'] bs'(4) sc' s' by (auto simp: script_ok_def)
    moreover have "set (concat script) - set (concat script') = set ps"
      using Cons s' sc'(3) by auto
    moreover have "\<not> mem_free_count s' \<Longrightarrow> ps = []" using bs'(3) by auto
    moreover have "ps = [] \<Longrightarrow> script_ok s' bs rest \<and> s' = ?s"
      using sc' s' by (auto simp: script_ok_def)
    ultimately show ?thesis
      using bs' 0 wo s' Cons
      by (cases "ps = []") (auto intro!: exI [of _ "if ps = [] then bs else bs'"])
  qed
qed

section \<open>Allocating\<close>

text \<open>Taking \<open>sz\<close> bytes from a free block of size \<open>n\<close>: split it when the rest is worth a block.\<close>

definition abs_take :: "nat \<Rightarrow> nat \<Rightarrow> blk list" where
  "abs_take n sz = (if sz + 24 \<le> n - 12 then [(12 + sz, True), (n - 12 - sz, False)] else [(n, True)])"

lemma block_room:
  assumes "heap_rep s (xs @ (n, u) # ys)"
  shows "sub32 (m_next (hdr s (blk_total xs))) (blk_total xs + 12) = n - 12"
    and "sub32 (m_next (hdr s (blk_total xs))) (blk_total xs) = n"
proof -
  have "ram_end < 2 ^ 32" using assms by (simp add: heap_rep_def)
  then show "sub32 (m_next (hdr s (blk_total xs))) (blk_total xs + 12) = n - 12"
    and "sub32 (m_next (hdr s (blk_total xs))) (blk_total xs) = n"
    using heap_rep_at [OF assms] by (simp_all add: sub32_le)
qed

lemma take_block_rep:
  assumes rep: "heap_rep s (xs @ (n, False) # ys)" and sz: "sz \<le> n - 12" "4 dvd sz" "12 \<le> sz"
  shows "heap_rep (take_block (blk_total xs) sz s) (xs @ abs_take n sz @ ys)"
proof (cases "sz + 24 \<le> n - 12")
  case False
  let ?s = "set_used (blk_total xs) True s"
  have "heap_rep ?s (xs @ (n, True) # ys)" by (rule set_used_rep [OF rep])
  moreover have "hdr (take_block (blk_total xs) sz s) = hdr ?s"
    "ram (take_block (blk_total xs) sz s) = ram ?s"
    using False by (auto simp: take_block_def block_room [OF rep] Let_def setter_defs)
  ultimately show ?thesis using False heap_rep_cong [of "take_block (blk_total xs) sz s" ?s] by (simp add: abs_take_def)
next
  case True
  let ?o = "blk_total xs" and ?s' = "take_block (blk_total xs) sz s"
  let ?p2 = "?o + 12 + sz"
  note b = heap_rep_at [OF rep]
  let ?G = "(hdr s)(?p2 := (hdr s ?p2)\<lparr>m_used := False, m_next := ?o + n, m_prev := ?o\<rparr>,
                    ?o := (hdr s ?o)\<lparr>m_next := ?p2, m_used := True\<rparr>)"
  have ne: "?p2 \<noteq> ?o + n" "?p2 \<noteq> ?o" "?o + n \<noteq> ?o" using True by simp_all
  have r: "ram ?s' = ram s" by (simp add: take_block_def Let_def setter_defs)
  have h: "hdr ?s' = relink (?o + n) ?p2 ?G"
    using True ne
    by (simp add: take_block_def block_room [OF rep, unfolded b(1)] b(1) Let_def setter_defs relink_def)
  show ?thesis
    by (rule heap_rep_replace [where as = "[(n, False)]" and G = ?G and s = s])
      (use rep b h r True sz in \<open>auto simp: abs_take_def add.assoc\<close>)
qed

lemma take_block_frame:
  "lfree (take_block p sz s) = lfree s" "ram (take_block p sz s) = ram s"
  by (auto simp: take_block_def Let_def setter_defs)

lemma take_block_used:
  assumes "heap_rep s (xs @ (n, False) # ys)" and "sz + 12 \<le> n"
  shows "st_used (mem_stats (take_block (blk_total xs) sz s)) =
      st_used (mem_stats s) + of_nat (used_bytes (abs_take n sz))"
  using block_room [OF assms(1)]
  by (auto simp: take_block_def Let_def setter_defs abs_take_def add.commute)

lemma take_block_inv:
  assumes inv: "heap_inv s (xs @ (n, False) # ys)" and sz: "sz + 12 \<le> n" "4 dvd sz" "12 \<le> sz"
  shows "heap_inv (take_block (blk_total xs) sz s) (xs @ abs_take n sz @ ys)"
proof -
  let ?s' = "take_block (blk_total xs) sz s" and ?bs = "xs @ abs_take n sz @ ys"
  have rep: "heap_rep s (xs @ (n, False) # ys)" using inv by (simp add: heap_inv_def)
  have rep': "heap_rep ?s' ?bs" using take_block_rep [OF rep] sz by simp
  have u: "unat (st_used (mem_stats s)) = used_bytes xs + used_bytes ys"
    using inv by (simp add: heap_inv_def)
  have lt: "used_bytes ?bs < 2 ^ 32" by (rule used_bytes_less [OF rep'])
  have c: "unat (of_nat (used_bytes (abs_take n sz)) :: u32) = used_bytes (abs_take n sz)"
    using lt by (simp add: unat_of_nat_id)
  have "unat (st_used (mem_stats ?s')) = used_bytes ?bs"
    using lt u c take_block_used [OF rep sz(1)] by (simp add: unat_add_no_wrap)
  moreover have "lfree_ok (lfree ?s') ?bs"
    using inv sz
    by (auto simp: heap_inv_def lfree_ok_def take_block_frame abs_take_def boundaries_append
        free_offs_append ac_simps)
  moreover have "no_adjacent_free ?bs"
    using inv by (cases ys) (auto simp: heap_inv_def abs_take_def no_adjacent_free_append)
  ultimately show ?thesis using rep' by (simp add: heap_inv_def)
qed

lemma used_offs_take:
  assumes "sz + 12 \<le> n"
  shows "\<exists>k. 12 + sz \<le> k \<and> k \<le> n \<and> used_offs 0 (xs @ abs_take n sz @ ys)
     = insert (blk_total xs, k) (used_offs 0 (xs @ (n, False) # ys))"
  using assms by (cases "sz + 24 \<le> n - 12") (auto simp: abs_take_def used_offs_append ac_simps)

text \<open>Where a boundary splits the block sequence.\<close>

lemma boundaries_split:
  "b \<in> boundaries off bs \<Longrightarrow> \<exists>xs ys. bs = xs @ ys \<and> b = off + blk_total xs"
proof (induction bs arbitrary: off)
  case Nil
  then show ?case by simp
next
  case (Cons c bs)
  show ?case
  proof (cases "b = off")
    case True
    then show ?thesis by (intro exI [of _ "[]"] exI [of _ "c # bs"]) simp
  next
    case False
    then have "b \<in> boundaries (off + fst c) bs" using Cons.prems by simp
    from Cons.IH [OF this] obtain xs ys where "bs = xs @ ys" "b = off + fst c + blk_total xs" by auto
    then show ?thesis by (intro exI [of _ "c # xs"] exI [of _ ys]) simp
  qed
qed

lemma boundary_block:
  assumes inv: "heap_inv s bs" and b: "b \<in> boundaries 0 bs" "b \<noteq> ram_end"
  obtains xs n ys where "bs = xs @ (n, m_used (hdr s b)) # ys" and "b = blk_total xs"
    and "m_next (hdr s b) = b + n" and "24 \<le> n" and "b + n \<le> ram_end"
    and "m_next (hdr s b) \<in> boundaries 0 bs"
proof -
  obtain xs zs where z: "bs = xs @ zs" "b = blk_total xs" using boundaries_split [OF b(1)] by auto
  have rep: "heap_rep s (xs @ zs)" using inv z by (simp add: heap_inv_def)
  then have "zs \<noteq> []" using heap_rep_end [OF rep] b(2) z(2) by simp
  then obtain n u ys where "zs = (n, u) # ys" by (cases zs) auto
  then have bs: "bs = xs @ (n, u) # ys" using z by simp
  note at = heap_rep_at [of s xs n u ys, folded z(2)]
  have rep': "heap_rep s (xs @ (n, u) # ys)" using rep \<open>zs = _\<close> by simp
  have "b + n \<in> boundaries 0 bs" by (simp add: bs z(2) boundaries_append)
  then show ?thesis using that [of xs n ys] bs at [OF rep'] z(2) by auto
qed

lemma heap_ok_or_weaken: "heap_ok_or m s bs \<Longrightarrow> heap_inv s bs"
  by (simp add: heap_ok_or_def)

text \<open>
  The search for the new \<open>lfree\<close> ends, whatever the other contexts free, and leaves the
  hint at the first free block.
\<close>

definition search_measure :: "addr list list \<Rightarrow> nat \<Rightarrow> nat" where
  "search_measure script cur = length script * Suc ram_end + (ram_end - cur)"

lemma search_measure_restart:
  "length script' < length script \<Longrightarrow> search_measure script' c < search_measure script d"
proof -
  assume "length script' < length script"
  then have "Suc (length script') * Suc ram_end \<le> length script * Suc ram_end"
    by (intro mult_le_mono1) simp
  then show ?thesis by (simp add: search_measure_def)
qed

lemma search_measure_advance:
  "length script' = length script - 1 \<Longrightarrow> c < d \<Longrightarrow> d \<le> ram_end \<Longrightarrow>
     search_measure script' d < search_measure script c"
  by (cases "script = []") (simp_all add: search_measure_restart, simp add: search_measure_def)

lemma free_offs_blks: "free_offs off bs = fst ` free_blks off bs"
  by (induction bs arbitrary: off) auto

lemma free_offs_unused: "heap_rep s bs \<Longrightarrow> f \<in> free_offs 0 bs \<Longrightarrow> \<not> m_used (hdr s f)"
  using free_blks_split [of f _ 0 bs] heap_rep_at(3) by (fastforce simp: free_offs_blks)

text \<open>Past a used block, the next free one is not before its end.\<close>

lemma free_offs_past_used:
  assumes rep: "heap_rep s (xs @ (n, True) # ys)" and f: "f \<in> free_offs 0 (xs @ (n, True) # ys)"
    and le: "blk_total xs \<le> f"
  shows "blk_total xs + n \<le> f"
proof -
  have "f \<noteq> blk_total xs" using free_offs_unused [OF rep f] heap_rep_at(3) [OF rep] by auto
  then have "f \<notin> free_offs 0 xs" using free_offs_bounds [of f 0 xs] le by auto
  then have "f \<in> free_offs (blk_total xs + n) ys" using f by (simp add: free_offs_append)
  then show ?thesis using free_offs_bounds by blast
qed

lemma adjust_lfree_loop_ok:
  assumes "heap_ok_or mem s bs" and "script_ok s bs script" and "lfree s = mem"
    and "cur \<in> boundaries 0 bs" and "\<forall>f \<in> free_offs 0 bs. cur \<le> f"
  shows "\<exists>s' bs'. adjust_lfree_loop script mem cur s = Some s' \<and> heap_ok s' bs' \<and> ram s' = ram s
     \<and> used_offs 0 bs' \<subseteq> used_offs 0 bs
     \<and> without s (set (concat script)) (used_offs 0 bs) \<subseteq> used_offs 0 bs'"
  using assms
proof (induction "search_measure script cur" arbitrary: script cur s bs rule: less_induct)
  case less
  have inv: "heap_inv s bs" using less.prems(1) by (rule heap_ok_or_weaken)
  show ?case
  proof (cases "m_used (hdr s cur) \<and> cur \<noteq> ram_end")
    case False
    have "cur = ram_end \<or> cur \<in> free_offs 0 bs"
    proof (cases "cur = ram_end")
      case nend: False
      then have nu: "\<not> m_used (hdr s cur)" using False by simp
      obtain xs n ys where "bs = xs @ (n, m_used (hdr s cur)) # ys" "cur = blk_total xs"
        by (rule boundary_block [OF inv less.prems(4) nend])
      then show ?thesis using nu by (auto simp: free_offs_append)
    qed simp
    then have "heap_ok (s\<lparr>lfree := cur\<rparr>) bs"
      using inv less.prems(4,5) by (simp add: heap_ok_def heap_inv_def heap_rep_def lfree_ok_def)
    then show ?thesis
      using False by (auto simp: adjust_lfree_loop.simps [of script] intro: without_subset [THEN subsetD])
  next
    case True
    obtain s1 sc1 where w: "window script s = (s1, sc1)" by (cases "window script s")
    obtain b1 where b1: "heap_ok_or mem s1 b1" "script_ok s1 b1 sc1" "ram s1 = ram s"
      "used_offs 0 b1 = without s (set (concat script) - set (concat sc1)) (used_offs 0 bs)"
      "set (concat sc1) \<subseteq> set (concat script)"
      "\<not> mem_free_count s1 \<longrightarrow> b1 = bs \<and> s1 = s\<lparr>mem_free_count := False\<rparr>"
      "mem_free_count s1 \<longrightarrow> length sc1 < length script" "length sc1 = length script - 1"
      using window_step [OF less.prems(1,2) w] by blast
    have sub: "used_offs 0 b1 \<subseteq> used_offs 0 bs" using b1(4) without_subset by simp
    have step: "without s (set (concat script)) (used_offs 0 bs) \<subseteq> without s1 (set (concat sc1)) (used_offs 0 b1)"
      using b1(3,4,5) by (auto simp: without_def user_ptr_def)
    have IH: "\<exists>s' bs'. adjust_lfree_loop sc1 mem c s1 = Some s' \<and> heap_ok s' bs' \<and> ram s' = ram s
       \<and> used_offs 0 bs' \<subseteq> used_offs 0 bs
       \<and> without s (set (concat script)) (used_offs 0 bs) \<subseteq> used_offs 0 bs'"
      if c: "search_measure sc1 c < search_measure script cur" "lfree s1 = mem"
        "c \<in> boundaries 0 b1" "\<forall>f \<in> free_offs 0 b1. c \<le> f" for c
      using less.hyps [OF c(1) b1(1,2) c(2,3,4)] b1(3) sub step by fastforce
    show ?thesis
    proof (cases "mem_free_count s1")
      case fc: True
      show ?thesis
      proof (cases "mem = lfree s1")
        case True
        have l: "lfree s1 \<in> boundaries 0 b1" "\<forall>f \<in> free_offs 0 b1. lfree s1 \<le> f"
          using b1(1) by (simp_all add: heap_ok_or_def heap_inv_def lfree_ok_def)
        have "adjust_lfree_loop script mem cur s = adjust_lfree_loop sc1 mem (lfree s1) s1"
          using fc True w \<open>m_used (hdr s cur) \<and> _\<close> by (simp add: adjust_lfree_loop.simps [of script])
        then show ?thesis
          using IH [OF search_measure_restart [OF mp [OF b1(7) fc]] True [symmetric] l] by simp
      next
        case False
        then have "heap_ok s1 b1" using b1(1) by (auto simp: heap_ok_or_def heap_ok_def)
        moreover have "without s (set (concat script)) (used_offs 0 bs) \<subseteq> used_offs 0 b1"
          using step without_subset by blast
        ultimately show ?thesis
          using fc False w sub b1(3) \<open>m_used (hdr s cur) \<and> _\<close>
          by (auto simp: adjust_lfree_loop.simps [of script])
      qed
    next
      case nfc: False
      then have s1: "b1 = bs" "s1 = s\<lparr>mem_free_count := False\<rparr>" using b1(6) by auto
      obtain xs n ys where blk: "bs = xs @ (n, m_used (hdr s cur)) # ys" "cur = blk_total xs"
        "m_next (hdr s cur) = cur + n" "24 \<le> n" "cur + n \<le> ram_end" "m_next (hdr s cur) \<in> boundaries 0 bs"
        using boundary_block [OF inv less.prems(4)] True by blast
      have nx: "\<forall>f \<in> free_offs 0 bs. cur + n \<le> f"
        using free_offs_past_used [of s xs n ys] less.prems(5) blk True inv
        by (auto simp: heap_inv_def)
      have "search_measure sc1 (cur + n) < search_measure script cur"
        using search_measure_advance [OF b1(8), of cur "cur + n"] blk by simp
      then show ?thesis
        using IH [of "cur + n"] s1 less.prems(3) blk nx w nfc True
        by (simp add: adjust_lfree_loop.simps [of script])
    qed
  qed
qed

text \<open>
  What an allocation of \<open>sz\<close> bytes achieves while other contexts free the pointers of the
  script: either a block large enough that was not in use, the other used blocks being the
  old ones less some that were freed; or \<open>NULL\<close>, and then no free block is large enough.
\<close>

definition malloc_post ::
  "mem_heap \<Rightarrow> blk list \<Rightarrow> addr set \<Rightarrow> nat \<Rightarrow> addr \<Rightarrow> mem_heap \<Rightarrow> blk list \<Rightarrow> bool" where
  "malloc_post s bs P sz p s' bs' \<longleftrightarrow> heap_ok s' bs' \<and> ram s' = ram s \<and>
     (if p = NULL then
        used_offs 0 bs' \<subseteq> used_offs 0 bs \<and> without s P (used_offs 0 bs) \<subseteq> used_offs 0 bs'
        \<and> (\<forall>(o', n) \<in> free_blks 0 bs'. n < 12 + sz)
      else \<exists>off n R. p = user_ptr s off \<and> 12 + sz \<le> n \<and> used_offs 0 bs' = insert (off, n) R
        \<and> (off, n) \<notin> R \<and> R \<subseteq> used_offs 0 bs \<and> without s P (used_offs 0 bs) \<subseteq> R)"

lemma malloc_post_trans:
  assumes "malloc_post s1 b1 P1 sz p s' bs'" and "ram s1 = ram s"
    and "used_offs 0 b1 \<subseteq> used_offs 0 bs"
    and "without s P (used_offs 0 bs) \<subseteq> without s1 P1 (used_offs 0 b1)"
  shows "malloc_post s bs P sz p s' bs'"
proof (cases "p = NULL")
  case True
  then show ?thesis using assms unfolding malloc_post_def by auto
next
  case False
  then obtain off n R where "p = user_ptr s1 off" "12 + sz \<le> n" "used_offs 0 bs' = insert (off, n) R"
    "(off, n) \<notin> R" "R \<subseteq> used_offs 0 b1" "without s1 P1 (used_offs 0 b1) \<subseteq> R"
    using assms(1) by (auto simp: malloc_post_def)
  then have "p = user_ptr s off \<and> 12 + sz \<le> n \<and> used_offs 0 bs' = insert (off, n) R
      \<and> (off, n) \<notin> R \<and> R \<subseteq> used_offs 0 bs \<and> without s P (used_offs 0 bs) \<subseteq> R"
    using assms(2-4) by (auto simp: user_ptr_def)
  then show ?thesis using assms(1,2) False unfolding malloc_post_def by auto
qed

lemma used_free_disjoint:
  assumes "heap_rep s bs" "(o', n) \<in> used_offs 0 bs" "(o', k) \<in> free_blks 0 bs"
  shows False
proof -
  obtain xs ys where "bs = xs @ (n, True) # ys" "o' = blk_total xs"
    using used_offs_split [OF assms(2)] by auto
  then have "m_used (hdr s o')" using assms(1) heap_rep_at(3) [of s xs n True ys] by simp
  moreover have "o' \<in> free_offs 0 bs" using assms(3) by (force simp: free_offs_blks)
  ultimately show False using free_offs_unused [OF assms(1)] by blast
qed

lemma take_block_post:
  assumes ok: "heap_ok s bs" and sc: "script_ok s bs script"
    and bs: "bs = xs @ (n, False) # ys" and sz: "sz + 12 \<le> n" "4 dvd sz" "12 \<le> sz"
  shows "\<exists>s' bs'. adjust_lfree script (blk_total xs) (take_block (blk_total xs) sz s) = Some s'
     \<and> malloc_post s bs (set (concat script)) sz (ram s' + blk_total xs + SIZEOF_STRUCT_MEM) s' bs'"
proof -
  let ?o = "blk_total xs" and ?s1 = "take_block (blk_total xs) sz s" and ?b1 = "xs @ abs_take n sz @ ys"
  have inv: "heap_inv s (xs @ (n, False) # ys)" using ok bs by (simp add: heap_ok_def)
  have inv1: "heap_inv ?s1 ?b1" by (rule take_block_inv [OF inv sz])
  obtain k where k: "12 + sz \<le> k" "used_offs 0 ?b1 = insert (?o, k) (used_offs 0 bs)"
    using used_offs_take [OF sz(1), of xs ys] bs by blast
  have fr: "(?o, n) \<in> free_blks 0 bs" by (simp add: bs free_blks_append)
  have rep: "heap_rep s bs" using inv bs by (simp add: heap_inv_def)
  have new: "(?o, j) \<notin> used_offs 0 bs" for j using used_free_disjoint [OF rep _ fr] by blast
  have sc1: "script_ok ?s1 ?b1 script"
    using sc k(2) by (auto simp: script_ok_def used_ptrs_def user_ptr_def take_block_frame)
  have "user_ptr s ?o \<notin> used_ptrs s bs" using new by (auto simp: used_ptrs_def user_ptr_def)
  then have up: "user_ptr s ?o \<notin> set (concat script)" using sc by (auto simp: script_ok_def)
  have ram1: "ram ?s1 = ram s" by (simp add: take_block_frame)
  have fin: "malloc_post s bs (set (concat script)) sz (ram s' + ?o + SIZEOF_STRUCT_MEM) s' bs'"
    if s': "heap_ok s' bs'" "ram s' = ram s" "used_offs 0 bs' \<subseteq> used_offs 0 ?b1"
      "without ?s1 (set (concat script)) (used_offs 0 ?b1) \<subseteq> used_offs 0 bs'" for s' bs'
  proof -
    have "(?o, k) \<in> used_offs 0 bs'" and "without s (set (concat script)) (used_offs 0 bs) \<subseteq> used_offs 0 bs'"
      using s'(4) k(2) up ram1 by (auto simp: without_def user_ptr_def)
    moreover have "0 < ram s" using rep by (simp add: heap_rep_def)
    ultimately show ?thesis
      using s' k new
      by (auto simp: malloc_post_def user_ptr_def without_def
          intro!: exI [of _ ?o] exI [of _ k] exI [of _ "used_offs 0 bs' - {(?o, k)}"])
  qed
  show ?thesis
  proof (cases "?o = lfree s")
    case True
    have l: "lfree ?s1 \<in> boundaries 0 ?b1" "\<forall>f \<in> free_offs 0 ?b1. lfree ?s1 \<le> f"
      using inv1 by (simp_all add: heap_inv_def lfree_ok_def)
    have "heap_ok_or ?o ?s1 ?b1" using inv1 True by (simp add: heap_ok_or_def take_block_frame)
    from adjust_lfree_loop_ok [OF this sc1 _ l] obtain s' bs' where
      "adjust_lfree_loop script ?o (lfree ?s1) ?s1 = Some s'" "heap_ok s' bs'" "ram s' = ram ?s1"
      "used_offs 0 bs' \<subseteq> used_offs 0 ?b1"
      "without ?s1 (set (concat script)) (used_offs 0 ?b1) \<subseteq> used_offs 0 bs'"
      using True by (auto simp: take_block_frame)
    then show ?thesis using True fin [of s' bs'] ram1 by (auto simp: adjust_lfree_def take_block_frame)
  next
    case False
    have "lfree s \<noteq> ram_end \<Longrightarrow> lfree s \<in> free_offs 0 bs" using ok by (auto simp: heap_ok_def)
    then have "heap_ok ?s1 ?b1"
      using inv1 False bs by (auto simp: heap_ok_def take_block_frame free_offs_append abs_take_def ac_simps)
    then show ?thesis
      using False fin [of ?s1 ?b1] ram1 without_subset [of ?s1] by (auto simp: adjust_lfree_def take_block_frame)
  qed
qed

lemma mem_malloc_loop_ok:
  assumes "heap_ok s bs" and "script_ok s bs script" and "ptr \<in> boundaries 0 bs"
    and "\<forall>(o', n) \<in> free_blks 0 bs. o' < ptr \<longrightarrow> n < 12 + sz"
    and "4 dvd sz" "12 \<le> sz" "sz \<le> MEM_SIZE_ALIGNED"
  shows "\<exists>p s' bs'. mem_malloc_loop script sz ptr s = Some (p, s')
     \<and> malloc_post s bs (set (concat script)) sz p s' bs'"
  using assms(1-4)
proof (induction "search_measure script ptr" arbitrary: script ptr s bs rule: less_induct)
  case less
  have inv: "heap_inv s bs" using less.prems(1) by (simp add: heap_ok_def)
  show ?case
  proof (cases "ptr < MEM_SIZE_ALIGNED - sz")
    case False
    have "n < 12 + sz" if "(o', n) \<in> free_blks 0 bs" for o' n
    proof (cases "o' < ptr")
      case True
      then show ?thesis using less.prems(4) that by auto
    next
      case nlt: False
      have "o' + n \<le> MEM_SIZE_ALIGNED"
        using free_blks_bounds [OF that] inv by (simp add: heap_inv_def heap_rep_def blocks_def)
      then show ?thesis using nlt False by simp
    qed
    then have "malloc_post s bs (set (concat script)) sz NULL (stats_inc_err s) bs"
      using less.prems(1) without_subset
      by (auto simp: malloc_post_def heap_ok_def heap_inv_def heap_rep_def stats_inc_err_def)
    then show ?thesis using False by (auto simp: mem_malloc_loop.simps [of script])
  next
    case True
    obtain s1 sc1 where w: "window script s = (s1, sc1)" by (cases "window script s")
    obtain b1 where b1: "heap_ok s1 b1" "script_ok s1 b1 sc1" "ram s1 = ram s"
      "used_offs 0 b1 = without s (set (concat script) - set (concat sc1)) (used_offs 0 bs)"
      "set (concat sc1) \<subseteq> set (concat script)"
      "\<not> mem_free_count s1 \<longrightarrow> b1 = bs \<and> s1 = s\<lparr>mem_free_count := False\<rparr>"
      "mem_free_count s1 \<longrightarrow> length sc1 < length script" "length sc1 = length script - 1"
      using window_step [OF less.prems(1) [unfolded heap_ok_or_end] less.prems(2) w]
      unfolding heap_ok_or_end by blast
    have sub: "used_offs 0 b1 \<subseteq> used_offs 0 bs" using b1(4) without_subset by simp
    have step: "without s (set (concat script)) (used_offs 0 bs) \<subseteq> without s1 (set (concat sc1)) (used_offs 0 b1)"
      using b1(3,4,5) by (auto simp: without_def user_ptr_def)
    note trans = malloc_post_trans [OF _ b1(3) sub step]
    show ?thesis
    proof (cases "mem_free_count s1")
      case fc: True
      have l: "lfree s1 \<in> boundaries 0 b1" "\<forall>(o', n) \<in> free_blks 0 b1. o' < lfree s1 \<longrightarrow> n < 12 + sz"
        using b1(1) by (force simp: heap_ok_def heap_inv_def lfree_ok_def free_offs_blks)+
      have eq: "mem_malloc_loop script sz ptr s = mem_malloc_loop sc1 sz (lfree s1) s1"
        using True fc w by (simp add: mem_malloc_loop.simps [of script])
      show ?thesis
        using less.hyps [OF search_measure_restart [OF mp [OF b1(7) fc]] b1(1,2) l] trans
        unfolding eq by blast
    next
      case nfc: False
      then have s1: "b1 = bs" "s1 = s\<lparr>mem_free_count := False\<rparr>" using b1(6) by auto
      have nend: "ptr \<noteq> ram_end" using True by simp
      obtain xs n ys where blk: "bs = xs @ (n, m_used (hdr s ptr)) # ys" "ptr = blk_total xs"
        "m_next (hdr s ptr) = ptr + n" "24 \<le> n" "ptr + n \<le> ram_end" "m_next (hdr s ptr) \<in> boundaries 0 bs"
        by (rule boundary_block [OF inv less.prems(3) nend])
      have room: "sub32 (m_next (hdr s ptr)) (ptr + 12) = n - 12"
        using block_room(1) [of s xs n "m_used (hdr s ptr)" ys] inv blk(1,2) by (simp add: heap_inv_def)
      show ?thesis
      proof (cases "\<not> m_used (hdr s ptr) \<and> sz \<le> n - 12")
        case fit: True
        have big: "sz + 12 \<le> n" using fit blk(4) by arith
        obtain s' bs' where "adjust_lfree sc1 ptr (take_block ptr sz s1) = Some s'"
          "malloc_post s1 b1 (set (concat sc1)) sz (ram s' + ptr + SIZEOF_STRUCT_MEM) s' bs'"
          using take_block_post [OF b1(1,2), of xs n ys sz] blk s1 assms(5,6) fit big by auto
        note post = this
        have "mem_malloc_loop script sz ptr s = Some (ram s' + ptr + SIZEOF_STRUCT_MEM, s')"
          using True nfc w fit room post(1) s1 by (simp add: mem_malloc_loop.simps [of script])
        then show ?thesis using trans [OF post(2)] by blast
      next
        case nofit: False
        have eq: "mem_malloc_loop script sz ptr s = mem_malloc_loop sc1 sz (ptr + n) s1"
          using True nfc w nofit room s1 blk(3) by (auto simp: mem_malloc_loop.simps [of script])
        have small: "\<forall>(o', k) \<in> free_blks 0 b1. o' < ptr + n \<longrightarrow> k < 12 + sz"
        proof (safe)
          fix o' k assume a: "(o', k) \<in> free_blks 0 b1" "o' < ptr + n"
          show "k < 12 + sz"
          proof (cases "o' < ptr")
            case True
            then show ?thesis using less.prems(4) a s1 by auto
          next
            case False
            then have "(o', k) = (ptr, n) \<and> \<not> m_used (hdr s ptr)"
              using a s1 blk free_blks_bounds [of o' k 0 xs] free_blks_bounds [of o' k "ptr + n" ys]
                heap_inv_all_pos [OF inv] free_blks_split [of o' k 0 xs]
              by (fastforce simp: free_blks_append split: if_splits)
            then show ?thesis using nofit by auto
          qed
        qed
        have adv: "search_measure sc1 (ptr + n) < search_measure script ptr"
          by (rule search_measure_advance [OF b1(8)]) (use blk(4,5) in simp_all)
        have nb: "ptr + n \<in> boundaries 0 b1" using blk(3,6) s1(1) by simp
        show ?thesis
          using less.hyps [OF adv b1(1,2) nb small] trans unfolding eq by blast
      qed
    qed
  qed
qed

section \<open>Allocation\<close>

text \<open>The size that a request is rounded to.\<close>

definition request_size :: "nat \<Rightarrow> nat" where
  "request_size n = max MIN_SIZE_ALIGNED (LWIP_MEM_ALIGN_SIZE n)"

lemma request_size_props: "n \<le> request_size n" "12 \<le> request_size n" "4 dvd request_size n"
  using align_size_ge [of n] by (auto simp: request_size_def max_def)

lemma align32_request:
  assumes "n < 2 ^ 32"
  defines "sz \<equiv> (if LWIP_MEM_ALIGN_SIZE32 n < MIN_SIZE_ALIGNED then MIN_SIZE_ALIGNED
                 else LWIP_MEM_ALIGN_SIZE32 n)"
  shows "MEM_SIZE_ALIGNED < sz \<or> sz < n \<longleftrightarrow> MEM_SIZE_ALIGNED < request_size n"
    and "sz \<le> MEM_SIZE_ALIGNED \<Longrightarrow> n \<le> sz \<Longrightarrow> sz = request_size n"
proof -
  have big: "MEM_SIZE_ALIGNED < request_size n \<and> sz < n" if w: "2 ^ 32 \<le> n + 3"
  proof -
    have "LWIP_MEM_ALIGN_SIZE32 n \<le> n + 3 - 2 ^ 32"
      using w assms(1) by (simp add: LWIP_MEM_ALIGN_SIZE32_def MEM_ALIGNMENT_def mod_if)
    then show ?thesis using w assms(1) request_size_props(1) [of n] by (auto simp: sz_def MEM_SIZE_ALIGNED_val)
  qed
  have small: "sz = request_size n" if "n + 3 < 2 ^ 32"
    using align_size32_exact [OF that] by (auto simp: sz_def request_size_def)
  show "MEM_SIZE_ALIGNED < sz \<or> sz < n \<longleftrightarrow> MEM_SIZE_ALIGNED < request_size n"
    using big small request_size_props(1) [of n] by (cases "n + 3 < 2 ^ 32") auto
  show "sz \<le> MEM_SIZE_ALIGNED \<Longrightarrow> n \<le> sz \<Longrightarrow> sz = request_size n"
    using big small by (cases "n + 3 < 2 ^ 32") auto
qed

lemma mem_malloc_eq:
  assumes "n < 2 ^ 32"
  shows "mem_malloc script n s =
    (if n = 0 \<or> MEM_SIZE_ALIGNED < request_size n then Some (NULL, s)
     else mem_malloc_loop script (request_size n) (lfree s) s)"
  using align32_request [OF assms] by (auto simp: mem_malloc_def Let_def)

lemma mem_malloc_post:
  assumes ok: "heap_ok s bs" and sc: "script_ok s bs script"
    and n: "0 < n" "n < 2 ^ 32" "request_size n \<le> MEM_SIZE_ALIGNED"
  shows "\<exists>p s' bs'. mem_malloc script n s = Some (p, s')
     \<and> malloc_post s bs (set (concat script)) (request_size n) p s' bs'"
proof -
  have l: "lfree s \<in> boundaries 0 bs"
    "\<forall>(o', k) \<in> free_blks 0 bs. o' < lfree s \<longrightarrow> k < 12 + request_size n"
    using ok by (force simp: heap_ok_def heap_inv_def lfree_ok_def free_offs_blks)+
  show ?thesis
    using mem_malloc_loop_ok [OF ok sc l request_size_props(3,2) n(3)] n
    by (simp add: mem_malloc_eq)
qed

text \<open>Used blocks do not overlap, and lie inside the heap.\<close>

lemma used_offs_disjoint:
  "(a, m) \<in> used_offs off bs \<Longrightarrow> (b, n) \<in> used_offs off bs \<Longrightarrow> (a, m) \<noteq> (b, n) \<Longrightarrow>
     a + m \<le> b \<or> b + n \<le> a"
proof (induction bs arbitrary: off)
  case Nil
  then show ?case by simp
next
  case (Cons c bs)
  have lo: "(x, y) \<in> used_offs (off + fst c) bs \<Longrightarrow> off + fst c \<le> x" for x y
    using used_offs_bounds [of x y "off + fst c" bs] by simp
  from Cons.prems show ?case
    using Cons.IH [of "off + fst c"] lo [of a m] lo [of b n] by (auto split: if_splits)
qed

lemma used_block_place:
  assumes "heap_rep s bs" and "(off, n) \<in> used_offs 0 bs"
  shows "4 dvd user_ptr s off" and "ram s + 12 \<le> user_ptr s off"
    and "user_ptr s off + (n - 12) \<le> ram s + ram_end" and "24 \<le> n"
proof -
  obtain xs ys where bs: "bs = xs @ (n, True) # ys" "off = blk_total xs"
    using used_offs_split [OF assms(2)] by auto
  note b = heap_rep_at [OF assms(1) [unfolded bs(1)]]
  have "4 dvd blk_total xs" using heap_rep_dvd assms(1) bs(1) by blast
  then show "4 dvd user_ptr s off" using assms(1) bs(2) by (auto simp: user_ptr_def heap_rep_def)
  show "ram s + 12 \<le> user_ptr s off" "24 \<le> n" using b by (simp_all add: user_ptr_def)
  show "user_ptr s off + (n - 12) \<le> ram s + ram_end" using b bs(2) by (simp add: user_ptr_def)
qed

section \<open>Initialisation, release and invalid pointers\<close>

lemma mem_init_ok:
  assumes "0 < base" and "base + MEM_SIZE_ALIGNED + 3 < 2 ^ 32" and "st_used (mem_stats s) = 0"
  shows "heap_ok (mem_init base s) [(MEM_SIZE_ALIGNED, False)]"
proof -
  have "LWIP_MEM_ALIGN_SIZE base < base + 4" "base \<le> LWIP_MEM_ALIGN_SIZE base"
    by (rule align_size_lt, rule align_size_ge)
  then show ?thesis
    using assms
    by (simp add: heap_ok_def heap_inv_def heap_rep_def blocks_def lfree_ok_def mem_init_def Let_def
        setter_defs MEM_SIZE_ALIGNED_val)
qed

lemma mem_free_ok:
  assumes "heap_ok s bs" and "p \<in> used_ptrs s bs"
  shows "\<exists>bs'. heap_ok (mem_free p s) bs' \<and> used_offs 0 bs' = without s {p} (used_offs 0 bs)
     \<and> ram (mem_free p s) = ram s"
  using mem_free_step [OF assms(1) [unfolded heap_ok_or_end] assms(2)]
  unfolding heap_ok_or_end by blast

text \<open>
  Releasing a pointer that \<open>mem_free\<close> recognises as invalid: \<open>NULL\<close>, misaligned, outside the
  heap, or the start of a block that is not in use.
\<close>

lemma mem_free_illegal:
  assumes ok: "heap_ok s bs"
    and "p = NULL \<or> \<not> 4 dvd p \<or> p < ram s + 12 \<or> ram s + ram_end < p + 12
      \<or> p \<in> user_ptr s ` free_offs 0 bs"
  shows "heap_ok (mem_free p s) bs" and "hdr (mem_free p s) = hdr s"
proof -
  have "\<not> m_used (hdr s (p - 12 - ram s))" if "p \<in> user_ptr s ` free_offs 0 bs"
    using that ok free_offs_unused [of s bs] by (auto simp: user_ptr_def heap_ok_def heap_inv_def)
  then have eq: "mem_free p s = s \<or> mem_free p s = stats_inc_illegal s"
    using assms(2) by (auto simp: mem_free_def MEM_ALIGNMENT_def dvd_eq_mod_eq_0)
  then show "hdr (mem_free p s) = hdr s" by (auto simp: stats_inc_illegal_def)
  show "heap_ok (mem_free p s) bs"
    using eq ok by (auto simp: stats_inc_illegal_def heap_ok_def heap_inv_def heap_rep_def)
qed

section \<open>Trimming a block\<close>

text \<open>
  What \<open>mem_trim\<close> does to a block of size \<open>n\<close> followed by \<open>ys\<close>: the tail goes to the free
  block that follows, or becomes a free block when it can hold one, or stays.
\<close>

definition abs_trim :: "nat \<Rightarrow> nat \<Rightarrow> blk list \<Rightarrow> blk list" where
  "abs_trim n sz ys =
     (if sz = n - 12 then (n, True) # ys
      else case ys of
        (m, False) # ys' \<Rightarrow> (12 + sz, True) # (n - 12 - sz + m, False) # ys'
      | _ \<Rightarrow> if sz + 24 \<le> n - 12 then (12 + sz, True) # (n - 12 - sz, False) # ys else (n, True) # ys)"

text \<open>The two ways to cut a block: both write a header at \<open>ptr2\<close> and relink its successor.\<close>

lemma cut_block_rep:
  assumes rep: "heap_rep s (xs @ ((n, u) # as) @ ys)" and sz: "4 dvd sz" "12 \<le> sz"
    and fit: "sz + 24 \<le> n - 12 \<or> as \<noteq> [] \<and> sz + 12 < n" "\<forall>b \<in> set as. \<not> snd b" "length as \<le> 1"
    and h: "hdr s' = relink (blk_total xs + n + blk_total as) (blk_total xs + 12 + sz)
       ((hdr s)(blk_total xs + 12 + sz := \<lparr>m_next = blk_total xs + n + blk_total as,
                                       m_prev = blk_total xs, m_used = False\<rparr>,
                blk_total xs := (hdr s (blk_total xs))\<lparr>m_next := blk_total xs + 12 + sz\<rparr>))"
    and r: "ram s' = ram s"
  shows "heap_rep s' (xs @ [(12 + sz, u), (n + blk_total as - 12 - sz, False)] @ ys)"
proof -
  let ?o = "blk_total xs" and ?t = "blk_total as"
  have rep': "heap_rep s (xs @ (n, u) # (as @ ys))" using rep by simp
  note b = heap_rep_at [OF rep']
  have as: "as = [] \<or> (\<exists>m. as = [(m, False)] \<and> 24 \<le> m \<and> 4 dvd m)"
  proof (cases as)
    case (Cons a as')
    then obtain m where a: "as = [(m, False)]" using fit(2,3) by (cases a) auto
    then have "heap_rep s ((xs @ [(n, u)]) @ (m, False) # ys)" using rep by simp
    from heap_rep_at(4,5) [OF this] show ?thesis using a by simp
  qed simp
  have big: "24 \<le> n + ?t - 12 - sz" "4 dvd n + ?t - 12 - sz" "12 + sz + (n + ?t - 12 - sz) = n + ?t"
    using as fit(1) b(4,5) sz by (auto simp: dvd_diff_nat)
  show ?thesis
    by (rule heap_rep_replace [where as = "(n, u) # as" and s = s, OF rep _ _ _ _ _ disjI1])
      (use b big sz h r in \<open>auto simp: ac_simps\<close>)
qed

lemma lfree_ok_grow:
  assumes "lfree_ok l (xs @ (n, True) # (m, False) # ys)" and "12 + sz < n"
  defines "l' \<equiv> if l = blk_total xs + n then blk_total xs + 12 + sz else l"
  shows "lfree_ok l' (xs @ (12 + sz, True) # (n - 12 - sz + m, False) # ys)"
    and "l \<noteq> ram_end \<Longrightarrow> l \<in> free_offs 0 (xs @ (n, True) # (m, False) # ys) \<Longrightarrow>
      l' \<in> free_offs 0 (xs @ (12 + sz, True) # (n - 12 - sz + m, False) # ys)"
proof -
  have l: "l \<in> boundaries 0 xs \<or> l = blk_total xs + n" "l \<le> blk_total xs + n"
    "\<forall>f \<in> free_offs 0 xs. l \<le> f"
    using assms(1) boundaries_bounds [of l "blk_total xs + n + m" ys] start_in_boundaries(2) [of 0 xs]
    by (auto simp: lfree_ok_def boundaries_append free_offs_append ac_simps)
  have lx: "l \<in> boundaries 0 xs \<Longrightarrow> l \<le> blk_total xs" using boundaries_bounds [of l 0 xs] by simp
  have fx: "f \<in> free_offs 0 xs \<Longrightarrow> f \<le> blk_total xs" for f using free_offs_bounds [of f 0 xs] by simp
  have fy: "f \<in> free_offs (blk_total xs + (12 + sz + (n - 12 - sz + m))) ys \<Longrightarrow> blk_total xs + n \<le> f" for f
    using free_offs_bounds [of f "blk_total xs + (12 + sz + (n - 12 - sz + m))" ys] assms(2) by auto
  show "lfree_ok l' (xs @ (12 + sz, True) # (n - 12 - sz + m, False) # ys)"
    using l lx fx fy assms(2)
    by (fastforce simp: lfree_ok_def l'_def boundaries_append free_offs_append ac_simps)
  show "l' \<in> free_offs 0 (xs @ (12 + sz, True) # (n - 12 - sz + m, False) # ys)"
    if "l \<noteq> ram_end" "l \<in> free_offs 0 (xs @ (n, True) # (m, False) # ys)"
    using that l fx assms(2) free_offs_bounds [of l "blk_total xs + n + m" ys]
    by (auto simp: l'_def free_offs_append ac_simps)
qed

lemma lfree_ok_cut:
  assumes "lfree_ok l (xs @ (n, True) # ys)" and "12 + sz < n"
  defines "l' \<equiv> if blk_total xs + 12 + sz < l then blk_total xs + 12 + sz else l"
  shows "lfree_ok l' (xs @ (12 + sz, True) # (n - 12 - sz, False) # ys)"
    and "l = ram_end \<or> l \<in> free_offs 0 (xs @ (n, True) # ys) \<Longrightarrow> blk_total xs + n \<le> ram_end \<Longrightarrow>
      l' \<in> free_offs 0 (xs @ (12 + sz, True) # (n - 12 - sz, False) # ys)"
proof -
  have l: "l \<in> boundaries 0 xs \<or> l \<in> boundaries (blk_total xs + n) ys"
    "\<forall>f \<in> free_offs 0 xs. l \<le> f"
    using assms(1) start_in_boundaries(2) [of 0 xs]
    by (auto simp: lfree_ok_def boundaries_append free_offs_append)
  have ly: "l \<in> boundaries (blk_total xs + n) ys \<Longrightarrow> blk_total xs + n \<le> l"
    using boundaries_bounds [of l "blk_total xs + n" ys] by simp
  have lx: "l \<in> boundaries 0 xs \<Longrightarrow> l \<le> blk_total xs" using boundaries_bounds [of l 0 xs] by simp
  have fx: "f \<in> free_offs 0 xs \<Longrightarrow> f \<le> blk_total xs" for f using free_offs_bounds [of f 0 xs] by simp
  have fy: "f \<in> free_offs (blk_total xs + n) ys \<Longrightarrow> blk_total xs + n \<le> f" for f
    using free_offs_bounds [of f "blk_total xs + n" ys] by simp
  have e: "blk_total xs + (12 + sz + (n - 12 - sz)) = blk_total xs + n" using assms(2) by simp
  have mem: "l' \<in> boundaries 0 (xs @ (12 + sz, True) # (n - 12 - sz, False) # ys)"
    using l lx ly assms(2) e by (auto simp: l'_def boundaries_append add.assoc)
  have le: "l' \<le> f" if "f \<in> free_offs 0 (xs @ (12 + sz, True) # (n - 12 - sz, False) # ys)" for f
  proof -
    have "f \<in> free_offs 0 xs \<or> f = blk_total xs + 12 + sz \<or> f \<in> free_offs (blk_total xs + n) ys"
      using that e by (auto simp: free_offs_append add.assoc)
    then show ?thesis using l(2) fy [of f] assms(2) by (auto simp: l'_def)
  qed
  show "lfree_ok l' (xs @ (12 + sz, True) # (n - 12 - sz, False) # ys)"
    using mem le by (simp add: lfree_ok_def)
  show "l' \<in> free_offs 0 (xs @ (12 + sz, True) # (n - 12 - sz, False) # ys)"
    if "l = ram_end \<or> l \<in> free_offs 0 (xs @ (n, True) # ys)" "blk_total xs + n \<le> ram_end"
  proof (cases "blk_total xs + 12 + sz < l")
    case True
    then show ?thesis by (simp add: l'_def free_offs_append add.assoc)
  next
    case False
    then have "l \<in> free_offs 0 xs" using that fy [of l] assms(2) by (auto simp: free_offs_append)
    then show ?thesis using False by (simp add: l'_def free_offs_append)
  qed
qed

lemma no_adjacent_free_trim:
  "no_adjacent_free (xs @ (n, True) # ys) \<Longrightarrow> no_adjacent_free (xs @ abs_trim n sz ys)"
  by (cases ys rule: no_adjacent_free.cases)
    (auto simp: abs_trim_def no_adjacent_free_append split: bool.splits)

lemma used_bytes_trim:
  "sz + 12 \<le> n \<Longrightarrow> used_bytes (abs_trim n sz ys) \<le> n + used_bytes ys"
  by (auto simp: abs_trim_def split: list.splits bool.splits)

lemma used_offs_trim:
  assumes "sz + 12 \<le> n"
  shows "\<exists>k. 12 + sz \<le> k \<and> k \<le> n \<and> used_offs off (abs_trim n sz ys)
     = insert (off, k) (used_offs (off + n) ys)"
proof (cases "\<exists>m zs. ys = (m, False) # zs")
  case True
  then obtain m zs where "ys = (m, False) # zs" by blast
  then show ?thesis
    using assms by (intro exI [of _ "if sz = n - 12 then n else 12 + sz"]) (auto simp: abs_trim_def ac_simps)
next
  case False
  then show ?thesis
    using assms
    by (intro exI [of _ "if sz \<noteq> n - 12 \<and> sz + 24 \<le> n - 12 then 12 + sz else n"])
      (auto simp: abs_trim_def ac_simps split: list.splits bool.splits)
qed

text \<open>
  \<open>mem_trim\<close> of a used block to a size that fits: the pointer is returned unchanged and the
  block sequence is trimmed.
\<close>

lemma split_tail_eq:
  "ptr2 \<noteq> ptr \<Longrightarrow> split_tail ptr ptr2 nxt s =
     s\<lparr>hdr := relink nxt ptr2
         ((hdr s)(ptr2 := \<lparr>m_next = nxt, m_prev = ptr, m_used = False\<rparr>,
                  ptr := (hdr s ptr)\<lparr>m_next := ptr2\<rparr>))\<rparr>"
  by (cases "hdr s ptr2") (simp add: split_tail_def Let_def setter_defs relink_def)

lemma mem_trim_unfold:
  assumes rep: "heap_rep s (xs @ (n, True) # ys)" and new: "new_size < 2 ^ 32"
    and sz: "sz = request_size new_size" "sz + 12 \<le> n"
  defines "off \<equiv> blk_total xs"
  shows "mem_trim (user_ptr s off) new_size s =
    (if sz = n - 12 then (user_ptr s off, s)
     else
       (let mem2 = off + n; ptr2 = off + 12 + sz; nxt = m_next (hdr s (off + n)) in
        (user_ptr s off,
          (if \<not> m_used (hdr s mem2) then
             stats_dec_used (n - 12 - sz)
               (s\<lparr>lfree := (if lfree s = mem2 then ptr2 else lfree s),
                  hdr := relink nxt ptr2
                    ((hdr s)(ptr2 := \<lparr>m_next = nxt, m_prev = off, m_used = False\<rparr>,
                             off := (hdr s off)\<lparr>m_next := ptr2\<rparr>))\<rparr>)
           else if sz + 24 \<le> n - 12 then
             stats_dec_used (n - 12 - sz)
               (s\<lparr>lfree := (if ptr2 < lfree s then ptr2 else lfree s),
                  hdr := relink mem2 ptr2
                    ((hdr s)(ptr2 := \<lparr>m_next = mem2, m_prev = off, m_used = False\<rparr>,
                             off := (hdr s off)\<lparr>m_next := ptr2\<rparr>))\<rparr>)
           else s)\<lparr>mem_free_count := True\<rparr>)))"
proof -
  note b = heap_rep_at [OF rep, folded off_def]
  have r: "0 < ram s" "ram s + ram_end < 2 ^ 32" using rep by (auto simp: heap_rep_def)
  have fits: "request_size new_size \<le> MEM_SIZE_ALIGNED" using sz b(6) by simp
  have al: "(if LWIP_MEM_ALIGN_SIZE32 new_size < 12 then 12 else LWIP_MEM_ALIGN_SIZE32 new_size) = sz"
    and ok: "\<not> (MEM_SIZE_ALIGNED < sz \<or> sz < new_size)"
    using align32_request [OF new] fits sz(1) request_size_props(1) [of new_size] by auto
  have p: "sub32 (sub32 (user_ptr s off) 12) (ram s) = off"
    and inr: "\<not> (user_ptr s off < ram s \<or> ram s + ram_end \<le> user_ptr s off)"
    using r b(4,6) by (auto simp: user_ptr_def sub32_le)
  have room: "sub32 (sub32 (off + n) off) 12 = n - 12"
    using b(4,6) r by (simp add: sub32_le)
  have eq: "mem_trim (user_ptr s off) new_size s =
    (if sz = n - 12 then (user_ptr s off, s)
     else (user_ptr s off,
       (if \<not> m_used (hdr s (off + n)) then
          stats_dec_used (n - 12 - sz) (split_tail off (off + 12 + sz) (m_next (hdr s (off + n)))
            (if lfree s = off + n then s\<lparr>lfree := off + 12 + sz\<rparr> else s))
        else if sz + 24 \<le> n - 12 then
          stats_dec_used (n - 12 - sz) (split_tail off (off + 12 + sz) (off + n)
            (if off + 12 + sz < lfree s then s\<lparr>lfree := off + 12 + sz\<rparr> else s))
        else s)\<lparr>mem_free_count := True\<rparr>))"
    unfolding mem_trim_def Let_def SIZEOF_STRUCT_MEM_val MIN_SIZE_ALIGNED_val
    unfolding al p b(1) room if_not_P [OF ok] if_not_P [OF inr]
    using sz(2) b(1) by auto
  show ?thesis unfolding eq by (simp add: split_tail_eq Let_def)
qed

lemma stats_dec_used_simps [simp]:
  "hdr (stats_dec_used k s) = hdr s" "ram (stats_dec_used k s) = ram s"
  "lfree (stats_dec_used k s) = lfree s"
  "mem_stats (stats_dec_used k s) = (mem_stats s)\<lparr>st_used := st_used (mem_stats s) - of_nat k\<rparr>"
  by (simp_all add: stats_dec_used_def)

lemma unat_dec_used:
  assumes "unat (u :: u32) = used_bytes (xs @ (n, True) # ys)" and "heap_rep s (xs @ (n, True) # ys)"
    and "sz + 12 \<le> n"
  shows "unat (u - of_nat (n - 12 - sz)) = used_bytes xs + (12 + sz) + used_bytes ys"
proof -
  have "n - 12 - sz < 2 ^ 32" using used_bytes_less [OF assms(2)] by simp
  then have "unat (of_nat (n - 12 - sz) :: u32) = n - 12 - sz" by (simp add: unat_of_nat_id)
  then show ?thesis using assms(1,3) by (subst unat_sub_le) (auto simp: word_le_nat_alt)
qed

lemma mem_trim_refines:
  assumes ok: "heap_ok s (xs @ (n, True) # ys)" and new: "new_size < 2 ^ 32"
    and sz: "sz = request_size new_size" "sz + 12 \<le> n"
  shows "\<exists>s'. mem_trim (user_ptr s (blk_total xs)) new_size s = (user_ptr s (blk_total xs), s')
     \<and> heap_ok s' (xs @ abs_trim n sz ys) \<and> ram s' = ram s"
proof -
  let ?o = "blk_total xs"
  let ?s = "snd (mem_trim (user_ptr s ?o) new_size s)" and ?bs = "xs @ abs_trim n sz ys"
  have inv: "heap_inv s (xs @ (n, True) # ys)" and first: "lfree s = ram_end \<or> lfree s \<in> free_offs 0 (xs @ (n, True) # ys)"
    using ok by (auto simp: heap_ok_def)
  have rep: "heap_rep s (xs @ (n, True) # ys)" and l: "lfree_ok (lfree s) (xs @ (n, True) # ys)"
    and u: "unat (st_used (mem_stats s)) = used_bytes (xs @ (n, True) # ys)"
    using inv by (auto simp: heap_inv_def)
  note b = heap_rep_at [OF rep] and un = mem_trim_unfold [OF rep new sz, unfolded Let_def]
  have d: "4 dvd sz" "12 \<le> sz" using sz(1) request_size_props by simp_all
  have na: "no_adjacent_free ?bs" using inv by (simp add: heap_inv_def no_adjacent_free_trim)
  consider (same) "sz = n - 12" | (grow) m zs where "sz < n - 12" "ys = (m, False) # zs"
    | (used) "sz < n - 12" "\<nexists>m zs. ys = (m, False) # zs"
    using sz(2) by (metis add_le_imp_le_diff le_neq_implies_less)
  then have "heap_ok ?s ?bs \<and> ram ?s = ram s"
  proof cases
    case same
    then show ?thesis using ok un by (simp add: abs_trim_def)
  next
    case grow
    have rep2: "heap_rep s ((xs @ [(n, True)]) @ (m, False) # zs)" using rep grow by simp
    have b2: "m_next (hdr s (?o + n)) = ?o + n + m" "\<not> m_used (hdr s (?o + n))"
      using heap_rep_at [OF rep2] by simp_all
    have bs: "?bs = xs @ (12 + sz, True) # (n - 12 - sz + m, False) # zs" using grow by (simp add: abs_trim_def)
    have h: "heap_rep ?s (xs @ [(12 + sz, True), (n + blk_total [(m, False)] - 12 - sz, False)] @ zs)"
      by (rule cut_block_rep [of s]) (use rep grow d un b2 in auto)
    have e: "n + m - (12 + sz) = n - 12 - sz + m" using sz(2) by simp
    have h': "heap_rep ?s ?bs" unfolding bs using h by (simp add: e)
    have lf: "lfree ?s = (if lfree s = ?o + n then ?o + 12 + sz else lfree s)" using un grow b2 by simp
    have us: "unat (st_used (mem_stats ?s)) = used_bytes ?bs"
      unfolding bs using un grow b2 unat_dec_used [OF u rep sz(2)] by simp
    have c: "12 + sz < n" using grow(1) by simp
    have lb: "lfree_ok (lfree s) (xs @ (n, True) # (m, False) # zs)" using l grow by simp
    have "lfree s \<noteq> ram_end"
      using lb b(4) heap_rep_at(4,6) [OF rep2] by (auto simp: lfree_ok_def free_offs_append)
    then have "lfree ?s \<in> free_offs 0 ?bs"
      using lfree_ok_grow(2) [OF lb c] first grow(2) unfolding lf bs by simp
    moreover have "lfree_ok (lfree ?s) ?bs" unfolding lf bs by (rule lfree_ok_grow(1) [OF lb c])
    moreover have "ram ?s = ram s" using un grow b2 by simp
    ultimately show ?thesis using h' na us by (simp add: heap_ok_def heap_inv_def)
  next
    case used
    have b2: "m_used (hdr s (?o + n))"
    proof (cases ys)
      case Nil
      then show ?thesis using rep by (simp add: heap_rep_def blocks_def)
    next
      case (Cons y zs)
      then have "heap_rep s ((xs @ [(n, True)]) @ (fst y, snd y) # zs)" using rep by simp
      from heap_rep_at(3) [OF this] show ?thesis using used Cons by (cases y) auto
    qed
    have ny: "abs_trim n sz ys = (if sz + 24 \<le> n - 12 then (12 + sz, True) # (n - 12 - sz, False) # ys
        else (n, True) # ys)"
      using used by (auto simp: abs_trim_def split: list.splits bool.splits)
    show ?thesis
    proof (cases "sz + 24 \<le> n - 12")
      case True
      have "heap_rep ?s (xs @ [(12 + sz, True), (n + blk_total [] - 12 - sz, False)] @ ys)"
        by (rule cut_block_rep [of s]) (use rep True d un b2 used in auto)
      then have h': "heap_rep ?s ?bs" using True ny by simp
      have us: "unat (st_used (mem_stats ?s)) = used_bytes ?bs"
        using un used b2 True unat_dec_used [OF u rep sz(2)] by (simp add: ny)
      have c: "12 + sz < n" using used(1) by simp
      have lf: "lfree ?s = (if ?o + 12 + sz < lfree s then ?o + 12 + sz else lfree s)"
        using un used b2 True by simp
      have "lfree ?s \<in> free_offs 0 ?bs"
        using lfree_ok_cut(2) [OF l c first b(6)] True unfolding lf ny by simp
      moreover have "lfree_ok (lfree ?s) ?bs"
        using lfree_ok_cut(1) [OF l c] True unfolding lf ny by simp
      moreover have "ram ?s = ram s" using un used b2 True by simp
      ultimately show ?thesis using h' na us by (simp add: heap_ok_def heap_inv_def)
    next
      case False
      then show ?thesis using un used b2 ok by (auto simp: ny heap_ok_def heap_inv_def heap_rep_def)
    qed
  qed
  moreover have "fst (mem_trim (user_ptr s ?o) new_size s) = user_ptr s ?o" using un by simp
  ultimately show ?thesis by (intro exI [of _ ?s]) (simp add: prod_eq_iff)
qed

lemma mem_trim_too_big:
  assumes ok: "heap_ok s (xs @ (n, True) # ys)" and new: "new_size < 2 ^ 32"
    and sz: "n < request_size new_size + 12"
  shows "mem_trim (user_ptr s (blk_total xs)) new_size s = (NULL, s)"
proof -
  have rep: "heap_rep s (xs @ (n, True) # ys)" using ok by (simp add: heap_ok_def heap_inv_def)
  note b = heap_rep_at [OF rep]
  have r: "0 < ram s" "ram s + ram_end < 2 ^ 32" using rep by (auto simp: heap_rep_def)
  have p: "sub32 (sub32 (user_ptr s (blk_total xs)) 12) (ram s) = blk_total xs"
    and inr: "\<not> (user_ptr s (blk_total xs) < ram s \<or> ram s + ram_end \<le> user_ptr s (blk_total xs))"
    using r b(4,6) by (auto simp: user_ptr_def sub32_le)
  have room: "sub32 (sub32 (blk_total xs + n) (blk_total xs)) 12 = n - 12"
    using b(4,6) r by (simp add: sub32_le)
  let ?al = "if LWIP_MEM_ALIGN_SIZE32 new_size < 12 then 12 else LWIP_MEM_ALIGN_SIZE32 new_size"
  show ?thesis
  proof (cases "MEM_SIZE_ALIGNED < ?al \<or> ?al < new_size")
    case True
    show ?thesis
      unfolding mem_trim_def Let_def SIZEOF_STRUCT_MEM_val MIN_SIZE_ALIGNED_val if_P [OF True] ..
  next
    case False
    then have "?al = request_size new_size" using align32_request(2) [OF new] by (auto simp: not_less)
    then have gt: "n - 12 < ?al" using sz b(4) by simp
    show ?thesis
      unfolding mem_trim_def Let_def SIZEOF_STRUCT_MEM_val MIN_SIZE_ALIGNED_val if_not_P [OF False]
      unfolding p b(1) room if_not_P [OF inr] if_P [OF gt] ..
  qed
qed

section \<open>The sanity check\<close>

lemma mem_sanity_loop_ok:
  assumes "heap_rep s (xs @ ys)" and "no_adjacent_free (xs @ ys)" and "xs \<noteq> []"
  shows "mem_sanity_loop (blk_total xs) (snd (last xs)) s = Some True"
  using assms
proof (induction ys arbitrary: xs)
  case Nil
  then have "blk_total xs = ram_end" using heap_rep_end [of s xs "[]"] by simp
  then show ?case using Nil.prems(1) by (simp add: mem_sanity_loop.simps heap_rep_def)
next
  case (Cons y ys)
  obtain n u where y: "y = (n, u)" by (cases y)
  have rep: "heap_rep s (xs @ (n, u) # ys)" using Cons.prems(1) y by simp
  note b = heap_rep_at [OF rep]
  have pos: "0 < blk_total xs"
    using prefix_blocks_pos [of "hdr s" 0 0 xs] rep Cons.prems(3)
    by (auto simp: heap_rep_def blocks_def prefix_blocks_append)
  have lt: "blk_total xs < ram_end" using b(4,6) by simp
  have d: "4 dvd blk_total xs" by (rule heap_rep_dvd [OF rep])
  obtain zs z where z: "xs = zs @ [z]" using Cons.prems(3) by (cases xs rule: rev_cases) auto
  have rz: "heap_rep s (zs @ z # (n, u) # ys)" using rep z by simp
  have lz: "last_off 0 0 xs = blk_total zs" "4 dvd blk_total zs" "blk_total zs \<le> ram_end"
    using z heap_rep_dvd [OF rz] lt by auto
  have nf: "\<not> snd (last xs) \<longrightarrow> u" using Cons.prems(2,3) y by (auto simp: no_adjacent_free_append)
  have "mem_sanity_loop (blk_total (xs @ [y])) (snd (last (xs @ [y]))) s = Some True"
    by (rule Cons.IH) (use Cons.prems in auto)
  then show ?case
    using pos lt d b lz nf mem_link_valid_block [OF rep]
    by (subst mem_sanity_loop.simps) (simp add: y)
qed

lemma mem_sanity_ok:
  assumes "heap_ok s bs"
  shows "mem_sanity s = Some True"
proof -
  have rep: "heap_rep s bs" and na: "no_adjacent_free bs" using assms by (auto simp: heap_ok_def heap_inv_def)
  obtain n u ys where bs: "bs = (n, u) # ys"
    using rep by (cases bs) (auto simp: heap_rep_def blocks_def MEM_SIZE_ALIGNED_val)
  have "heap_rep s ([] @ (n, u) # ys)" using rep bs by simp
  note b = heap_rep_at [OF this]
  show ?thesis
    using mem_sanity_loop_ok [of s "[(n, u)]" ys] rep na bs b by (simp add: mem_sanity_def)
qed

section \<open>The contract of a heap\<close>

text \<open>
  What a client of the heap relies on. \<open>inv s L\<close> reads: the heap is in state \<open>s\<close> and the
  live objects are \<open>L\<close>, each an address and the bytes usable there.
\<close>

locale heap_allocator =
  fixes malloc :: "nat \<Rightarrow> 's \<Rightarrow> (addr \<times> 's) option"
    and release :: "addr \<Rightarrow> 's \<Rightarrow> 's"
    and inv :: "'s \<Rightarrow> (addr \<times> nat) set \<Rightarrow> bool"
  assumes malloc_returns: "inv s L \<Longrightarrow> n < 2 ^ 32 \<Longrightarrow> \<exists>p s'. malloc n s = Some (p, s')"
    and malloc_ok: "inv s L \<Longrightarrow> n < 2 ^ 32 \<Longrightarrow> malloc n s = Some (p, s') \<Longrightarrow> p \<noteq> NULL \<Longrightarrow>
      \<exists>m \<ge> n. inv s' (insert (p, m) L) \<and> (p, m) \<notin> L"
    and malloc_fail: "inv s L \<Longrightarrow> n < 2 ^ 32 \<Longrightarrow> malloc n s = Some (NULL, s') \<Longrightarrow> inv s' L"
    and live: "inv s L \<Longrightarrow> (p, n) \<in> L \<Longrightarrow> p \<noteq> NULL \<and> 4 dvd p \<and> 0 < n \<and> p + n < 2 ^ 32"
    and disjoint: "inv s L \<Longrightarrow> (p, n) \<in> L \<Longrightarrow> (q, m) \<in> L \<Longrightarrow> (p, n) \<noteq> (q, m) \<Longrightarrow>
      p + n \<le> q \<or> q + m \<le> p"
    and release_ok: "inv s L \<Longrightarrow> (p, n) \<in> L \<Longrightarrow> inv (release p s) (L - {(p, n)})"
begin

text \<open>A new object has a new address, and overlaps no live object.\<close>

lemma malloc_fresh:
  assumes "inv s L" "n < 2 ^ 32" "malloc n s = Some (p, s')" "p \<noteq> NULL"
  shows "p \<notin> fst ` L" and "(q, m) \<in> L \<Longrightarrow> p + n \<le> q \<or> q + m \<le> p"
proof -
  obtain k where k: "n \<le> k" "inv s' (insert (p, k) L)" "(p, k) \<notin> L" using malloc_ok [OF assms] by blast
  have *: "p + k \<le> q \<or> q + m \<le> p" if "(q, m) \<in> L" for q m
    using disjoint [OF k(2), of p k q m] that k(3) by auto
  show "p \<notin> fst ` L"
  proof
    assume "p \<in> fst ` L"
    then obtain m where "(p, m) \<in> L" by auto
    then show False using * [of p m] live [OF k(2), of p k] live [OF assms(1), of p m] by auto
  qed
  show "(q, m) \<in> L \<Longrightarrow> p + n \<le> q \<or> q + m \<le> p" using * [of q m] k(1) by auto
qed

text \<open>Allocating and releasing leaves the live objects as they were.\<close>

lemma malloc_release:
  assumes "inv s L" "n < 2 ^ 32" "malloc n s = Some (p, s')" "p \<noteq> NULL"
  shows "inv (release p s') L"
proof -
  obtain k where k: "inv s' (insert (p, k) L)" "(p, k) \<notin> L" using malloc_ok [OF assms] by blast
  then show ?thesis using release_ok [OF k(1), of p k] by simp
qed

end

definition regions :: "mem_heap \<Rightarrow> blk list \<Rightarrow> (addr \<times> nat) set" where
  "regions s bs = (\<lambda>(off, n). (user_ptr s off, n - 12)) ` used_offs 0 bs"

definition heap_live :: "mem_heap \<Rightarrow> (addr \<times> nat) set \<Rightarrow> bool" where
  "heap_live s L \<longleftrightarrow> (\<exists>bs. heap_ok s bs \<and> L = regions s bs)"

lemma regions_ram: "ram s' = ram s \<Longrightarrow> regions s' bs = regions s bs"
  by (simp add: regions_def user_ptr_def)

lemma regions_inj:
  assumes "heap_ok s bs"
  shows "inj_on (\<lambda>(off, n). (user_ptr s off, n - 12)) (used_offs 0 bs)"
proof (rule inj_onI, clarsimp)
  fix a m b n
  assume a: "(a, m) \<in> used_offs 0 bs" "(b, n) \<in> used_offs 0 bs" "user_ptr s a = user_ptr s b"
    "m - 12 = n - 12"
  have rep: "heap_rep s bs" using assms by (simp add: heap_ok_def heap_inv_def)
  have "24 \<le> m" "24 \<le> n" using used_block_place(4) [OF rep] a(1,2) by blast+
  then show "a = b \<and> m = n" using a(3,4) by (simp add: user_ptr_def)
qed

lemma heap_live_place:
  assumes "heap_live s L" and "(p, n) \<in> L"
  shows "p \<noteq> NULL \<and> 4 dvd p \<and> 12 \<le> n \<and> ram s + 12 \<le> p \<and> p + n \<le> ram s + ram_end
     \<and> ram s + ram_end < 2 ^ 32"
proof -
  obtain bs off k where b: "heap_ok s bs" "(off, k) \<in> used_offs 0 bs" "p = user_ptr s off" "n = k - 12"
    using assms by (auto simp: heap_live_def regions_def)
  have rep: "heap_rep s bs" using b(1) by (simp add: heap_ok_def heap_inv_def)
  show ?thesis using used_block_place [OF rep b(2)] rep b(3,4) by (auto simp: heap_rep_def)
qed

lemma heap_live_disjoint:
  assumes "heap_live s L" and "(p, n) \<in> L" "(q, m) \<in> L" "(p, n) \<noteq> (q, m)"
  shows "p + n \<le> q \<or> q + m \<le> p"
proof -
  obtain bs where ok: "heap_ok s bs" and L: "L = regions s bs" using assms(1) by (auto simp: heap_live_def)
  obtain a k where a: "(a, k) \<in> used_offs 0 bs" "p = user_ptr s a" "n = k - 12"
    using assms(2) L by (auto simp: regions_def)
  obtain c j where c: "(c, j) \<in> used_offs 0 bs" "q = user_ptr s c" "m = j - 12"
    using assms(3) L by (auto simp: regions_def)
  have "(a, k) \<noteq> (c, j)" using assms(4) a c by auto
  from used_offs_disjoint [OF a(1) c(1) this] show ?thesis using a c by (auto simp: user_ptr_def)
qed

lemma mem_malloc_live:
  assumes L: "heap_live s L" and n: "n < 2 ^ 32"
  shows "\<exists>p s'. mem_malloc [] n s = Some (p, s')
     \<and> (if p = NULL then heap_live s' L else \<exists>m \<ge> n. heap_live s' (insert (p, m) L) \<and> (p, m) \<notin> L)"
proof (cases "n = 0 \<or> MEM_SIZE_ALIGNED < request_size n")
  case True
  then show ?thesis using L n by (simp add: mem_malloc_eq)
next
  case False
  obtain bs where ok: "heap_ok s bs" and Lr: "L = regions s bs" using L by (auto simp: heap_live_def)
  have sc: "script_ok s bs []" by (simp add: script_ok_def)
  obtain p s' bs' where m: "mem_malloc [] n s = Some (p, s')"
    and post: "malloc_post s bs {} (request_size n) p s' bs'"
    using mem_malloc_post [OF ok sc _ n] False by (auto simp: not_less)
  have ok': "heap_ok s' bs'" and ram: "ram s' = ram s" using post by (auto simp: malloc_post_def)
  show ?thesis
  proof (cases "p = NULL")
    case True
    then have "used_offs 0 bs' = used_offs 0 bs" using post by (auto simp: malloc_post_def without_def)
    then have "L = regions s' bs'" using Lr ram by (simp add: regions_def user_ptr_def)
    then show ?thesis using m True ok' by (auto simp: heap_live_def)
  next
    case pn: False
    obtain off k where b: "p = user_ptr s off" "12 + request_size n \<le> k"
      "used_offs 0 bs' = insert (off, k) (used_offs 0 bs)" "(off, k) \<notin> used_offs 0 bs"
      using post pn by (auto simp: malloc_post_def without_def)
    have "regions s' bs' = insert (p, k - 12) L"
      using b Lr ram by (auto simp: regions_def user_ptr_def)
    then have live: "heap_live s' (insert (p, k - 12) L)" using ok' by (auto simp: heap_live_def)
    have "(p, k - 12) \<notin> L"
    proof
      assume "(p, k - 12) \<in> L"
      then obtain j where j: "(off, j) \<in> used_offs 0 bs" "k - 12 = j - 12"
        using Lr b(1) by (auto simp: regions_def user_ptr_def)
      have "24 \<le> j" using used_block_place(4) [of s bs, OF _ j(1)] ok by (simp add: heap_ok_def heap_inv_def)
      then have "k = j" using j(2) b(2) by arith
      then show False using j b by auto
    qed
    moreover have "n \<le> k - 12" using b(2) request_size_props(1) [of n] by simp
    ultimately show ?thesis using m pn live by auto
  qed
qed

lemma mem_free_live:
  assumes "heap_live s L" and "(p, n) \<in> L"
  shows "heap_live (mem_free p s) (L - {(p, n)})"
proof -
  obtain bs where ok: "heap_ok s bs" and L: "L = regions s bs" using assms(1) by (auto simp: heap_live_def)
  obtain off k where k: "(off, k) \<in> used_offs 0 bs" "p = user_ptr s off" "n = k - 12"
    using assms(2) L by (auto simp: regions_def)
  have "p \<in> used_ptrs s bs" using k by (force simp: used_ptrs_def)
  from mem_free_ok [OF ok this] obtain bs' where b: "heap_ok (mem_free p s) bs'"
    "used_offs 0 bs' = without s {p} (used_offs 0 bs)" "ram (mem_free p s) = ram s" by blast
  have u: "j = k" if "(off, j) \<in> used_offs 0 bs" for j
  proof (rule used_offs_unique [OF that k(1)])
    show "\<forall>b \<in> set bs. 0 < fst b" using heap_inv_all_pos [of s bs] ok by (force simp: heap_ok_def)
  qed
  have "without s {p} (used_offs 0 bs) = used_offs 0 bs - {(off, k)}"
    using k(2) u by (auto simp: without_def user_ptr_def)
  moreover have "(\<lambda>(off, n). (user_ptr s off, n - 12)) ` (used_offs 0 bs - {(off, k)}) = L - {(p, n)}"
    using inj_on_image_set_diff [OF regions_inj [OF ok], of "used_offs 0 bs" "{(off, k)}"] L k
    by (simp add: regions_def)
  ultimately have "regions (mem_free p s) bs' = L - {(p, n)}"
    using b(2,3) by (simp add: regions_def user_ptr_def)
  then show ?thesis using b(1) by (auto simp: heap_live_def)
qed

interpretation mem: heap_allocator "mem_malloc []" mem_free heap_live
proof (unfold_locales, goal_cases)
  case (1 s L n)
  then show ?case using mem_malloc_live by blast
next
  case (2 s L n p s')
  then show ?case using mem_malloc_live [OF 2(1,2)] by auto
next
  case (3 s L n s')
  then show ?case using mem_malloc_live [OF 3(1,2)] by auto
next
  case (4 s L p n)
  then show ?case using heap_live_place [OF 4] by auto
next
  case (5 s L p n q m)
  then show ?case by (rule heap_live_disjoint)
next
  case (6 s L p n)
  then show ?case by (rule mem_free_live)
qed

section \<open>Properties\<close>

text \<open>
  The heaps that initialisation, allocation, release and trimming reach, with the pointers
  that are live.
\<close>

inductive heap_reach :: "mem_heap \<Rightarrow> addr set \<Rightarrow> bool" where
  heap_init: "0 < base \<Longrightarrow> base + MEM_SIZE_ALIGNED + 3 < 2 ^ 32 \<Longrightarrow> st_used (mem_stats s) = 0 \<Longrightarrow>
    heap_reach (mem_init base s) {}"
| heap_malloc: "heap_reach s P \<Longrightarrow> n < 2 ^ 32 \<Longrightarrow> mem_malloc [] n s = Some (p, s') \<Longrightarrow>
    heap_reach s' (if p = NULL then P else insert p P)"
| heap_free: "heap_reach s P \<Longrightarrow> p \<in> P \<Longrightarrow> heap_reach (mem_free p s) (P - {p})"
| heap_trim: "heap_reach s P \<Longrightarrow> p \<in> P \<Longrightarrow> n < 2 ^ 32 \<Longrightarrow> heap_reach (snd (mem_trim p n s)) P"

lemma used_ptrs_regions: "used_ptrs s bs = fst ` regions s bs"
  by (auto simp: used_ptrs_def regions_def image_image split_def)

lemma used_ptrs_trim:
  assumes "sz + 12 \<le> n" and "ram s' = ram s"
  shows "used_ptrs s' (xs @ abs_trim n sz ys) = used_ptrs s (xs @ (n, True) # ys)"
proof -
  obtain k where "used_offs (blk_total xs) (abs_trim n sz ys)
      = insert (blk_total xs, k) (used_offs (blk_total xs + n) ys)"
    using used_offs_trim [OF assms(1)] by blast
  then show ?thesis using assms(2) by (auto simp: used_ptrs_def used_offs_append user_ptr_def image_Un)
qed

lemma mem_trim_ok:
  assumes ok: "heap_ok s bs" and p: "p \<in> used_ptrs s bs" and n: "new_size < 2 ^ 32"
  shows "\<exists>bs'. heap_ok (snd (mem_trim p new_size s)) bs'
     \<and> used_ptrs (snd (mem_trim p new_size s)) bs' = used_ptrs s bs
     \<and> ram (snd (mem_trim p new_size s)) = ram s"
proof -
  obtain off k where o': "(off, k) \<in> used_offs 0 bs" "p = user_ptr s off" using p by (auto simp: used_ptrs_def)
  obtain xs ys where bs: "bs = xs @ (k, True) # ys" "off = blk_total xs"
    using used_offs_split [OF o'(1)] by auto
  show ?thesis
  proof (cases "request_size new_size + 12 \<le> k")
    case True
    then show ?thesis
      using mem_trim_refines [OF ok [unfolded bs(1)] n refl True] used_ptrs_trim [OF True]
      by (auto simp: o'(2) bs)
  next
    case False
    then show ?thesis using mem_trim_too_big [OF ok [unfolded bs(1)] n] ok by (auto simp: o'(2) bs)
  qed
qed

lemma heap_reach_ok: "heap_reach s P \<Longrightarrow> \<exists>bs. heap_ok s bs \<and> used_ptrs s bs = P"
proof (induction rule: heap_reach.induct)
  case (heap_init base s)
  then show ?case using mem_init_ok [OF heap_init] by (auto simp: used_ptrs_def)
next
  case (heap_malloc s P n p s')
  then obtain bs where bs: "heap_ok s bs" "used_ptrs s bs = P" by blast
  then have L: "heap_live s (regions s bs)" by (auto simp: heap_live_def)
  from mem_malloc_live [OF L heap_malloc.hyps(2)] heap_malloc.hyps(3) obtain m where
    "heap_live s' (if p = NULL then regions s bs else insert (p, m) (regions s bs))"
    by (auto split: if_splits)
  then obtain bs' where "heap_ok s' bs'"
    "regions s' bs' = (if p = NULL then regions s bs else insert (p, m) (regions s bs))"
    by (auto simp: heap_live_def)
  then show ?case using bs(2) by (intro exI [of _ bs']) (auto simp: used_ptrs_regions)
next
  case (heap_free s P p)
  then obtain bs where bs: "heap_ok s bs" "used_ptrs s bs = P" by blast
  then show ?case
    using mem_free_ok [OF bs(1), of p] heap_free.hyps(2) used_ptrs_without [of _ s "{p}" bs "mem_free p s"]
    by blast
next
  case (heap_trim s P p n)
  then show ?case using mem_trim_ok by blast
qed

text \<open>
  C1 Allocation under interference. For a heap in good order and any legal script of frees by
  other contexts during the search, \<open>mem_malloc\<close> returns; the heap is in good order again. A
  non-NULL result is a block of at least the rounded size that was not in use before, every
  other used block was used before, and no block is lost except those that the other contexts
  free. \<open>NULL\<close> means that no free block is large enough.
\<close>

theorem mem_malloc_concurrent:
  assumes "heap_ok s bs" and "script_ok s bs script"
    and "0 < n" and "n < 2 ^ 32" and "request_size n \<le> MEM_SIZE_ALIGNED"
  shows "\<exists>p s' bs'. mem_malloc script n s = Some (p, s')
     \<and> malloc_post s bs (set (concat script)) (request_size n) p s' bs'"
  by (rule mem_malloc_post [OF assms])

text \<open>A heap with one used block of 40 bytes and one free block, for the witnesses.\<close>

definition demo_heap :: mem_heap where
  "demo_heap = \<lparr>hdr = (\<lambda>_. \<lparr>m_next = 0, m_prev = 0, m_used = False\<rparr>)
       (0 := \<lparr>m_next = 40, m_prev = 0, m_used = True\<rparr>,
        40 := \<lparr>m_next = 262144, m_prev = 0, m_used = False\<rparr>,
        262144 := \<lparr>m_next = 262144, m_prev = 262144, m_used = True\<rparr>),
     ram = 4096, lfree = 40, mem_free_count = False, mem_stats = stats_mem_zero\<lparr>st_used := 40\<rparr>\<rparr>"

definition demo_blks :: "blk list" where
  "demo_blks = [] @ (40, True) # [(262104, False)]"

lemma demo_heap_ok: "heap_ok demo_heap demo_blks"
  by (simp add: heap_ok_def heap_inv_def heap_rep_def blocks_def lfree_ok_def demo_heap_def demo_blks_def
      MEM_SIZE_ALIGNED_val)

theorem mem_malloc_concurrent_witness:
  "\<exists>p s' bs'. mem_malloc [[], [4108]] 20 demo_heap = Some (p, s')
     \<and> malloc_post demo_heap demo_blks {4108} (request_size 20) p s' bs'"
proof -
  have "script_ok demo_heap demo_blks [[], [4108]]"
    by (simp add: script_ok_def used_ptrs_def user_ptr_def demo_heap_def demo_blks_def)
  moreover have "request_size 20 \<le> MEM_SIZE_ALIGNED"
    by (simp add: request_size_def MEM_SIZE_ALIGNED_val)
  ultimately show ?thesis
    using mem_malloc_concurrent [OF demo_heap_ok, of "[[], [4108]]" 20] by simp
qed

lemma mem_malloc_ram:
  assumes "heap_live s L" and n: "n < 2 ^ 32" and m: "mem_malloc [] n s = Some (p, s')"
  shows "ram s' = ram s"
proof (cases "n = 0 \<or> MEM_SIZE_ALIGNED < request_size n")
  case True
  then show ?thesis using m n by (simp add: mem_malloc_eq)
next
  case False
  obtain bs where "heap_ok s bs" using assms(1) by (auto simp: heap_live_def)
  from mem_malloc_post [OF this _ _ n, of "[]"] False m show ?thesis
    by (auto simp: script_ok_def malloc_post_def not_less)
qed

text \<open>
  Allocated memory is fresh. What \<open>mem_malloc\<close> returns is aligned, lies inside the heap
  together with the \<open>n\<close> bytes asked for, and overlaps no live object.
\<close>

lemma mem_malloc_fresh:
  assumes "heap_live s L" and "n < 2 ^ 32" and "mem_malloc [] n s = Some (p, s')" and "p \<noteq> NULL"
  shows "4 dvd p \<and> ram s + 12 \<le> p \<and> p + n \<le> ram s + ram_end
     \<and> (\<forall>(q, m) \<in> L. p + n \<le> q \<or> q + m \<le> p)"
proof -
  obtain m where m: "n \<le> m" "heap_live s' (insert (p, m) L)" using mem.malloc_ok [OF assms] by blast
  have "ram s' = ram s"
    by (rule mem_malloc_ram [OF assms(1-3)])
  then show ?thesis
    using heap_live_place [OF m(2), of p m] m(1) mem.malloc_fresh(2) [OF assms] by auto
qed

text \<open>
  C2 Release. \<open>mem_free\<close> of a used block keeps the heap in good order, and the block sequence
  is the old one with the block free and joined with the free blocks before and after it.
\<close>

theorem mem_free_coalesces:
  assumes "heap_ok s (xs @ (n, True) # ys)"
  shows "heap_ok (mem_free (user_ptr s (blk_total xs)) s) (abs_join xs n ys)"
proof -
  have inv: "heap_inv s (xs @ (n, True) # ys)" using assms by (simp add: heap_ok_def)
  then have l: "lfree_ok (lfree s) (xs @ (n, True) # ys)" "0 < n" "blk_total xs < ram_end"
    using heap_rep_at(4,6) [of s xs n True ys] by (auto simp: heap_inv_def)
  show ?thesis
    using mem_free_refines(1,2) [OF inv] lfree_first_join [OF l(1,2) _ l(3), of ram_end] assms
    by (auto simp: heap_ok_def)
qed

theorem mem_free_coalesces_witness:
  "heap_ok (mem_free 4108 demo_heap) [(262144, False)]"
proof -
  have "user_ptr demo_heap (blk_total []) = 4108" by (simp add: user_ptr_def demo_heap_def)
  moreover have "abs_join [] 40 [(262104, False)] = [(262144, False)]" by (simp add: abs_join_def)
  ultimately show ?thesis
    using mem_free_coalesces [OF demo_heap_ok [unfolded demo_blks_def]] by simp
qed

text \<open>
  Trimming. \<open>mem_trim\<close> of a used block to a smaller size returns the same pointer, keeps the
  heap in good order, and gives the tail to the free block that follows or makes a free block
  of it when it is large enough; a size that does not fit gives \<open>NULL\<close> and changes nothing.
\<close>

lemma mem_trim_correct:
  assumes "heap_ok s (xs @ (n, True) # ys)" and "new_size < 2 ^ 32"
  shows "if request_size new_size + 12 \<le> n
     then \<exists>s'. mem_trim (user_ptr s (blk_total xs)) new_size s = (user_ptr s (blk_total xs), s')
       \<and> heap_ok s' (xs @ abs_trim n (request_size new_size) ys)
     else mem_trim (user_ptr s (blk_total xs)) new_size s = (NULL, s)"
  using mem_trim_refines [OF assms refl] mem_trim_too_big [OF assms] by auto

text \<open>
  C3 The sanity check never fires. In every heap that the operations reach, \<open>mem_sanity\<close> ends
  and every assertion it makes holds: links consistent, aligned and in range, no two adjacent
  free blocks, the end marker intact.
\<close>

theorem mem_sanity_reachable:
  assumes "heap_reach s P"
  shows "mem_sanity s = Some True"
  using heap_reach_ok [OF assms] mem_sanity_ok by blast

theorem mem_sanity_reachable_witness:
  "\<exists>p s'. mem_malloc [] 100 (mem_init 4096 (demo_heap\<lparr>mem_stats := stats_mem_zero\<rparr>)) = Some (p, s')
     \<and> mem_sanity s' = Some True"
proof -
  let ?s = "mem_init 4096 (demo_heap\<lparr>mem_stats := stats_mem_zero\<rparr>)"
  have r: "heap_reach ?s {}"
    by (rule heap_init) (simp_all add: MEM_SIZE_ALIGNED_val stats_mem_zero_def)
  obtain bs where "heap_ok ?s bs" using heap_reach_ok [OF r] by blast
  then obtain p s' where m: "mem_malloc [] 100 ?s = Some (p, s')"
    using mem.malloc_returns [of ?s "regions ?s bs" 100] by (auto simp: heap_live_def)
  then show ?thesis using mem_sanity_reachable [OF heap_malloc [OF r _ m]] by simp
qed

text \<open>
  Invalid releases. \<open>mem_free\<close> of \<open>NULL\<close>, of a misaligned pointer, of one outside the heap
  or of a free block leaves every block as it is.
\<close>

lemma mem_free_rejects:
  assumes "heap_ok s bs"
    and "p = NULL \<or> \<not> 4 dvd p \<or> p < ram s + 12 \<or> ram s + ram_end < p + 12
      \<or> p \<in> user_ptr s ` free_offs 0 bs"
  shows "heap_ok (mem_free p s) bs \<and> hdr (mem_free p s) = hdr s"
  using mem_free_illegal [OF assms] by simp

text \<open>
  Overflow in \<open>mem_calloc\<close>. When the product of count and size does not fit 32 bits, the
  test for it does not notice: the call behaves as one for the product modulo \<open>2 ^ 32\<close>.
\<close>

lemma mem_calloc_overflow:
  "mem_calloc script 0x10000001 16 s = mem_calloc script 1 16 s"
  by (simp add: mem_calloc_def)

end
