(* ===== verification/Pbuf.thy ===== *)
theory Pbuf
  imports Mem
begin

text \<open>
  Packet buffers, \<open>lwip/src/core/pbuf.c\<close>, first part: allocation, reference counting, release,
  chaining, headers and truncation. The second part, access to the data, is in \<open>Pbuf_Data\<close>.

  The store is explicit: \<open>pbufs\<close> maps the address of every \<open>struct pbuf\<close> to its fields and
  \<open>bytes\<close> is the payload memory. The memory pools \<open>MEMP_PBUF\<close> and \<open>MEMP_PBUF_POOL\<close> and the heap
  are the states of the theories below. Reading the field of a pbuf that is not in the store
  gives \<open>None\<close>. The custom free function of a custom pbuf is the owner's: calling it hands
  the pbuf over, which is recorded in \<open>custom_freed\<close>.
\<close>

unbundle bit_operations_syntax

section \<open>Data\<close>

text \<open>\<open>struct pbuf\<close> (pbuf.h); \<open>LWIP_PBUF_REF_T\<close> is \<open>u8_t\<close>.\<close>

record pbuf =
  pb_next :: addr
  pb_payload :: addr
  pb_tot_len :: u16
  pb_len :: u16
  pb_type_internal :: u8
  pb_flags :: u8
  pb_ref :: u8
  pb_if_idx :: u8

text \<open>
  The state that the functions of pbuf.c touch. \<open>pb_cb_ok\<close> says whether \<open>tcpip_try_callback\<close>
  accepts a callback, \<open>pb_cb_posted\<close> counts those posted by \<open>pbuf_pool_is_empty\<close>.
\<close>

record pb_state =
  pbufs :: "addr \<Rightarrow> pbuf option"
  bytes :: "addr \<Rightarrow> u8"
  pool_ref :: memp_pool
  pool_pool :: memp_pool
  pb_heap :: mem_heap
  custom_freed :: "addr list"
  pbuf_free_ooseq_pending :: bool
  pb_cb_ok :: bool
  pb_cb_posted :: nat

datatype pbuf_type = PBUF_RAM | PBUF_ROM | PBUF_REF | PBUF_POOL

definition pbuf_type_bits :: "pbuf_type \<Rightarrow> u16" where
  "pbuf_type_bits t = (case t of PBUF_RAM \<Rightarrow> 0x280 | PBUF_ROM \<Rightarrow> 0x01 | PBUF_REF \<Rightarrow> 0x41 | PBUF_POOL \<Rightarrow> 0x182)"

definition SIZEOF_STRUCT_PBUF :: nat where
  [const_defs]: "SIZEOF_STRUCT_PBUF = LWIP_MEM_ALIGN_SIZE 16"

definition PBUF_POOL_BUFSIZE_ALIGNED :: nat where
  [const_defs]: "PBUF_POOL_BUFSIZE_ALIGNED = LWIP_MEM_ALIGN_SIZE 1600"

definition PBUF_FLAG_IS_CUSTOM :: u8 where [const_defs]: "PBUF_FLAG_IS_CUSTOM = 0x02"

definition PBUF_TYPE_FLAG_STRUCT_DATA_CONTIGUOUS :: u8 where
  [const_defs]: "PBUF_TYPE_FLAG_STRUCT_DATA_CONTIGUOUS = 0x80"

definition pbuf_get_allocsrc :: "pbuf \<Rightarrow> u8" where
  "pbuf_get_allocsrc b = pb_type_internal b AND 0x0F"

definition is_custom :: "pbuf \<Rightarrow> bool" where
  "is_custom b \<longleftrightarrow> pb_flags b AND PBUF_FLAG_IS_CUSTOM \<noteq> 0"

lemma SIZEOF_STRUCT_PBUF_val [simp]: "SIZEOF_STRUCT_PBUF = 16"
  by (simp add: const_defs LWIP_MEM_ALIGN_SIZE_def)

lemma PBUF_POOL_BUFSIZE_ALIGNED_val [simp]: "PBUF_POOL_BUFSIZE_ALIGNED = 1600"
  by (simp add: const_defs LWIP_MEM_ALIGN_SIZE_def)

text \<open>Reading and writing a pbuf.\<close>

definition getp :: "addr \<Rightarrow> pb_state \<Rightarrow> pbuf option" where
  "getp p s = (if p = NULL then None else pbufs s p)"

definition putp :: "addr \<Rightarrow> pbuf \<Rightarrow> pb_state \<Rightarrow> pb_state" where
  "putp p b s = s\<lparr>pbufs := (pbufs s)(p \<mapsto> b)\<rparr>"

section \<open>Release\<close>

definition pbuf_pool_is_empty :: "pb_state \<Rightarrow> pb_state" where
  "pbuf_pool_is_empty s =
     (let queued = pbuf_free_ooseq_pending s;
          s = s\<lparr>pbuf_free_ooseq_pending := True\<rparr> in
      if \<not> queued then
        (if \<not> pb_cb_ok s then s\<lparr>pbuf_free_ooseq_pending := False\<rparr>
         else s\<lparr>pb_cb_posted := pb_cb_posted s + 1\<rparr>)
      else s)"

text \<open>The part of \<open>pbuf_free\<close> that gives back the memory of a pbuf without references.\<close>

definition pbuf_dealloc :: "addr \<Rightarrow> pbuf \<Rightarrow> pb_state \<Rightarrow> pb_state" where
  "pbuf_dealloc p b s =
     (let alloc_src = pbuf_get_allocsrc b; gone = s\<lparr>pbufs := (pbufs s)(p := None)\<rparr> in
      if is_custom b then gone\<lparr>custom_freed := custom_freed s @ [p]\<rparr>
      else if alloc_src = 2 then gone\<lparr>pool_pool := do_memp_free_pool p (pool_pool s)\<rparr>
      else if alloc_src = 1 then gone\<lparr>pool_ref := do_memp_free_pool p (pool_ref s)\<rparr>
      else if alloc_src = 0 then gone\<lparr>pb_heap := mem_free p (pb_heap s)\<rparr>
      else s)"

partial_function (option) pbuf_free_loop :: "addr \<Rightarrow> u8 \<Rightarrow> pb_state \<Rightarrow> (u8 \<times> pb_state) option" where
  "pbuf_free_loop p count s =
     (if p = NULL then Some (count, s)
      else do {
        b \<leftarrow> getp p s;
        let b' = b\<lparr>pb_ref := pb_ref b - 1\<rparr>;
        let s = putp p b' s;
        if pb_ref b' = 0 then pbuf_free_loop (pb_next b') (count + 1) (pbuf_dealloc p b' s)
        else Some (count, s)
      })"

definition pbuf_free :: "addr \<Rightarrow> pb_state \<Rightarrow> (u8 \<times> pb_state) option" where
  "pbuf_free p s = (if p = NULL then Some (0, s) else pbuf_free_loop p 0 s)"

section \<open>Allocation\<close>

definition pbuf_init_alloced_pbuf ::
  "addr \<Rightarrow> addr \<Rightarrow> u16 \<Rightarrow> u16 \<Rightarrow> pbuf_type \<Rightarrow> u8 \<Rightarrow> pb_state \<Rightarrow> pb_state" where
  "pbuf_init_alloced_pbuf p payload tot_len len type flags s =
     putp p \<lparr>pb_next = NULL, pb_payload = payload, pb_tot_len = tot_len, pb_len = len,
             pb_type_internal = ucast (pbuf_type_bits type), pb_flags = flags, pb_ref = 1,
             pb_if_idx = 0\<rparr> s"

definition pbuf_alloc_reference ::
  "addr \<Rightarrow> u16 \<Rightarrow> pbuf_type \<Rightarrow> pb_state \<Rightarrow> addr \<times> pb_state" where
  "pbuf_alloc_reference payload len_in type s =
     (let (p, pool) = do_memp_malloc_pool (pool_ref s); s = s\<lparr>pool_ref := pool\<rparr> in
      if p = NULL then (NULL, s)
      else (p, pbuf_init_alloced_pbuf p payload len_in len_in type 0 s))"

text \<open>The loop for \<open>PBUF_POOL\<close>: \<open>p\<close> is the first pbuf so far, \<open>last\<close> the last one.\<close>

definition pool_qlen :: "u16 \<Rightarrow> u16 \<Rightarrow> u16" where
  "pool_qlen rem_len offset =
     min rem_len (of_nat (sub32 PBUF_POOL_BUFSIZE_ALIGNED (LWIP_MEM_ALIGN_SIZE (unat offset))))"

partial_function (option) pbuf_alloc_pool_loop ::
  "addr \<Rightarrow> addr \<Rightarrow> u16 \<Rightarrow> u16 \<Rightarrow> pb_state \<Rightarrow> (addr \<times> pb_state) option" where
  "pbuf_alloc_pool_loop p lst rem_len offset s =
     (let (q, pool) = do_memp_malloc_pool (pool_pool s); s = s\<lparr>pool_pool := pool\<rparr> in
      if q = NULL then
        (let s = pbuf_pool_is_empty s in
         if p \<noteq> NULL then do { (_, s) \<leftarrow> pbuf_free p s; Some (NULL, s) } else Some (NULL, s))
      else
        (let qlen = pool_qlen rem_len offset;
             s = pbuf_init_alloced_pbuf q
                   (LWIP_MEM_ALIGN_SIZE (q + SIZEOF_STRUCT_PBUF + unat offset)) rem_len qlen PBUF_POOL 0 s
         in do {
           s \<leftarrow> (if p = NULL then Some s
                 else do { l \<leftarrow> getp lst s; Some (putp lst (l\<lparr>pb_next := q\<rparr>) s) });
           let p = (if p = NULL then q else p);
           let rem_len = rem_len - qlen;
           if rem_len > 0 then pbuf_alloc_pool_loop p q rem_len 0 s else Some (p, s)
         }))"

definition pbuf_alloc_ram :: "u16 \<Rightarrow> u16 \<Rightarrow> pb_state \<Rightarrow> (addr \<times> pb_state) option" where
  "pbuf_alloc_ram offset len_in s =
     (let alen = LWIP_MEM_ALIGN_SIZE (unat len_in);
          payload_len = (LWIP_MEM_ALIGN_SIZE (unat offset) + alen) mod 2 ^ 32;
          alloc_len = (LWIP_MEM_ALIGN_SIZE SIZEOF_STRUCT_PBUF + payload_len) mod 2 ^ 32 in
      if payload_len < alen \<or> alloc_len < alen then Some (NULL, s)
      else do {
        (p, h) \<leftarrow> mem_malloc [] alloc_len (pb_heap s);
        let s = s\<lparr>pb_heap := h\<rparr>;
        if p = NULL then Some (NULL, s)
        else Some (p, pbuf_init_alloced_pbuf p
               (LWIP_MEM_ALIGN_SIZE (p + SIZEOF_STRUCT_PBUF + unat offset)) len_in len_in PBUF_RAM 0 s)
      })"

definition pbuf_alloc :: "u16 \<Rightarrow> u16 \<Rightarrow> pbuf_type \<Rightarrow> pb_state \<Rightarrow> (addr \<times> pb_state) option" where
  "pbuf_alloc layer len_in type s =
     (case type of
        PBUF_REF \<Rightarrow> Some (pbuf_alloc_reference NULL len_in type s)
      | PBUF_ROM \<Rightarrow> Some (pbuf_alloc_reference NULL len_in type s)
      | PBUF_POOL \<Rightarrow> pbuf_alloc_pool_loop NULL NULL len_in layer s
      | PBUF_RAM \<Rightarrow> pbuf_alloc_ram layer len_in s)"

definition pbuf_alloced_custom ::
  "u16 \<Rightarrow> u16 \<Rightarrow> pbuf_type \<Rightarrow> addr \<Rightarrow> addr \<Rightarrow> u16 \<Rightarrow> pb_state \<Rightarrow> addr \<times> pb_state" where
  "pbuf_alloced_custom l len_in type p payload_mem payload_mem_len s =
     (if LWIP_MEM_ALIGN_SIZE (unat l) + unat len_in > unat payload_mem_len then (NULL, s)
      else
        (let payload = (if payload_mem \<noteq> NULL then payload_mem + LWIP_MEM_ALIGN_SIZE (unat l) else NULL)
         in (p, pbuf_init_alloced_pbuf p payload len_in len_in type PBUF_FLAG_IS_CUSTOM s)))"

section \<open>Truncation and headers\<close>

text \<open>
  The loop of \<open>pbuf_realloc\<close> that finds the last pbuf to keep, adjusting the total lengths on
  the way: the pbuf and the len_in left for it.
\<close>

partial_function (option) pbuf_realloc_loop ::
  "addr \<Rightarrow> u16 \<Rightarrow> u16 \<Rightarrow> pb_state \<Rightarrow> (addr \<times> u16 \<times> pb_state) option" where
  "pbuf_realloc_loop q rem_len shrink s =
     do {
       b \<leftarrow> getp q s;
       if rem_len > pb_len b then
         pbuf_realloc_loop (pb_next b) (rem_len - pb_len b) shrink
           (putp q (b\<lparr>pb_tot_len := pb_tot_len b - shrink\<rparr>) s)
       else Some (q, rem_len, s)
     }"

definition pbuf_realloc :: "addr \<Rightarrow> u16 \<Rightarrow> pb_state \<Rightarrow> pb_state option" where
  "pbuf_realloc p new_len s =
     do {
       b \<leftarrow> getp p s;
       if new_len \<ge> pb_tot_len b then Some s
       else do {
         let shrink = pb_tot_len b - new_len;
         (q, rem_len, s) \<leftarrow> pbuf_realloc_loop p new_len shrink s;
         b \<leftarrow> getp q s;
         let s = (if pbuf_get_allocsrc b = 0 \<and> rem_len \<noteq> pb_len b \<and> \<not> is_custom b then
                    s\<lparr>pb_heap := snd (mem_trim q ((sub32 (pb_payload b) q + unat rem_len) mod 2 ^ 32) (pb_heap s))\<rparr>
                  else s);
         let s = putp q (b\<lparr>pb_len := rem_len, pb_tot_len := rem_len\<rparr>) s;
         s \<leftarrow> (if pb_next b \<noteq> NULL then do { (_, s) \<leftarrow> pbuf_free (pb_next b) s; Some s } else Some s);
         b \<leftarrow> getp q s;
         Some (putp q (b\<lparr>pb_next := NULL\<rparr>) s)
       }
     }"

definition pbuf_add_header_impl :: "addr \<Rightarrow> nat \<Rightarrow> bool \<Rightarrow> pb_state \<Rightarrow> (u8 \<times> pb_state) option" where
  "pbuf_add_header_impl p incr force s =
     (if p = NULL \<or> incr > 0xFFFF then Some (1, s)
      else if incr = 0 then Some (0, s)
      else do {
        b \<leftarrow> getp p s;
        let mag = (of_nat incr :: u16);
        if mag + pb_tot_len b < mag then Some (1, s)
        else
          (let payload = sub32 (pb_payload b) incr;
               s' = putp p (b\<lparr>pb_payload := payload, pb_len := pb_len b + mag,
                              pb_tot_len := pb_tot_len b + mag\<rparr>) s in
           if pb_type_internal b AND PBUF_TYPE_FLAG_STRUCT_DATA_CONTIGUOUS \<noteq> 0 then
             (if payload < p + SIZEOF_STRUCT_PBUF then Some (1, s) else Some (0, s'))
           else if force then Some (0, s')
           else Some (1, s))
      })"

definition pbuf_add_header :: "addr \<Rightarrow> nat \<Rightarrow> pb_state \<Rightarrow> (u8 \<times> pb_state) option" where
  "pbuf_add_header p incr s = pbuf_add_header_impl p incr False s"

definition pbuf_add_header_force :: "addr \<Rightarrow> nat \<Rightarrow> pb_state \<Rightarrow> (u8 \<times> pb_state) option" where
  "pbuf_add_header_force p incr s = pbuf_add_header_impl p incr True s"

definition pbuf_remove_header :: "addr \<Rightarrow> nat \<Rightarrow> pb_state \<Rightarrow> (u8 \<times> pb_state) option" where
  "pbuf_remove_header p decr s =
     (if p = NULL \<or> decr > 0xFFFF then Some (1, s)
      else if decr = 0 then Some (0, s)
      else do {
        b \<leftarrow> getp p s;
        let mag = (of_nat decr :: u16);
        if \<not> mag \<le> pb_len b then Some (1, s)
        else Some (0, putp p (b\<lparr>pb_payload := pb_payload b + decr, pb_len := pb_len b - mag,
                                pb_tot_len := pb_tot_len b - mag\<rparr>) s)
      })"

definition pbuf_header_impl :: "addr \<Rightarrow> 16 word \<Rightarrow> bool \<Rightarrow> pb_state \<Rightarrow> (u8 \<times> pb_state) option" where
  "pbuf_header_impl p incr force s =
     (if sint incr < 0 then pbuf_remove_header p (nat (- sint incr)) s
      else pbuf_add_header_impl p (nat (sint incr)) force s)"

definition pbuf_header :: "addr \<Rightarrow> 16 word \<Rightarrow> pb_state \<Rightarrow> (u8 \<times> pb_state) option" where
  "pbuf_header p incr s = pbuf_header_impl p incr False s"

definition pbuf_header_force :: "addr \<Rightarrow> 16 word \<Rightarrow> pb_state \<Rightarrow> (u8 \<times> pb_state) option" where
  "pbuf_header_force p incr s = pbuf_header_impl p incr True s"

partial_function (option) pbuf_free_header :: "addr \<Rightarrow> u16 \<Rightarrow> pb_state \<Rightarrow> (addr \<times> pb_state) option" where
  "pbuf_free_header p free_left s =
     (if free_left \<noteq> 0 \<and> p \<noteq> NULL then do {
        b \<leftarrow> getp p s;
        if free_left \<ge> pb_len b then do {
          (_, s) \<leftarrow> pbuf_free p (putp p (b\<lparr>pb_next := NULL\<rparr>) s);
          pbuf_free_header (pb_next b) (free_left - pb_len b) s
        } else do {
          (_, s) \<leftarrow> pbuf_remove_header p (unat free_left) s;
          Some (p, s)
        }
      } else Some (p, s))"

section \<open>References and chains\<close>

partial_function (option) pbuf_clen_loop :: "addr \<Rightarrow> u16 \<Rightarrow> pb_state \<Rightarrow> u16 option" where
  "pbuf_clen_loop p len s =
     (if p = NULL then Some len else do { b \<leftarrow> getp p s; pbuf_clen_loop (pb_next b) (len + 1) s })"

definition pbuf_clen :: "addr \<Rightarrow> pb_state \<Rightarrow> u16 option" where
  "pbuf_clen p s = pbuf_clen_loop p 0 s"

definition pbuf_ref :: "addr \<Rightarrow> pb_state \<Rightarrow> pb_state option" where
  "pbuf_ref p s =
     (if p \<noteq> NULL then do { b \<leftarrow> getp p s; Some (putp p (b\<lparr>pb_ref := pb_ref b + 1\<rparr>) s) } else Some s)"

partial_function (option) pbuf_cat_loop :: "addr \<Rightarrow> addr \<Rightarrow> pb_state \<Rightarrow> pb_state option" where
  "pbuf_cat_loop p t s =
     do {
       b \<leftarrow> getp p s;
       bt \<leftarrow> getp t s;
       if pb_next b \<noteq> NULL then
         pbuf_cat_loop (pb_next b) t (putp p (b\<lparr>pb_tot_len := pb_tot_len b + pb_tot_len bt\<rparr>) s)
       else Some (putp p (b\<lparr>pb_tot_len := pb_tot_len b + pb_tot_len bt, pb_next := t\<rparr>) s)
     }"

definition pbuf_cat :: "addr \<Rightarrow> addr \<Rightarrow> pb_state \<Rightarrow> pb_state option" where
  "pbuf_cat h t s = (if \<not> (h \<noteq> NULL \<and> t \<noteq> NULL) then Some s else pbuf_cat_loop h t s)"

definition pbuf_chain :: "addr \<Rightarrow> addr \<Rightarrow> pb_state \<Rightarrow> pb_state option" where
  "pbuf_chain h t s = do { s \<leftarrow> pbuf_cat h t s; pbuf_ref t s }"

definition pbuf_dechain :: "addr \<Rightarrow> pb_state \<Rightarrow> (addr \<times> pb_state) option" where
  "pbuf_dechain p s =
     do {
       b \<leftarrow> getp p s;
       let q = pb_next b;
       if q \<noteq> NULL then do {
         bq \<leftarrow> getp q s;
         let s = putp q (bq\<lparr>pb_tot_len := pb_tot_len b - pb_len b\<rparr>) s;
         let s = putp p (b\<lparr>pb_next := NULL, pb_tot_len := pb_len b\<rparr>) s;
         (tail_gone, s) \<leftarrow> pbuf_free q s;
         Some (if tail_gone > 0 then NULL else q, s)
       } else Some (NULL, s)
     }"

partial_function (option) split_64k_loop :: "addr \<Rightarrow> addr \<Rightarrow> u16 \<Rightarrow> pb_state \<Rightarrow> (addr \<times> addr) option" where
  "split_64k_loop i r tot_len_front s =
     (if r = NULL then Some (i, r)
      else do {
        br \<leftarrow> getp r s;
        if tot_len_front + pb_len br \<ge> tot_len_front
        then split_64k_loop r (pb_next br) (tot_len_front + pb_len br) s
        else Some (i, r)
      })"

partial_function (option) sub_tot_len_loop :: "addr \<Rightarrow> u16 \<Rightarrow> pb_state \<Rightarrow> pb_state option" where
  "sub_tot_len_loop i amount s =
     (if i = NULL then Some s
      else do {
        b \<leftarrow> getp i s;
        sub_tot_len_loop (pb_next b) amount (putp i (b\<lparr>pb_tot_len := pb_tot_len b - amount\<rparr>) s)
      })"

definition pbuf_split_64k :: "addr \<Rightarrow> pb_state \<Rightarrow> (addr \<times> pb_state) option" where
  "pbuf_split_64k p s =
     (if p = NULL then Some (NULL, s)
      else do {
        b \<leftarrow> getp p s;
        if pb_next b = NULL then Some (NULL, s)
        else do {
          (i, r) \<leftarrow> split_64k_loop p (pb_next b) (pb_len b) s;
          bi \<leftarrow> getp i s;
          let s = putp i (bi\<lparr>pb_next := NULL\<rparr>) s;
          if r \<noteq> NULL then do {
            br \<leftarrow> getp r s;
            s \<leftarrow> sub_tot_len_loop p (pb_tot_len br) s;
            b \<leftarrow> getp p s;
            let s = (if pb_flags b AND 0x20 \<noteq> 0 then putp r (br\<lparr>pb_flags := pb_flags br OR 0x20\<rparr>) s else s);
            Some (r, s)
          } else Some (NULL, s)
        }
      })"

section \<open>The store invariant\<close>

text \<open>
  Where the memory of a pbuf comes from, and the invariant: the elements outstanding in the two
  pools are exactly the pbufs that \<open>pbuf_free\<close> will give back there, and every pbuf in the heap
  is a live heap object.
\<close>

definition src_of :: "pbuf \<Rightarrow> u8" where
  "src_of b = (if is_custom b then 255 else pbuf_get_allocsrc b)"

definition srcs :: "u8 \<Rightarrow> pb_state \<Rightarrow> addr set" where
  "srcs k s = {p. \<exists>b. pbufs s p = Some b \<and> src_of b = k}"

definition src_ok :: "pbuf \<Rightarrow> bool" where
  "src_ok b \<longleftrightarrow> is_custom b \<or> pbuf_get_allocsrc b \<in> {0, 1, 2}"

definition in_heap :: "mem_heap \<Rightarrow> addr \<Rightarrow> bool" where
  "in_heap h p \<longleftrightarrow> ram h \<le> p \<and> p < ram h + ram_end"

definition heap_part :: "pb_state \<Rightarrow> bool" where
  "heap_part s \<longleftrightarrow> (\<exists>L. heap_live (pb_heap s) L \<and> srcs 0 s \<subseteq> fst ` L
     \<and> {p \<in> dom (pbufs s). in_heap (pb_heap s) p} \<subseteq> fst ` L)"

definition layout :: "memp_desc \<Rightarrow> memp_desc \<Rightarrow> pb_state \<Rightarrow> bool" where
  "layout dR dP s \<longleftrightarrow> pool_elems dR \<inter> pool_elems dP = {}
     \<and> (\<forall>p \<in> pool_elems dR \<union> pool_elems dP. \<not> in_heap (pb_heap s) p)
     \<and> dom (pbufs s) \<inter> pool_elems dR \<subseteq> srcs 1 s \<and> dom (pbufs s) \<inter> pool_elems dP \<subseteq> srcs 2 s
     \<and> NULL \<notin> dom (pbufs s)"

definition pb_inv :: "memp_desc \<Rightarrow> memp_desc \<Rightarrow> pb_state \<Rightarrow> bool" where
  "pb_inv dR dP s \<longleftrightarrow> layout dR dP s \<and> heap_part s
     \<and> pool_inv dR (pool_ref s) (srcs 1 s) \<and> pool_inv dP (pool_pool s) (srcs 2 s)"

abbreviation nexts :: "pb_state \<Rightarrow> addr \<Rightarrow> addr option" where
  "nexts s \<equiv> \<lambda>a. map_option pb_next (pbufs s a)"

abbreviation pb :: "pb_state \<Rightarrow> addr \<Rightarrow> pbuf" where
  "pb s q \<equiv> the (pbufs s q)"

lemma getp_some: "getp p s = Some b \<longleftrightarrow> p \<noteq> NULL \<and> pbufs s p = Some b"
  by (auto simp: getp_def)

lemma putp_simps [simp]:
  "pbufs (putp p b s) = (pbufs s)(p \<mapsto> b)" "bytes (putp p b s) = bytes s"
  "pool_ref (putp p b s) = pool_ref s" "pool_pool (putp p b s) = pool_pool s"
  "pb_heap (putp p b s) = pb_heap s" "custom_freed (putp p b s) = custom_freed s"
  by (simp_all add: putp_def)

lemma srcs_dom: "p \<in> srcs k s \<Longrightarrow> p \<in> dom (pbufs s)"
  by (auto simp: srcs_def)

lemma srcs_alt: "srcs k s = {p. map_option src_of (pbufs s p) = Some k}"
  by (auto simp: srcs_def)

lemma srcs_upd:
  assumes "pbufs s' = (pbufs s)(p \<mapsto> b')" and "pbufs s p = Some b" and "src_of b' = src_of b"
  shows "srcs k s' = srcs k s"
  using assms by (auto simp: srcs_def)

text \<open>Changing fields other than the flags and the type keeps the invariant.\<close>

lemma putp_inv [inv_intros]:
  assumes inv: "pb_inv dR dP s" and b: "pbufs s p = Some b" and same: "src_of b' = src_of b"
  shows "pb_inv dR dP (putp p b' s)"
proof -
  have "srcs k (putp p b' s) = srcs k s" for k by (rule srcs_upd [OF _ b same]) simp
  moreover have "dom (pbufs (putp p b' s)) = dom (pbufs s)" using b by auto
  ultimately show ?thesis
    using inv unfolding pb_inv_def layout_def heap_part_def putp_simps(3-5) by simp
qed

lemma src_of_cong:
  "pb_flags b' = pb_flags b \<Longrightarrow> pb_type_internal b' = pb_type_internal b \<Longrightarrow> src_of b' = src_of b"
  by (simp add: src_of_def is_custom_def pbuf_get_allocsrc_def)

lemma srcs_del:
  "pbufs s' = (pbufs s)(p := None) \<Longrightarrow> srcs k s' = srcs k s - {p}"
  by (auto simp: srcs_def)

lemma mem_free_ram:
  assumes "heap_live h L" and "(p, n) \<in> L"
  shows "ram (mem_free p h) = ram h"
proof -
  obtain bs where ok: "heap_ok h bs" and L: "L = regions h bs" using assms(1) by (auto simp: heap_live_def)
  have "p \<in> used_ptrs h bs" using assms(2) L used_ptrs_regions [of h bs] by force
  from mem_free_ok [OF ok this] show ?thesis by blast
qed

lemma pbuf_dealloc_frame:
  assumes "src_ok b"
  shows "pbufs (pbuf_dealloc p b s) = (pbufs s)(p := None)" "bytes (pbuf_dealloc p b s) = bytes s"
    "custom_freed (pbuf_dealloc p b s) = custom_freed s @ (if is_custom b then [p] else [])"
  using assms by (auto simp: pbuf_dealloc_def src_ok_def src_of_def Let_def split: if_splits)

lemma custom_not_src: "is_custom b \<Longrightarrow> src_of b \<noteq> 0 \<and> src_of b \<noteq> 1 \<and> src_of b \<noteq> 2"
  by (simp add: src_of_def)

lemma heap_part_free:
  assumes inv: "heap_part s" and b: "pbufs s p = Some b" "src_of b = 0"
    and s': "pbufs s' = (pbufs s)(p := None)" "pb_heap s' = mem_free p (pb_heap s)"
  shows "heap_part s'" and "ram (pb_heap s') = ram (pb_heap s)"
proof -
  obtain L where L: "heap_live (pb_heap s) L" "srcs 0 s \<subseteq> fst ` L"
    "{p \<in> dom (pbufs s). in_heap (pb_heap s) p} \<subseteq> fst ` L" using inv by (auto simp: heap_part_def)
  have "p \<in> srcs 0 s" using b by (auto simp: srcs_def)
  then obtain n where n: "(p, n) \<in> L" using L(2) by auto
  have ram: "ram (mem_free p (pb_heap s)) = ram (pb_heap s)" by (rule mem_free_ram [OF L(1) n])
  then show "ram (pb_heap s') = ram (pb_heap s)" by (simp add: s')
  have sub: "fst ` L - {p} \<subseteq> fst ` (L - {(p, n)})" by force
  have "heap_live (pb_heap s') (L - {(p, n)})" unfolding s' by (rule mem.release_ok [OF L(1) n])
  moreover have "srcs 0 s' \<subseteq> fst ` (L - {(p, n)})" using srcs_del [OF s'(1), of 0] L(2) sub by auto
  moreover have "{q \<in> dom (pbufs s'). in_heap (pb_heap s') q} \<subseteq> fst ` L - {p}"
    using L(3) ram s' by (auto simp: in_heap_def)
  ultimately show "heap_part s'" using sub unfolding heap_part_def by blast
qed

lemma heap_part_del:
  assumes inv: "heap_part s" and s': "pbufs s' = (pbufs s)(p := None)" "pb_heap s' = pb_heap s"
  shows "heap_part s'"
  using inv srcs_del [OF s'(1), of 0] unfolding heap_part_def s' by fastforce

lemma pbuf_dealloc_inv [inv_intros]:
  assumes inv: "pb_inv dR dP s" and b: "pbufs s p = Some b" and ok: "src_ok b"
  shows "pb_inv dR dP (pbuf_dealloc p b s)"
proof -
  let ?s = "pbuf_dealloc p b s"
  have del: "pbufs ?s = (pbufs s)(p := None)" by (rule pbuf_dealloc_frame(1) [OF ok])
  note sd = srcs_del [OF del]
  have p: "p \<in> srcs (src_of b) s" using b by (auto simp: srcs_def)
  have other: "k \<noteq> src_of b \<Longrightarrow> srcs k s - {p} = srcs k s" for k using b by (auto simp: srcs_def)
  have heap: "heap_part ?s \<and> ram (pb_heap ?s) = ram (pb_heap s)"
  proof (cases "src_of b = 0")
    case True
    then have "pb_heap ?s = mem_free p (pb_heap s)"
      by (auto simp: pbuf_dealloc_def src_of_def Let_def split: if_splits)
    then show ?thesis using heap_part_free [OF _ b True del] inv by (auto simp: pb_inv_def)
  next
    case False
    then have "pb_heap ?s = pb_heap s"
      by (auto simp: pbuf_dealloc_def src_of_def Let_def split: if_splits)
    then show ?thesis using heap_part_del [OF _ del] inv by (auto simp: pb_inv_def)
  qed
  have "pool_ref ?s = (if src_of b = 1 then do_memp_free_pool p (pool_ref s) else pool_ref s)"
    "pool_pool ?s = (if src_of b = 2 then do_memp_free_pool p (pool_pool s) else pool_pool s)"
    by (auto simp: pbuf_dealloc_def src_of_def Let_def split: if_splits)
  then have "pool_inv dR (pool_ref ?s) (srcs 1 ?s)" "pool_inv dP (pool_pool ?s) (srcs 2 ?s)"
    using inv p other [of 1] other [of 2] sd memp.release_ok [of dR "pool_ref s" "srcs 1 s" p]
      memp.release_ok [of dP "pool_pool s" "srcs 2 s" p]
    by (auto simp: pb_inv_def)
  moreover have "layout dR dP ?s"
    using inv heap sd del by (auto simp: pb_inv_def layout_def in_heap_def)
  ultimately show ?thesis using heap by (simp add: pb_inv_def)
qed

section \<open>Releasing a chain\<close>

text \<open>
  What \<open>pbuf_free\<close> does to the store: along the chain every pbuf with one reference
  disappears, the first one with more loses a reference and ends the walk.
\<close>

fun free_store :: "(addr \<Rightarrow> pbuf option) \<Rightarrow> addr list \<Rightarrow> addr \<Rightarrow> pbuf option" where
  "free_store m [] = m"
| "free_store m (q # qs) =
     (if pb_ref (the (m q)) = 1 then free_store (m(q := None)) qs
      else m(q \<mapsto> (the (m q))\<lparr>pb_ref := pb_ref (the (m q)) - 1\<rparr>))"

definition freed :: "pb_state \<Rightarrow> addr list \<Rightarrow> addr list" where
  "freed s qs = takeWhile (\<lambda>q. pb_ref (pb s q) = 1) qs"

lemma takeWhile_set_cong:
  "(\<And>x. x \<in> set xs \<Longrightarrow> P x = Q x) \<Longrightarrow> takeWhile P xs = takeWhile Q xs"
  by (induction xs) auto

lemma free_store_eq:
  assumes "distinct qs"
  shows "free_store m qs a =
    (let fs = takeWhile (\<lambda>q. pb_ref (the (m q)) = 1) qs in
     if a \<in> set fs then None
     else if length fs < length qs \<and> a = qs ! length fs
     then Some ((the (m a))\<lparr>pb_ref := pb_ref (the (m a)) - 1\<rparr>) else m a)"
  using assms
proof (induction m qs rule: free_store.induct)
  case (1 m)
  then show ?case by simp
next
  case (2 m q qs)
  define m' where "m' = m(q := None)"
  have m': "m' q = None" "r \<noteq> q \<Longrightarrow> m' r = m r" for r by (simp_all add: m'_def)
  have q: "q \<notin> set qs" "distinct qs" using "2.prems" by auto
  have eq: "takeWhile (\<lambda>r. pb_ref (the (m' r)) = 1) qs = takeWhile (\<lambda>r. pb_ref (the (m r)) = 1) qs"
    by (rule takeWhile_set_cong) (metis m'(2) q(1))
  show ?case
  proof (cases "pb_ref (the (m q)) = 1")
    case True
    have nth: "length (takeWhile P qs) < length qs \<Longrightarrow> qs ! length (takeWhile P qs) \<noteq> q" for P
      using q by (metis nth_mem)
    have tw: "r \<in> set (takeWhile P qs) \<Longrightarrow> r \<noteq> q" for P r using q by (auto dest: set_takeWhileD)
    have "free_store m (q # qs) a = free_store m' qs a" using True by (simp add: m'_def)
    also have "\<dots> = (let fs = takeWhile (\<lambda>r. pb_ref (the (m r)) = 1) qs in
        if a \<in> set fs then None
        else if length fs < length qs \<and> a = qs ! length fs
        then Some ((the (m' a))\<lparr>pb_ref := pb_ref (the (m' a)) - 1\<rparr>) else m' a)"
      using "2.IH" [OF True q(2)] unfolding m'_def [symmetric] eq .
    also have "\<dots> = (let fs = takeWhile (\<lambda>r. pb_ref (the (m r)) = 1) (q # qs) in
        if a \<in> set fs then None
        else if length fs < length (q # qs) \<and> a = (q # qs) ! length fs
        then Some ((the (m a))\<lparr>pb_ref := pb_ref (the (m a)) - 1\<rparr>) else m a)"
      using True nth m' by (cases "a = q") (auto simp: Let_def dest: tw)
    finally show ?thesis .
  next
    case False
    then show ?thesis by auto
  qed
qed

lemma linked_putp:
  "pbufs s p = Some b \<Longrightarrow> pb_next b' = pb_next b \<Longrightarrow> linked (nexts (putp p b' s)) q qs = linked (nexts s) q qs"
  by (rule linked_cong) auto

lemma linked_pb:
  assumes "linked (nexts s) p (q # qs)"
  shows "p = q" "q \<noteq> NULL" "pbufs s q = Some (pb s q)" "linked (nexts s) (pb_next (pb s q)) qs"
  using assms by auto

lemma pbuf_free_loop_ok:
  assumes "pb_inv dR dP s" and "linked (nexts s) p qs"
    and "\<forall>q \<in> set qs. src_ok (pb s q)"
  shows "\<exists>s'. pbuf_free_loop p c s = Some (c + of_nat (length (freed s qs)), s')
     \<and> pb_inv dR dP s' \<and> pbufs s' = free_store (pbufs s) qs \<and> bytes s' = bytes s
     \<and> custom_freed s' = custom_freed s @ filter (\<lambda>q. is_custom (pb s q)) (freed s qs)"
  using assms
proof (induction qs arbitrary: p c s)
  case Nil
  then show ?case by (simp add: pbuf_free_loop.simps freed_def)
next
  case (Cons q qs)
  note l = linked_pb [OF Cons.prems(2)]
  define b where "b = pb s q"
  define b' where "b' = b\<lparr>pb_ref := pb_ref b - 1\<rparr>"
  have b: "pbufs s q = Some b" using l(3) by (simp add: b_def)
  have so: "src_of b' = src_of b" "is_custom b' = is_custom b" "src_ok b' = src_ok b"
    by (simp_all add: b'_def src_of_def is_custom_def pbuf_get_allocsrc_def src_ok_def)
  have ok: "src_ok b'" using Cons.prems(3) so by (simp add: b_def)
  have inv1: "pb_inv dR dP (putp q b' s)" by (rule putp_inv [OF Cons.prems(1) b so(1)])
  have z: "pb_ref b' = 0 \<longleftrightarrow> pb_ref b = 1" by (simp add: b'_def)
  show ?case
  proof (cases "pb_ref b = 1")
    case False
    then have "pbuf_free_loop p c s = Some (c, putp q b' s)"
      using l(1,2) b z by (simp add: pbuf_free_loop.simps getp_def b'_def [symmetric] Let_def)
    then show ?thesis
      using False inv1 b by (auto simp: freed_def b_def [symmetric] b'_def)
  next
    case True
    let ?s = "pbuf_dealloc q b' (putp q b' s)"
    have fr: "pbufs ?s = (pbufs s)(q := None)" "bytes ?s = bytes s"
      "custom_freed ?s = custom_freed s @ (if is_custom b then [q] else [])"
      using pbuf_dealloc_frame [OF ok, of q "putp q b' s"] so by simp_all
    have inv2: "pb_inv dR dP ?s" by (rule pbuf_dealloc_inv [OF inv1 _ ok]) simp
    have d: "q \<notin> set qs" using linked_distinct [OF Cons.prems(2)] by simp
    have lk: "linked (nexts ?s) (pb_next b) qs"
    proof -
      have "linked (nexts ?s) x qs = linked (nexts s) x qs" for x
        by (rule linked_cong) (use d in \<open>auto simp: fr\<close>)
      then show ?thesis using l(4) by (simp add: b_def)
    qed
    have pbq: "pb ?s r = pb s r" if "r \<in> set qs" for r using that d fr by auto
    have ok2: "\<forall>r \<in> set qs. src_ok (pb ?s r)" using Cons.prems(3) pbq by simp
    have fq: "freed ?s qs = freed s qs" "freed s (q # qs) = q # freed s qs"
      using True pbq unfolding freed_def by (auto simp: b_def intro: takeWhile_set_cong)
    have sub: "r \<in> set (freed s qs) \<Longrightarrow> r \<in> set qs" for r by (auto simp: freed_def dest: set_takeWhileD)
    have flt: "filter (\<lambda>r. is_custom (pb ?s r)) (freed s qs) = filter (\<lambda>r. is_custom (pb s r)) (freed s qs)"
      by (rule filter_cong) (use pbq sub in auto)
    have step: "pbuf_free_loop p c s = pbuf_free_loop (pb_next b) (c + 1) ?s"
      using l(1,2) b z True
      by (subst pbuf_free_loop.simps) (simp add: getp_def Let_def b'_def)
    obtain s' where ih: "pbuf_free_loop (pb_next b) (c + 1) ?s = Some (c + 1 + of_nat (length (freed s qs)), s')"
      "pb_inv dR dP s'" "pbufs s' = free_store (pbufs ?s) qs" "bytes s' = bytes ?s"
      "custom_freed s' = custom_freed ?s @ filter (\<lambda>r. is_custom (pb s r)) (freed s qs)"
      using Cons.IH [OF inv2 lk ok2, of "c + 1"] unfolding fq(1) flt by blast
    have "pbufs s' = free_store (pbufs s) (q # qs)"
      unfolding ih(3) fr(1) using True by (simp add: b_def)
    moreover have "custom_freed s' = custom_freed s @ filter (\<lambda>r. is_custom (pb s r)) (freed s (q # qs))"
      unfolding ih(5) fr(3) fq(2) by (simp add: b_def)
    moreover have "pbuf_free_loop p c s = Some (c + of_nat (length (freed s (q # qs))), s')"
      unfolding step ih(1) fq(2) by (simp add: ac_simps)
    ultimately show ?thesis using ih(2,4) fr(2) by simp
  qed
qed

lemma pbuf_free_ok:
  assumes "pb_inv dR dP s" and "linked (nexts s) p qs" and "\<forall>q \<in> set qs. src_ok (pb s q)"
  shows "\<exists>s'. pbuf_free p s = Some (of_nat (length (freed s qs)), s')
     \<and> pb_inv dR dP s' \<and> pbufs s' = free_store (pbufs s) qs \<and> bytes s' = bytes s
     \<and> custom_freed s' = custom_freed s @ filter (\<lambda>q. is_custom (pb s q)) (freed s qs)"
proof (cases "p = NULL")
  case True
  then show ?thesis using assms by (auto simp: pbuf_free_def freed_def)
next
  case False
  then show ?thesis using pbuf_free_loop_ok [OF assms, of 0] by (simp add: pbuf_free_def)
qed

section \<open>Allocating pbufs\<close>

lemma srcs_new:
  "pbufs s' = (pbufs s)(q \<mapsto> b) \<Longrightarrow> q \<notin> dom (pbufs s) \<Longrightarrow>
     srcs k s' = (if src_of b = k then insert q (srcs k s) else srcs k s)"
  by (auto simp: srcs_def)

lemma heap_part_new:
  assumes "heap_part s" and "pbufs s' = (pbufs s)(q \<mapsto> b)" "pb_heap s' = pb_heap s"
    and "q \<notin> dom (pbufs s)" "src_of b \<noteq> 0" "\<not> in_heap (pb_heap s) q"
  shows "heap_part s'"
proof -
  have "srcs 0 s' = srcs 0 s" using srcs_new [OF assms(2,4), of 0] assms(5) by simp
  moreover have "{p \<in> dom (pbufs s'). in_heap (pb_heap s') p} = {p \<in> dom (pbufs s). in_heap (pb_heap s) p}"
    using assms(2,3,6) by auto
  ultimately show ?thesis using assms(1,3) by (simp add: heap_part_def)
qed

lemma pool_elem_new:
  assumes inv: "pb_inv dR dP s" and q: "do_memp_malloc_pool (pool_pool s) = (q, pool)" "q \<noteq> NULL"
  shows "q \<notin> dom (pbufs s)"
  using memp.alloc_ok [OF _ q, of dP "srcs 2 s"] inv by (auto simp: pb_inv_def layout_def)

lemma pool_malloc_inv:
  assumes inv: "pb_inv dR dP s" and q: "do_memp_malloc_pool (pool_pool s) = (q, pool)"
    and b: "src_of b = 2"
  shows "if q = NULL then pb_inv dR dP (s\<lparr>pool_pool := pool\<rparr>)
         else pb_inv dR dP (putp q b (s\<lparr>pool_pool := pool\<rparr>))"
proof (cases "q = NULL")
  case True
  have "pool_inv dP pool (srcs 2 s)"
    using memp.alloc_fail [of dP "pool_pool s" "srcs 2 s" pool] inv q True by (auto simp: pb_inv_def)
  then show ?thesis
    using inv True by (simp add: pb_inv_def layout_def heap_part_def srcs_def)
next
  case False
  let ?s = "putp q b (s\<lparr>pool_pool := pool\<rparr>)"
  have new: "q \<notin> dom (pbufs s)" by (rule pool_elem_new [OF inv q False])
  have upd: "pbufs ?s = (pbufs s)(q \<mapsto> b)" by simp
  note sn = srcs_new [OF upd new]
  have el: "q \<in> pool_elems dP" "pool_inv dP pool (insert q (srcs 2 s))"
    using memp.alloc_ok [OF _ q False, of dP "srcs 2 s"] inv by (auto simp: pb_inv_def)
  have nh: "\<not> in_heap (pb_heap s) q" "q \<notin> pool_elems dR" using inv el(1) by (auto simp: pb_inv_def layout_def)
  have "heap_part ?s" by (rule heap_part_new [OF _ upd _ new]) (use inv b nh in \<open>auto simp: pb_inv_def\<close>)
  moreover have "layout dR dP ?s"
    using inv sn b False nh by (auto simp: pb_inv_def layout_def)
  ultimately show ?thesis using inv False sn el(2) b by (simp add: pb_inv_def)
qed

lemma ref_malloc_inv:
  assumes inv: "pb_inv dR dP s" and q: "do_memp_malloc_pool (pool_ref s) = (q, pool)"
    and b: "src_of b = 1"
  shows "if q = NULL then pb_inv dR dP (s\<lparr>pool_ref := pool\<rparr>)
         else q \<notin> dom (pbufs s) \<and> pb_inv dR dP (putp q b (s\<lparr>pool_ref := pool\<rparr>))"
proof (cases "q = NULL")
  case True
  have "pool_inv dR pool (srcs 1 s)"
    using memp.alloc_fail [of dR "pool_ref s" "srcs 1 s" pool] inv q True by (auto simp: pb_inv_def)
  then show ?thesis
    using inv True by (simp add: pb_inv_def layout_def heap_part_def srcs_def)
next
  case False
  let ?s = "putp q b (s\<lparr>pool_ref := pool\<rparr>)"
  have el: "q \<in> pool_elems dR" "q \<notin> srcs 1 s" "pool_inv dR pool (insert q (srcs 1 s))"
    using memp.alloc_ok [OF _ q False, of dR "srcs 1 s"] inv by (auto simp: pb_inv_def)
  have new: "q \<notin> dom (pbufs s)" using el inv by (auto simp: pb_inv_def layout_def)
  have upd: "pbufs ?s = (pbufs s)(q \<mapsto> b)" by simp
  note sn = srcs_new [OF upd new]
  have nh: "\<not> in_heap (pb_heap s) q" "q \<notin> pool_elems dP" using inv el(1) by (auto simp: pb_inv_def layout_def)
  have "heap_part ?s" by (rule heap_part_new [OF _ upd _ new]) (use inv b nh in \<open>auto simp: pb_inv_def\<close>)
  moreover have "layout dR dP ?s"
    using inv sn b False nh by (auto simp: pb_inv_def layout_def)
  ultimately show ?thesis using inv False sn el(3) b new by (simp add: pb_inv_def)
qed

lemma heap_malloc_inv:
  assumes inv: "pb_inv dR dP s" and q: "mem_malloc [] n (pb_heap s) = Some (q, h)" "n < 2 ^ 32"
    and b: "src_of b = 0"
  shows "if q = NULL then pb_inv dR dP (s\<lparr>pb_heap := h\<rparr>)
         else q \<notin> dom (pbufs s) \<and> pb_inv dR dP (putp q b (s\<lparr>pb_heap := h\<rparr>))"
proof -
  obtain L where L: "heap_live (pb_heap s) L" "srcs 0 s \<subseteq> fst ` L"
    "{p \<in> dom (pbufs s). in_heap (pb_heap s) p} \<subseteq> fst ` L"
    using inv by (auto simp: pb_inv_def heap_part_def)
  have ram: "ram h = ram (pb_heap s)" by (rule mem_malloc_ram [OF L(1) q(2,1)])
  then have ih: "in_heap h = in_heap (pb_heap s)" by (auto simp: in_heap_def fun_eq_iff)
  show ?thesis
  proof (cases "q = NULL")
    case True
    have "heap_live h L" using mem.malloc_fail [OF L(1) q(2)] q(1) True by simp
    then have "heap_part (s\<lparr>pb_heap := h\<rparr>)" using L ih by (auto simp: heap_part_def srcs_def)
    then show ?thesis using inv True ih by (simp add: pb_inv_def layout_def srcs_def)
  next
    case False
    let ?s = "putp q b (s\<lparr>pb_heap := h\<rparr>)"
    obtain m where m: "heap_live h (insert (q, m) L)" using mem.malloc_ok [OF L(1) q(2,1) False] by blast
    have place: "in_heap (pb_heap s) q" using heap_live_place [OF m, of q m] ram by (auto simp: in_heap_def)
    have new: "q \<notin> dom (pbufs s)"
      using mem.malloc_fresh(1) [OF L(1) q(2,1) False] L(3) place by auto
    have upd: "pbufs ?s = (pbufs s)(q \<mapsto> b)" by simp
    note sn = srcs_new [OF upd new]
    have "heap_part ?s"
      unfolding heap_part_def using m L sn b ih by (intro exI [of _ "insert (q, m) L"]) auto
    moreover have "layout dR dP ?s"
      using inv sn b False place ih by (auto simp: pb_inv_def layout_def)
    ultimately show ?thesis using inv False sn b new by (simp add: pb_inv_def)
  qed
qed

text \<open>The values that a new pbuf has, and the source they stand for.\<close>

definition new_pbuf :: "addr \<Rightarrow> u16 \<Rightarrow> u16 \<Rightarrow> pbuf_type \<Rightarrow> u8 \<Rightarrow> pbuf" where
  "new_pbuf payload tot_len len type flags =
     \<lparr>pb_next = NULL, pb_payload = payload, pb_tot_len = tot_len, pb_len = len,
      pb_type_internal = ucast (pbuf_type_bits type), pb_flags = flags, pb_ref = 1, pb_if_idx = 0\<rparr>"

lemma init_alloced_eq:
  "pbuf_init_alloced_pbuf p payload t l type fl s = putp p (new_pbuf payload t l type fl) s"
  by (simp add: pbuf_init_alloced_pbuf_def new_pbuf_def)

lemma new_pbuf_src [simp]:
  "src_of (new_pbuf a t l PBUF_POOL 0) = 2" "src_of (new_pbuf a t l PBUF_RAM 0) = 0"
  "src_of (new_pbuf a t l PBUF_REF 0) = 1" "src_of (new_pbuf a t l PBUF_ROM 0) = 1"
  by (simp_all add: src_of_def new_pbuf_def is_custom_def pbuf_get_allocsrc_def pbuf_type_bits_def const_defs)

lemma new_pbuf_src_ok [simp]: "src_ok (new_pbuf a t l type 0)"
  by (cases type)
    (simp_all add: src_ok_def new_pbuf_def is_custom_def pbuf_get_allocsrc_def pbuf_type_bits_def const_defs)

lemma new_pbuf_simps [simp]:
  "pb_next (new_pbuf a t l type fl) = NULL" "pb_payload (new_pbuf a t l type fl) = a"
  "pb_tot_len (new_pbuf a t l type fl) = t" "pb_len (new_pbuf a t l type fl) = l"
  "pb_ref (new_pbuf a t l type fl) = 1" "pb_flags (new_pbuf a t l type fl) = fl"
  by (simp_all add: new_pbuf_def)

lemma pool_is_empty_frame [simp]:
  "pbufs (pbuf_pool_is_empty s) = pbufs s" "bytes (pbuf_pool_is_empty s) = bytes s"
  "pool_ref (pbuf_pool_is_empty s) = pool_ref s" "pool_pool (pbuf_pool_is_empty s) = pool_pool s"
  "pb_heap (pbuf_pool_is_empty s) = pb_heap s" "custom_freed (pbuf_pool_is_empty s) = custom_freed s"
  by (simp_all add: pbuf_pool_is_empty_def Let_def)

lemma pb_inv_cong:
  assumes "pbufs s' = pbufs s" "pool_ref s' = pool_ref s" "pool_pool s' = pool_pool s" "pb_heap s' = pb_heap s"
  shows "pb_inv dR dP s' = pb_inv dR dP s"
  by (simp add: assms pb_inv_def layout_def heap_part_def srcs_def)

section \<open>Packets\<close>

text \<open>
  The lengths along a chain. \<open>tot_ok m r qs\<close>: the total length of every pbuf of \<open>qs\<close> is the sum
  of the lengths from it to the end of \<open>qs\<close>, and \<open>r\<close> more that are to follow.
\<close>

definition blen :: "(addr \<Rightarrow> pbuf option) \<Rightarrow> addr \<Rightarrow> nat" where
  "blen m q = unat (pb_len (the (m q)))"

definition tlen :: "(addr \<Rightarrow> pbuf option) \<Rightarrow> addr \<Rightarrow> nat" where
  "tlen m q = unat (pb_tot_len (the (m q)))"

definition sum_len :: "(addr \<Rightarrow> pbuf option) \<Rightarrow> addr list \<Rightarrow> nat" where
  "sum_len m qs = sum_list (map (blen m) qs)"

fun tot_ok :: "(addr \<Rightarrow> pbuf option) \<Rightarrow> nat \<Rightarrow> addr list \<Rightarrow> bool" where
  "tot_ok m r [] \<longleftrightarrow> True"
| "tot_ok m r (q # qs) \<longleftrightarrow> tlen m q = blen m q + sum_len m qs + r \<and> tot_ok m r qs"

text \<open>A packet: a chain whose total lengths are right.\<close>

definition packet :: "pb_state \<Rightarrow> addr \<Rightarrow> addr list \<Rightarrow> bool" where
  "packet s p qs \<longleftrightarrow> linked (nexts s) p qs \<and> tot_ok (pbufs s) 0 qs"

lemma sum_len_simps [simp]:
  "sum_len m [] = 0" "sum_len m (q # qs) = blen m q + sum_len m qs"
  "sum_len m (xs @ ys) = sum_len m xs + sum_len m ys"
  by (simp_all add: sum_len_def)

lemma tot_ok_append:
  "tot_ok m r (xs @ ys) \<longleftrightarrow> tot_ok m (sum_len m ys + r) xs \<and> tot_ok m r ys"
  by (induction xs) auto

lemma sum_len_cong: "(\<And>q. q \<in> set qs \<Longrightarrow> blen m q = blen m' q) \<Longrightarrow> sum_len m qs = sum_len m' qs"
  by (induction qs) auto

lemma tot_ok_cong:
  assumes "\<And>q. q \<in> set qs \<Longrightarrow> blen m q = blen m' q" "\<And>q. q \<in> set qs \<Longrightarrow> tlen m q = tlen m' q"
  shows "tot_ok m r qs = tot_ok m' r qs"
  using assms
proof (induction qs)
  case (Cons q qs)
  then show ?case using sum_len_cong [of qs m m'] by auto
qed simp

text \<open>Linking one chain behind another.\<close>

lemma linked_join:
  assumes "linked nx p (xs @ [l])" and "linked nx q ys" and "set (xs @ [l]) \<inter> set ys = {}"
  shows "linked (nx(l := Some q)) p (xs @ l # ys)"
  using assms(1,3)
proof (induction xs arbitrary: p)
  case Nil
  then show ?case using assms(2) linked_upd [of l ys nx "Some q" q] by (auto simp: fun_upd_def simp del: linked_upd)
next
  case (Cons x xs)
  have "x \<noteq> l" using linked_distinct [OF Cons.prems(1)] by auto
  then show ?case using Cons by auto
qed

section \<open>Allocation from the pool\<close>

definition pool_fresh :: "(addr \<Rightarrow> pbuf option) \<Rightarrow> addr \<Rightarrow> bool" where
  "pool_fresh m q \<longleftrightarrow> (let b = the (m q) in pb_ref b = 1 \<and> src_of b = 2
     \<and> q + 16 \<le> pb_payload b \<and> pb_payload b + unat (pb_len b) \<le> q + 16 + 1600)"

lemma src_of_2_ok: "src_of b = 2 \<Longrightarrow> src_ok b \<and> \<not> is_custom b"
  by (auto simp: src_of_def src_ok_def split: if_splits)

lemma free_store_all:
  assumes "distinct qs" and "\<forall>q \<in> set qs. pb_ref (the (m q)) = 1"
  shows "free_store m qs a = (if a \<in> set qs then None else m a)"
proof -
  have "takeWhile (\<lambda>q. pb_ref (the (m q)) = 1) qs = qs" using assms(2) by (simp add: takeWhile_eq_all_conv)
  note tw = this
  show ?thesis unfolding free_store_eq [OF assms(1), of m a] Let_def tw by simp
qed

lemma pool_qlen_props:
  assumes "LWIP_MEM_ALIGN_SIZE (unat off) < 1600"
  shows "unat (pool_qlen r off) = min (unat r) (1600 - LWIP_MEM_ALIGN_SIZE (unat off))"
    and "0 < r \<Longrightarrow> 0 < unat (pool_qlen r off)"
proof -
  have "unat (of_nat (sub32 1600 (LWIP_MEM_ALIGN_SIZE (unat off))) :: u16) = 1600 - LWIP_MEM_ALIGN_SIZE (unat off)"
    by (subst unat_of_nat_id) (use assms in \<open>simp_all add: sub32_le\<close>)
  then show eq: "unat (pool_qlen r off) = min (unat r) (1600 - LWIP_MEM_ALIGN_SIZE (unat off))"
    unfolding pool_qlen_def PBUF_POOL_BUFSIZE_ALIGNED_val by (auto simp: min_def word_le_nat_alt)
  show "0 < r \<Longrightarrow> 0 < unat (pool_qlen r off)"
    using eq assms by (simp add: word_less_nat_alt)
qed

lemma align_add:
  assumes "4 dvd a"
  shows "LWIP_MEM_ALIGN_SIZE (a + n) = a + LWIP_MEM_ALIGN_SIZE n"
proof -
  obtain k where k: "a = 4 * k" using assms by (auto elim: dvdE)
  have "4 * k + n + 4 - 1 = (n + 3) + k * 4" by simp
  then have "(4 * k + n + 4 - 1) div 4 = k + (n + 3) div 4" by simp
  then show ?thesis by (simp add: k LWIP_MEM_ALIGN_SIZE_def MEM_ALIGNMENT_def)
qed

text \<open>The loop of \<open>pbuf_alloc\<close> after \<open>qs\<close> has been built on top of the store \<open>m\<close>.\<close>

definition pool_built :: "(addr \<Rightarrow> pbuf option) \<Rightarrow> pb_state \<Rightarrow> addr \<Rightarrow> addr list \<Rightarrow> nat \<Rightarrow> bool" where
  "pool_built m s p qs r \<longleftrightarrow> linked (nexts s) p qs \<and> tot_ok (pbufs s) r qs
     \<and> (\<forall>q \<in> set qs. pool_fresh (pbufs s) q) \<and> set qs \<inter> dom m = {}
     \<and> (\<forall>a. a \<notin> set qs \<longrightarrow> pbufs s a = m a)"

lemma pool_fail:
  assumes inv: "pb_inv dR dP s" and b: "pool_built m s p qs r"
    and q: "do_memp_malloc_pool (pool_pool s) = (NULL, pool)"
  shows "\<exists>s'. pbuf_alloc_pool_loop p lst rem_len off s = Some (NULL, s') \<and> pb_inv dR dP s'
     \<and> pbufs s' = m \<and> bytes s' = bytes s"
proof -
  let ?s = "pbuf_pool_is_empty (s\<lparr>pool_pool := pool\<rparr>)"
  have inv1: "pb_inv dR dP ?s"
    using pool_malloc_inv [OF inv q, of "new_pbuf 0 0 0 PBUF_POOL 0"]
    by (subst pb_inv_cong [of ?s "s\<lparr>pool_pool := pool\<rparr>"]) simp_all
  have lk: "linked (nexts ?s) p qs" using b by (simp add: pool_built_def)
  have fr: "\<forall>x \<in> set qs. pb_ref (pb s x) = 1 \<and> src_ok (pb s x)"
    using b src_of_2_ok by (auto simp: pool_built_def pool_fresh_def Let_def)
  obtain s' where s': "pbuf_free p ?s = Some (of_nat (length (freed ?s qs)), s')" "pb_inv dR dP s'"
    "pbufs s' = free_store (pbufs ?s) qs" "bytes s' = bytes ?s"
    using pbuf_free_ok [OF inv1 lk] fr by auto
  have "pbufs s' = m"
  proof
    fix a
    show "pbufs s' a = m a"
      using s'(3) free_store_all [OF linked_distinct [OF lk], of "pbufs s" a] fr b
      by (cases "m a") (auto simp: pool_built_def)
  qed
  moreover have "pbuf_alloc_pool_loop p lst rem_len off s = Some (NULL, s')"
    by (subst pbuf_alloc_pool_loop.simps) (use s'(1) q in \<open>auto simp: Let_def pbuf_free_def\<close>)
  ultimately show ?thesis using s' by auto
qed

text \<open>One round of the loop: a new pbuf at the end of the chain.\<close>

lemma pool_step:
  assumes inv: "pb_inv dR dP s" and b: "pool_built m s p qs (unat r)"
    and lst: "qs \<noteq> [] \<Longrightarrow> lst = last qs"
    and q: "do_memp_malloc_pool (pool_pool s) = (q, pool)" "q \<noteq> NULL"
    and room: "LWIP_MEM_ALIGN_SIZE (unat off) < 1600"
  defines "l \<equiv> pool_qlen r off"
  defines "s1 \<equiv> putp q (new_pbuf (LWIP_MEM_ALIGN_SIZE (q + SIZEOF_STRUCT_PBUF + unat off)) r l PBUF_POOL 0)
                  (s\<lparr>pool_pool := pool\<rparr>)"
  defines "s2 \<equiv> (if p = NULL then s1 else putp lst ((pb s1 lst)\<lparr>pb_next := q\<rparr>) s1)"
  shows "pb_inv dR dP s2" and "pool_built m s2 (if p = NULL then q else p) (qs @ [q]) (unat (r - l))"
    and "p \<noteq> NULL \<Longrightarrow> getp lst s1 = Some (pb s1 lst)" and "bytes s2 = bytes s"
    and "sum_len (pbufs s2) (qs @ [q]) = sum_len (pbufs s) qs + unat l"
proof -
  have bb: "linked (nexts s) p qs" "tot_ok (pbufs s) (unat r) qs" "\<forall>x \<in> set qs. pool_fresh (pbufs s) x"
    "set qs \<inter> dom m = {}" "\<forall>a. a \<notin> set qs \<longrightarrow> pbufs s a = m a"
    using b by (auto simp: pool_built_def)
  have new: "q \<notin> dom (pbufs s)" by (rule pool_elem_new [OF inv q])
  have dq: "set qs \<subseteq> dom (pbufs s)" using linked_in_dom [OF bb(1)] by (auto simp: dom_def)
  have nq: "q \<notin> set qs" using new dq by auto
  have inv1: "pb_inv dR dP s1" using pool_malloc_inv [OF inv q(1)] q(2) by (auto simp: s1_def)
  have p: "p = NULL \<longleftrightarrow> qs = []" using bb(1) by (cases qs) auto
  show g: "p \<noteq> NULL \<Longrightarrow> getp lst s1 = Some (pb s1 lst)"
  proof -
    assume "p \<noteq> NULL"
    then have "lst \<in> set qs" using lst p by simp
    then show ?thesis
      using dq nq linked_nonnull [OF bb(1)] by (cases "lst = NULL") (auto simp: getp_def s1_def)
  qed
  then show inv2: "pb_inv dR dP s2"
    using putp_inv [OF inv1, of lst "pb s1 lst" "(pb s1 lst)\<lparr>pb_next := q\<rparr>"] inv1
    by (auto simp: s2_def getp_some src_of_def is_custom_def pbuf_get_allocsrc_def)
  show "bytes s2 = bytes s" by (simp add: s2_def s1_def)
  have al: "4 dvd q" using memp.alloc_ok [OF _ q, of dP "srcs 2 s"] inv pool_elems_aligned
    by (auto simp: pb_inv_def pool_inv_def)
  have pay: "LWIP_MEM_ALIGN_SIZE (q + 16 + unat off) = q + 16 + LWIP_MEM_ALIGN_SIZE (unat off)"
    using al align_add [of "q + 16" "unat off"] by simp
  have ql: "unat l = min (unat r) (1600 - LWIP_MEM_ALIGN_SIZE (unat off))"
    unfolding l_def by (rule pool_qlen_props(1) [OF room])
  then have lr: "unat (r - l) = unat r - unat l" by (intro unat_sub_le) (simp add: word_le_nat_alt)
  have m2: "pbufs s2 q = Some (new_pbuf (q + 16 + LWIP_MEM_ALIGN_SIZE (unat off)) r l PBUF_POOL 0)"
    using nq lst p by (auto simp: s2_def s1_def pay)
  have m2o: "a \<noteq> q \<Longrightarrow> pbufs s2 a = (if p \<noteq> NULL \<and> a = lst then Some ((pb s lst)\<lparr>pb_next := q\<rparr>) else pbufs s a)" for a
    using nq lst p by (auto simp: s2_def s1_def)
  have old: "blen (pbufs s2) x = blen (pbufs s) x" "tlen (pbufs s2) x = tlen (pbufs s) x"
    "pool_fresh (pbufs s2) x = pool_fresh (pbufs s) x" if "x \<in> set qs" for x
  proof -
    have "x \<noteq> q" using that nq by auto
    from m2o [OF this] have e: "pb s2 x = pb s x \<or> pb s2 x = (pb s x)\<lparr>pb_next := q\<rparr>" by auto
    show "blen (pbufs s2) x = blen (pbufs s) x" "tlen (pbufs s2) x = tlen (pbufs s) x"
      using e by (auto simp: blen_def tlen_def)
    have "src_of (pb s2 x) = src_of (pb s x)" by (rule src_of_cong) (use e in auto)
    then show "pool_fresh (pbufs s2) x = pool_fresh (pbufs s) x"
      using e by (auto simp: pool_fresh_def Let_def)
  qed
  show sl: "sum_len (pbufs s2) (qs @ [q]) = sum_len (pbufs s) qs + unat l"
    using sum_len_cong [of qs "pbufs s2" "pbufs s"] old(1) m2 by (simp add: blen_def)
  have "tot_ok (pbufs s2) (unat (r - l)) (qs @ [q])"
  proof -
    have "unat l + (unat r - unat l) = unat r" using ql by simp
    then have "tot_ok (pbufs s2) (blen (pbufs s2) q + unat (r - l)) qs"
      using tot_ok_cong [of qs "pbufs s2" "pbufs s"] old(1,2) bb(2) m2 lr by (simp add: blen_def)
    then show ?thesis using m2 lr ql by (simp add: tot_ok_append blen_def tlen_def)
  qed
  moreover have "pool_fresh (pbufs s2) q" using m2 ql room by (auto simp: pool_fresh_def Let_def)
  moreover have "linked (nexts s2) (if p = NULL then q else p) (qs @ [q])"
  proof (cases "p = NULL")
    case True
    then show ?thesis using p m2 q(2) by simp
  next
    case False
    then obtain xs where xs: "qs = xs @ [lst]" using lst p by (metis append_butlast_last_id)
    have "linked ((nexts s)(q := Some NULL)) p (xs @ [lst])" using bb(1) nq xs by simp
    moreover have "linked ((nexts s)(q := Some NULL)) q [q]" using q(2) by simp
    ultimately have "linked ((nexts s)(q := Some NULL, lst := Some q)) p (xs @ lst # [q])"
      by (rule linked_join) (use nq xs in auto)
    moreover have "nexts s2 = (nexts s)(q := Some NULL, lst := Some q)"
      using m2 m2o False nq xs dq by (intro ext) auto
    ultimately show ?thesis using False xs by simp
  qed
  ultimately show "pool_built m s2 (if p = NULL then q else p) (qs @ [q]) (unat (r - l))"
    using bb old(3) m2o nq lst p new by (auto simp: pool_built_def)
qed

lemma pool_loop_ok:
  assumes "pb_inv dR dP s" and "pool_built m s p qs (unat r)" and "qs \<noteq> [] \<Longrightarrow> lst = last qs"
    and "LWIP_MEM_ALIGN_SIZE (unat off) < 1600" and "qs \<noteq> [] \<Longrightarrow> 0 < r"
  shows "\<exists>h s'. pbuf_alloc_pool_loop p lst r off s = Some (h, s') \<and> pb_inv dR dP s' \<and> bytes s' = bytes s
     \<and> (if h = NULL then pbufs s' = m
        else \<exists>rs. rs \<noteq> [] \<and> pool_built m s' h rs 0 \<and> sum_len (pbufs s') rs = sum_len (pbufs s) qs + unat r)"
  using assms
proof (induction "unat r" arbitrary: p lst r off s qs rule: less_induct)
  case less
  obtain q pool where q: "do_memp_malloc_pool (pool_pool s) = (q, pool)" by fastforce
  show ?case
  proof (cases "q = NULL")
    case True
    then show ?thesis using pool_fail [OF less.prems(1,2)] q by fastforce
  next
    case False
    define l where "l = pool_qlen r off"
    define s1 where "s1 = putp q (new_pbuf (LWIP_MEM_ALIGN_SIZE (q + SIZEOF_STRUCT_PBUF + unat off)) r l PBUF_POOL 0)
                  (s\<lparr>pool_pool := pool\<rparr>)"
    define s2 where "s2 = (if p = NULL then s1 else putp lst ((pb s1 lst)\<lparr>pb_next := q\<rparr>) s1)"
    let ?p = "if p = NULL then q else p"
    note st = pool_step [OF less.prems(1,2,3) q False less.prems(4), folded l_def, folded s1_def,
        folded s2_def]
    have step: "pbuf_alloc_pool_loop p lst r off s =
        (if r - l > 0 then pbuf_alloc_pool_loop ?p q (r - l) 0 s2 else Some (?p, s2))"
      using q False st(3)
      by (subst pbuf_alloc_pool_loop.simps)
        (simp add: init_alloced_eq l_def [symmetric] s1_def [symmetric] s2_def Let_def
          del: SIZEOF_STRUCT_PBUF_val)
    show ?thesis
    proof (cases "r - l > 0")
      case True
      have ul: "unat l = min (unat r) (1600 - LWIP_MEM_ALIGN_SIZE (unat off))"
        unfolding l_def by (rule pool_qlen_props(1) [OF less.prems(4)])
      have "r \<noteq> 0"
      proof
        assume "r = 0"
        then have "l = 0" using ul by (simp add: unat_eq_0)
        then show False using True \<open>r = 0\<close> by simp
      qed
      then have "unat l \<le> unat r" "0 < unat l" using less.prems(4) ul by (auto simp: unat_gt_0)
      then have lt: "unat (r - l) < unat r" by (simp add: unat_sub_le word_le_nat_alt)
      have "LWIP_MEM_ALIGN_SIZE (unat (0 :: u16)) < 1600" by simp
      from less.hyps [OF lt st(1,2) _ this, of q] True obtain h s' where
        "pbuf_alloc_pool_loop ?p q (r - l) 0 s2 = Some (h, s')" "pb_inv dR dP s'" "bytes s' = bytes s2"
        "if h = NULL then pbufs s' = m
         else \<exists>rs. rs \<noteq> [] \<and> pool_built m s' h rs 0
           \<and> sum_len (pbufs s') rs = sum_len (pbufs s2) (qs @ [q]) + unat (r - l)"
        by auto
      then show ?thesis
        using step True st(4,5) \<open>unat l \<le> unat r\<close> by (auto simp: unat_sub_le word_le_nat_alt)
    next
      case fin: False
      then have "r = l" by (simp add: word_less_nat_alt unat_eq_0)
      moreover have "?p \<noteq> NULL" using False by auto
      ultimately show ?thesis
        using step fin st(1,2,4,5) by (auto intro!: exI [of _ "qs @ [q]"])
    qed
  qed
qed

lemma pbuf_alloc_pool_ok:
  assumes "pb_inv dR dP s" and "LWIP_MEM_ALIGN_SIZE (unat layer) < 1600"
  shows "\<exists>h s'. pbuf_alloc layer n PBUF_POOL s = Some (h, s') \<and> pb_inv dR dP s' \<and> bytes s' = bytes s
     \<and> (if h = NULL then pbufs s' = pbufs s
        else \<exists>rs. rs \<noteq> [] \<and> pool_built (pbufs s) s' h rs 0 \<and> sum_len (pbufs s') rs = unat n)"
proof -
  have "pool_built (pbufs s) s NULL [] (unat n)" by (simp add: pool_built_def)
  from pool_loop_ok [OF assms(1) this _ assms(2), of NULL] show ?thesis
    unfolding pbuf_alloc_def pbuf_type.case sum_len_simps(1) add_0 by simp
qed

text \<open>Allocation in the heap and of references.\<close>

lemma pbuf_alloc_ram_ok:
  assumes inv: "pb_inv dR dP s"
  shows "\<exists>p s'. pbuf_alloc layer n PBUF_RAM s = Some (p, s') \<and> pb_inv dR dP s' \<and> bytes s' = bytes s
     \<and> (if p = NULL then pbufs s' = pbufs s
        else p \<notin> dom (pbufs s) \<and> pbufs s' = (pbufs s)(p \<mapsto>
          new_pbuf (p + 16 + LWIP_MEM_ALIGN_SIZE (unat layer)) n n PBUF_RAM 0)
         \<and> ram (pb_heap s) \<le> p \<and> p + 16 + LWIP_MEM_ALIGN_SIZE (unat layer) + unat n \<le> ram (pb_heap s) + ram_end
         \<and> (\<forall>L q m. heap_live (pb_heap s) L \<and> (q, m) \<in> L \<longrightarrow>
              p + 16 + LWIP_MEM_ALIGN_SIZE (unat layer) + unat n \<le> q \<or> q + m \<le> p))"
proof -
  let ?a = "LWIP_MEM_ALIGN_SIZE (unat layer)" and ?l = "LWIP_MEM_ALIGN_SIZE (unat n)"
  have "?a < 65540" "?l < 65540" "unat n \<le> ?l"
    using align_size_lt [of "unat layer"] align_size_lt [of "unat n"] unat_u16_less [of layer]
      unat_u16_less [of n] align_size_ge [of "unat n"] by linarith+
  then have small: "(?a + ?l) mod 2 ^ 32 = ?a + ?l" "(16 + (?a + ?l)) mod 2 ^ 32 = 16 + (?a + ?l)"
    "16 + (?a + ?l) < 2 ^ 32" and nl: "unat n \<le> ?l" by simp_all
  obtain L where L: "heap_live (pb_heap s) L" using inv by (auto simp: pb_inv_def heap_part_def)
  obtain p h where m: "mem_malloc [] (16 + (?a + ?l)) (pb_heap s) = Some (p, h)"
    using mem.malloc_returns [OF L small(3)] by blast
  let ?b = "new_pbuf (LWIP_MEM_ALIGN_SIZE (p + SIZEOF_STRUCT_PBUF + unat layer)) n n PBUF_RAM 0"
  have eq: "pbuf_alloc layer n PBUF_RAM s =
     (if p = NULL then Some (NULL, s\<lparr>pb_heap := h\<rparr>) else Some (p, putp p ?b (s\<lparr>pb_heap := h\<rparr>)))"
    using m small by (simp add: pbuf_alloc_def pbuf_alloc_ram_def Let_def init_alloced_eq)
  note hi = heap_malloc_inv [OF inv m small(3), of ?b]
  show ?thesis
  proof (cases "p = NULL")
    case True
    then show ?thesis using eq hi by simp
  next
    case False
    obtain k where k: "16 + (?a + ?l) \<le> k" "heap_live h (insert (p, k) L)"
      using mem.malloc_ok [OF L small(3) m False] by blast
    have "4 dvd p" using mem.live [OF k(2), of p k] by simp
    then have "LWIP_MEM_ALIGN_SIZE (p + SIZEOF_STRUCT_PBUF + unat layer) = p + 16 + ?a"
      using align_add [of "p + 16" "unat layer"] by simp
    moreover have "ram (pb_heap s) \<le> p \<and> p + 16 + ?a + unat n \<le> ram (pb_heap s) + ram_end"
      using heap_live_place [OF k(2), of p k] mem_malloc_ram [OF L small(3) m] k(1) nl by auto
    moreover have "p + 16 + ?a + unat n \<le> q \<or> q + j \<le> p" if "heap_live (pb_heap s) L'" "(q, j) \<in> L'" for L' q j
      using mem.malloc_fresh(2) [OF that(1) small(3) m False that(2)] nl by auto
    ultimately show ?thesis using eq hi False by auto
  qed
qed

section \<open>Chains\<close>

definition cat_store :: "(addr \<Rightarrow> pbuf option) \<Rightarrow> addr list \<Rightarrow> addr \<Rightarrow> u16 \<Rightarrow> addr \<Rightarrow> pbuf option" where
  "cat_store m hs t T a =
     (if a \<in> set hs then
        Some ((the (m a))\<lparr>pb_tot_len := pb_tot_len (the (m a)) + T,
                         pb_next := if a = last hs then t else pb_next (the (m a))\<rparr>)
      else m a)"

lemma pb_state_pbufs_eqI: "pbufs s = m \<Longrightarrow> s\<lparr>pbufs := m\<rparr> = s"
  by simp

lemma pbuf_cat_loop_eq:
  assumes "linked (nexts s) p hs" and "hs \<noteq> []" and "t \<notin> set hs" and "getp t s = Some bt"
  shows "pbuf_cat_loop p t s = Some (s\<lparr>pbufs := cat_store (pbufs s) hs t (pb_tot_len bt)\<rparr>)"
  using assms
proof (induction hs arbitrary: p s)
  case Nil
  then show ?case by simp
next
  case (Cons h hs)
  note l = linked_pb [OF Cons.prems(1)]
  have g: "getp p s = Some (pb s h)" using l by (simp add: getp_def)
  have d: "h \<notin> set hs" using linked_distinct [OF Cons.prems(1)] by simp
  have n: "pb_next (pb s h) = NULL \<longleftrightarrow> hs = []" using l(4) by (cases hs) auto
  show ?case
  proof (cases "hs = []")
    case True
    then have "pbuf_cat_loop p t s = Some (putp h ((pb s h)\<lparr>pb_tot_len := pb_tot_len (pb s h) + pb_tot_len bt,
        pb_next := t\<rparr>) s)"
      using g n l(1) Cons.prems(4) by (subst pbuf_cat_loop.simps) simp
    also have "putp h ((pb s h)\<lparr>pb_tot_len := pb_tot_len (pb s h) + pb_tot_len bt, pb_next := t\<rparr>) s
        = s\<lparr>pbufs := cat_store (pbufs s) (h # hs) t (pb_tot_len bt)\<rparr>"
      using True by (auto simp: putp_def cat_store_def fun_eq_iff)
    finally show ?thesis .
  next
    case False
    let ?s = "putp h ((pb s h)\<lparr>pb_tot_len := pb_tot_len (pb s h) + pb_tot_len bt\<rparr>) s"
    have lk: "linked (nexts ?s) (pb_next (pb s h)) hs"
      using l(4) linked_putp [OF l(3)] by simp
    have gt: "getp t ?s = Some bt" using Cons.prems(3,4) by (auto simp: getp_def split: if_splits)
    have "pbuf_cat_loop p t s = pbuf_cat_loop (pb_next (pb s h)) t ?s"
      using g n l(1) Cons.prems(4) False by (subst pbuf_cat_loop.simps) simp
    also have "\<dots> = Some (?s\<lparr>pbufs := cat_store (pbufs ?s) hs t (pb_tot_len bt)\<rparr>)"
      by (rule Cons.IH [OF lk False _ gt]) (use Cons.prems(3) in simp)
    also have "?s\<lparr>pbufs := cat_store (pbufs ?s) hs t (pb_tot_len bt)\<rparr>
        = s\<lparr>pbufs := cat_store (pbufs s) (h # hs) t (pb_tot_len bt)\<rparr>"
    proof -
      have "cat_store (pbufs ?s) hs t (pb_tot_len bt) = cat_store (pbufs s) (h # hs) t (pb_tot_len bt)"
        by (rule ext) (use False d in \<open>auto simp: cat_store_def\<close>)
      then show ?thesis by (simp add: putp_def)
    qed
    finally show ?thesis .
  qed
qed

lemma cat_store_lens:
  assumes "tot_ok m 0 hs" and "sum_len m hs + unat T < 65536"
  shows "blen (cat_store m hs t T) a = blen m a"
    and "tot_ok (cat_store m hs t T) (unat T) hs"
proof -
  show b: "blen (cat_store m hs t T) a = blen m a" for a by (simp add: blen_def cat_store_def)
  have tl: "tlen (cat_store m hs t T) x = tlen m x + unat T" if "x \<in> set hs" "tlen m x + unat T < 65536" for x
    using that by (simp add: tlen_def cat_store_def unat_add_no_wrap)
  have "tot_ok (cat_store m hs t T) (unat T) xs"
    if "tot_ok m 0 xs" "set xs \<subseteq> set hs" "sum_len m xs + unat T < 65536" for xs
    using that
  proof (induction xs)
    case (Cons x xs)
    have "sum_len (cat_store m hs t T) xs = sum_len m xs" by (rule sum_len_cong) (rule b)
    then show ?case using Cons tl [of x] b [of x] by auto
  qed simp
  then show "tot_ok (cat_store m hs t T) (unat T) hs" using assms by auto
qed

lemma pbuf_cat_packet:
  assumes h: "packet s h hs" "hs \<noteq> []" and t: "packet s t ts" "ts \<noteq> []"
    and dj: "set hs \<inter> set ts = {}" and fits: "sum_len (pbufs s) hs + sum_len (pbufs s) ts < 65536"
  shows "\<exists>s'. pbuf_cat h t s = Some s' \<and> packet s' h (hs @ ts)
     \<and> pbufs s' = cat_store (pbufs s) hs t (pb_tot_len (pb s t)) \<and> bytes s' = bytes s
     \<and> s' = s\<lparr>pbufs := pbufs s'\<rparr>"
proof -
  obtain t' where ts: "ts = t # t'" using t by (cases ts) (auto simp: packet_def)
  have lt: "linked (nexts s) t (t # t')" and tt: "tot_ok (pbufs s) 0 ts" using t ts by (auto simp: packet_def)
  note lp = linked_pb [OF lt]
  have gt: "getp t s = Some (pb s t)" using lp by (simp add: getp_def)
  have nt: "t \<notin> set hs" using dj ts by auto
  have lh: "linked (nexts s) h hs" and th: "tot_ok (pbufs s) 0 hs" using h by (auto simp: packet_def)
  let ?m = "cat_store (pbufs s) hs t (pb_tot_len (pb s t))"
  have hn: "h \<noteq> NULL" "t \<noteq> NULL" using lh h(2) lp by (cases hs, auto)
  have eq: "pbuf_cat h t s = Some (s\<lparr>pbufs := ?m\<rparr>)"
    using pbuf_cat_loop_eq [OF lh h(2) nt gt] hn by (simp add: pbuf_cat_def)
  have T: "unat (pb_tot_len (pb s t)) = sum_len (pbufs s) ts" using tt ts by (simp add: tlen_def)
  have fit: "sum_len (pbufs s) hs + unat (pb_tot_len (pb s t)) < 65536" using fits T by simp
  note cs = cat_store_lens [OF th fit, of t]
  obtain xs where xs: "hs = xs @ [last hs]" using h(2) append_butlast_last_id by metis
  have "linked ((nexts s)(last hs := Some t)) h (xs @ last hs # ts)"
    by (rule linked_join) (use lh xs lt ts dj in \<open>auto simp: Int_Un_distrib2\<close>)
  moreover have "linked (\<lambda>a. map_option pb_next (?m a)) h (hs @ ts)
      = linked ((nexts s)(last hs := Some t)) h (hs @ ts)"
    by (rule linked_cong)
      (use linked_in_dom [OF lh] h(2) in \<open>force simp: cat_store_def split: if_splits\<close>)
  moreover have "xs @ last hs # ts = hs @ ts" using xs by (metis append.assoc append_Cons append_Nil)
  ultimately have "linked (\<lambda>a. map_option pb_next (?m a)) h (hs @ ts)" by metis
  moreover have "tot_ok ?m 0 (hs @ ts)"
  proof -
    have "tlen ?m x = tlen (pbufs s) x" if "x \<in> set ts" for x
      using that dj by (auto simp: tlen_def cat_store_def)
    then have "tot_ok ?m 0 ts" using tot_ok_cong [of ts ?m "pbufs s"] cs(1) tt by simp
    moreover have "sum_len ?m ts = sum_len (pbufs s) ts" by (rule sum_len_cong) (rule cs(1))
    ultimately show ?thesis using cs(2) T by (simp add: tot_ok_append)
  qed
  ultimately show ?thesis using eq by (auto simp: packet_def)
qed

lemma pbuf_clen_loop_eq:
  "linked (nexts s) p qs \<Longrightarrow> pbuf_clen_loop p n s = Some (n + of_nat (length qs))"
proof (induction qs arbitrary: p n)
  case Nil
  then show ?case by (simp add: pbuf_clen_loop.simps)
next
  case (Cons q qs)
  note l = linked_pb [OF Cons.prems]
  have g: "getp q s = Some (pb s q)" using l by (simp add: getp_def)
  have "pbuf_clen_loop p n s = pbuf_clen_loop (pb_next (pb s q)) (n + 1) s"
    using l(1,2) g by (subst pbuf_clen_loop.simps) simp
  then show ?case using Cons.IH [OF l(4)] by (simp add: ac_simps)
qed

text \<open>\<open>pbuf_dechain\<close> undoes \<open>pbuf_chain\<close> on a single pbuf, down to the last field.\<close>

lemma chain_dechain:
  assumes h: "packet s h [h]" and t: "packet s t ts" and th: "t \<noteq> NULL" "t \<noteq> h"
    and r: "0 < pb_ref (pb s t)" "pb_ref (pb s t) < 255"
  shows "\<exists>s1. pbuf_chain h t s = Some s1 \<and> pbuf_dechain h s1 = Some (t, s)"
proof -
  define bh where "bh = pb s h"
  define bt where "bt = pb s t"
  have bh: "pbufs s h = Some bh" "h \<noteq> NULL" "pb_next bh = NULL" "pb_tot_len bh = pb_len bh"
    using h by (auto simp: packet_def bh_def tlen_def blen_def word_unat_eq_iff)
  obtain t' where ts: "ts = t # t'" using t th by (cases ts) (auto simp: packet_def)
  have bt: "pbufs s t = Some bt" using t ts linked_pb(3) [of s t t t'] by (auto simp: packet_def bt_def)
  let ?bh = "bh\<lparr>pb_tot_len := pb_tot_len bh + pb_tot_len bt, pb_next := t\<rparr>"
  let ?s1 = "putp t (bt\<lparr>pb_ref := pb_ref bt + 1\<rparr>) (putp h ?bh s)"
  have c: "pbuf_chain h t s = Some ?s1"
    using bh bt th
    by (auto simp: pbuf_chain_def pbuf_cat_def pbuf_cat_loop.simps [of h] getp_def pbuf_ref_def)
  have nz: "pb_ref bt + 1 - 1 = pb_ref bt" "pb_ref bt \<noteq> 0" using r by (auto simp: bt_def)
  let ?s2 = "putp h (?bh\<lparr>pb_next := NULL, pb_tot_len := pb_len bh\<rparr>)
              (putp t (bt\<lparr>pb_ref := pb_ref bt + 1, pb_tot_len := pb_tot_len bt\<rparr>) ?s1)"
  have f: "pbuf_free t ?s2 = Some (0, putp t bt ?s2)"
    using th nz by (simp add: pbuf_free_def pbuf_free_loop.simps [of t] getp_def Let_def)
  have "putp t bt ?s2 = s"
    using bh bt th by (auto simp: putp_def fun_eq_iff intro!: pb_state_pbufs_eqI)
  moreover have "pbuf_dechain h ?s1 = Some (t, putp t bt ?s2)"
    using f bh bt th by (simp add: pbuf_dechain_def getp_def Let_def)
  ultimately show ?thesis using c by simp
qed

section \<open>Truncation\<close>

definition sub_store :: "(addr \<Rightarrow> pbuf option) \<Rightarrow> addr list \<Rightarrow> u16 \<Rightarrow> addr \<Rightarrow> pbuf option" where
  "sub_store m xs k a =
     (if a \<in> set xs then Some ((the (m a))\<lparr>pb_tot_len := pb_tot_len (the (m a)) - k\<rparr>) else m a)"

lemma sub_store_simps [simp]:
  "sub_store m [] k = m" "a \<notin> set xs \<Longrightarrow> sub_store m xs k a = m a"
  "blen (sub_store m xs k) a = blen m a"
  by (auto simp: sub_store_def blen_def)

lemma pbuf_realloc_loop_ok:
  assumes "linked (nexts s) p qs" and "qs \<noteq> []" and "unat r \<le> sum_len (pbufs s) qs"
  shows "\<exists>xs q ys r'. qs = xs @ q # ys
     \<and> pbuf_realloc_loop p r k s = Some (q, r', s\<lparr>pbufs := sub_store (pbufs s) xs k\<rparr>)
     \<and> unat r = sum_len (pbufs s) xs + unat r' \<and> r' \<le> pb_len (pb s q)"
  using assms
proof (induction qs arbitrary: p r s)
  case Nil
  then show ?case by simp
next
  case (Cons q qs)
  note l = linked_pb [OF Cons.prems(1)]
  have g: "getp p s = Some (pb s q)" using l by (simp add: getp_def)
  show ?case
  proof (cases "pb_len (pb s q) < r")
    case False
    then have "pbuf_realloc_loop p r k s = Some (q, r, s)"
      using g l(1) by (subst pbuf_realloc_loop.simps) simp
    then show ?thesis
      using False by (intro exI [of _ "[]"] exI [of _ q] exI [of _ qs] exI [of _ r]) auto
  next
    case True
    let ?s = "putp q ((pb s q)\<lparr>pb_tot_len := pb_tot_len (pb s q) - k\<rparr>) s"
    have step: "pbuf_realloc_loop p r k s = pbuf_realloc_loop (pb_next (pb s q)) (r - pb_len (pb s q)) k ?s"
      using g l(1) True by (subst pbuf_realloc_loop.simps) simp
    have rr: "unat (r - pb_len (pb s q)) = unat r - blen (pbufs s) q"
      using True by (simp add: unat_sub_le blen_def)
    have lt: "blen (pbufs s) q < unat r" using True by (simp add: blen_def word_less_nat_alt)
    have ne: "qs \<noteq> []" using lt Cons.prems(3) by auto
    have d: "q \<notin> set qs" using linked_distinct [OF Cons.prems(1)] by simp
    have lk: "linked (nexts ?s) (pb_next (pb s q)) qs" using l(4) linked_putp [OF l(3)] by simp
    have bl: "blen (pbufs ?s) a = blen (pbufs s) a" for a by (simp add: blen_def)
    have sl: "sum_len (pbufs ?s) zs = sum_len (pbufs s) zs" for zs by (rule sum_len_cong) (rule bl)
    have "unat (r - pb_len (pb s q)) \<le> sum_len (pbufs ?s) qs"
      unfolding sl rr using Cons.prems(3) by simp
    from Cons.IH [OF lk ne this] obtain xs q' ys r' where ih: "qs = xs @ q' # ys"
      "pbuf_realloc_loop (pb_next (pb s q)) (r - pb_len (pb s q)) k ?s
         = Some (q', r', ?s\<lparr>pbufs := sub_store (pbufs ?s) xs k\<rparr>)"
      "unat (r - pb_len (pb s q)) = sum_len (pbufs ?s) xs + unat r'" "r' \<le> pb_len (pb ?s q')" by blast
    have "sub_store (pbufs ?s) xs k = sub_store (pbufs s) (q # xs) k"
      by (rule ext) (use d ih(1) in \<open>auto simp: sub_store_def\<close>)
    then have st: "?s\<lparr>pbufs := sub_store (pbufs ?s) xs k\<rparr> = s\<lparr>pbufs := sub_store (pbufs s) (q # xs) k\<rparr>"
      by (simp add: putp_def)
    have "unat r = sum_len (pbufs s) (q # xs) + unat r'" using ih(3) lt unfolding sl rr by simp
    moreover have "r' \<le> pb_len (pb s q')" using ih(4) d ih(1) by auto
    ultimately show ?thesis
      using step ih(1,2) unfolding st by (intro exI [of _ "q # xs"] exI [of _ q'] exI [of _ ys] exI [of _ r']) simp
  qed
qed

lemma mem_trim_inv:
  assumes inv: "pb_inv dR dP s" and b: "pbufs s q = Some b" "src_of b = 0" and n: "n < 2 ^ 32"
  shows "pb_inv dR dP (s\<lparr>pb_heap := snd (mem_trim q n (pb_heap s))\<rparr>)"
proof -
  let ?h = "snd (mem_trim q n (pb_heap s))" let ?s = "s\<lparr>pb_heap := snd (mem_trim q n (pb_heap s))\<rparr>"
  obtain L where L: "heap_live (pb_heap s) L" "srcs 0 s \<subseteq> fst ` L"
    "{p \<in> dom (pbufs s). in_heap (pb_heap s) p} \<subseteq> fst ` L"
    using inv by (auto simp: pb_inv_def heap_part_def)
  obtain bs where bs: "heap_ok (pb_heap s) bs" "L = regions (pb_heap s) bs" using L(1) by (auto simp: heap_live_def)
  have "q \<in> srcs 0 s" using b by (auto simp: srcs_def)
  then have "q \<in> used_ptrs (pb_heap s) bs" using L(2) bs(2) used_ptrs_regions by auto
  from mem_trim_ok [OF bs(1) this n] obtain bs' where bs': "heap_ok ?h bs'"
    "used_ptrs ?h bs' = used_ptrs (pb_heap s) bs" and ram: "ram ?h = ram (pb_heap s)" by blast
  have "heap_live ?h (regions ?h bs')" using bs'(1) by (auto simp: heap_live_def)
  moreover have "fst ` regions ?h bs' = fst ` L" using bs'(2) bs(2) by (simp add: used_ptrs_regions)
  ultimately have "heap_part ?s" unfolding heap_part_def
    using L(2,3) ram by (intro exI [of _ "regions ?h bs'"]) (simp add: in_heap_def srcs_def)
  then show ?thesis using inv ram by (simp add: pb_inv_def layout_def in_heap_def srcs_def)
qed

lemma sub_store_inv:
  assumes inv: "pb_inv dR dP s" and "set xs \<subseteq> dom (pbufs s)"
  shows "pb_inv dR dP (s\<lparr>pbufs := sub_store (pbufs s) xs k\<rparr>)"
proof -
  let ?s = "s\<lparr>pbufs := sub_store (pbufs s) xs k\<rparr>"
  have "map_option src_of (pbufs ?s a) = map_option src_of (pbufs s a)" for a
    using assms(2) by (cases "pbufs s a") (auto simp: sub_store_def intro: src_of_cong)
  then have "srcs j ?s = srcs j s" for j by (simp add: srcs_alt)
  moreover have "dom (pbufs ?s) = dom (pbufs s)" using assms(2) by (auto simp: sub_store_def split: if_splits)
  ultimately show ?thesis using inv by (simp add: pb_inv_def layout_def heap_part_def)
qed

lemma sub_store_tot_ok:
  assumes "tot_ok m (r + unat k) xs" and "set xs \<subseteq> set ys"
  shows "tot_ok (sub_store m ys k) r xs"
  using assms
proof (induction xs)
  case (Cons x xs)
  have "tlen (sub_store m ys k) x = tlen m x - unat k"
    using Cons.prems by (simp add: tlen_def sub_store_def unat_sub_le word_le_nat_alt)
  moreover have "sum_len (sub_store m ys k) xs = sum_len m xs" by (rule sum_len_cong) simp
  ultimately show ?case using Cons by auto
qed simp

lemma linked_prefix:
  assumes "linked nx p (xs @ q # ys)"
  shows "linked (nx(q := Some NULL)) p (xs @ [q])"
  using assms
proof (induction xs arbitrary: p)
  case (Cons x xs)
  have "x \<noteq> q" using linked_distinct [OF Cons.prems] by auto
  then show ?case using Cons by auto
qed simp

lemma linked_suffix: "linked nx p (xs @ q # ys) \<Longrightarrow> \<exists>n. nx q = Some n \<and> linked nx n ys"
  by (induction xs arbitrary: p) auto

lemma free_store_other: "a \<notin> set qs \<Longrightarrow> free_store m qs a = m a"
  by (induction m qs rule: free_store.induct) auto

lemma free_store_cong:
  "(\<And>x. x \<in> set qs \<Longrightarrow> m x = m' x) \<Longrightarrow> m a = m' a \<Longrightarrow> free_store m qs a = free_store m' qs a"
proof (induction m qs arbitrary: m' rule: free_store.induct)
  case (1 m)
  then show ?case by simp
next
  case (2 m q qs)
  have eq: "m q = m' q" using "2.prems"(1) by simp
  show ?case
  proof (cases "pb_ref (the (m q)) = 1")
    case True
    have "free_store (m(q := None)) qs a = free_store (m'(q := None)) qs a"
      by (rule "2.IH" [OF True]) (use "2.prems" in auto)
    then show ?thesis using True eq by simp
  next
    case False
    then show ?thesis using eq "2.prems"(2) by simp
  qed
qed

text \<open>
  \<open>pbuf_realloc\<close> to a smaller length: the chain is cut after the pbuf that holds the last byte
  kept, that pbuf is shortened, the total lengths are adjusted and the rest is released.
\<close>

lemma pbuf_realloc_ok:
  assumes inv: "pb_inv dR dP s" and pk: "packet s p qs" "qs \<noteq> []"
    and less: "unat n < sum_len (pbufs s) qs" and src: "\<forall>q \<in> set qs. src_ok (pb s q)"
  shows "\<exists>s' xs q ys. pbuf_realloc p n s = Some s' \<and> qs = xs @ q # ys \<and> packet s' p (xs @ [q])
     \<and> sum_len (pbufs s') (xs @ [q]) = unat n \<and> pb_inv dR dP s' \<and> bytes s' = bytes s
     \<and> (\<forall>x \<in> set (xs @ [q]). pb_payload (pb s' x) = pb_payload (pb s x))
     \<and> (\<forall>x \<in> set xs. blen (pbufs s') x = blen (pbufs s) x) \<and> blen (pbufs s') q \<le> blen (pbufs s) q
     \<and> (\<forall>a. a \<notin> set (xs @ [q]) \<longrightarrow> pbufs s' a = free_store (pbufs s) ys a)"
proof -
  have lk: "linked (nexts s) p qs" and tot: "tot_ok (pbufs s) 0 qs" using pk by (auto simp: packet_def)
  obtain q0 qt where q0: "qs = q0 # qt" using pk(2) by (cases qs) auto
  note l0 = linked_pb [OF lk [unfolded q0]]
  have g0: "getp p s = Some (pb s p)" using l0 by (simp add: getp_def)
  have T: "unat (pb_tot_len (pb s p)) = sum_len (pbufs s) qs" using tot l0(1) q0 by (simp add: tlen_def)
  define k where "k = pb_tot_len (pb s p) - n"
  have k: "unat k = sum_len (pbufs s) qs - unat n"
    unfolding k_def using less T by (subst unat_sub_le) (simp_all add: word_le_nat_alt)
  obtain xs q ys r where sp: "qs = xs @ q # ys"
    "pbuf_realloc_loop p n k s = Some (q, r, s\<lparr>pbufs := sub_store (pbufs s) xs k\<rparr>)"
    "unat n = sum_len (pbufs s) xs + unat r" "r \<le> pb_len (pb s q)"
    using pbuf_realloc_loop_ok [OF lk pk(2), of n k] less by auto
  define s1 where "s1 = s\<lparr>pbufs := sub_store (pbufs s) xs k\<rparr>"
  define b where "b = pb s q"
  have dist: "distinct (xs @ q # ys)" using linked_distinct [OF lk] sp(1) by simp
  have dom: "set qs \<subseteq> dom (pbufs s)" using linked_in_dom [OF lk] by (auto simp: dom_def)
  have b: "pbufs s q = Some b" "q \<noteq> NULL"
    using dom sp(1) linked_nonnull [OF lk] by (auto simp: b_def)
  have b1: "pbufs s1 q = Some b" using b dist by (simp add: s1_def)
  have inv1: "pb_inv dR dP s1" unfolding s1_def by (rule sub_store_inv [OF inv]) (use dom sp(1) in auto)
  define s2 where "s2 = (if pbuf_get_allocsrc b = 0 \<and> r \<noteq> pb_len b \<and> \<not> is_custom b then
      s1\<lparr>pb_heap := snd (mem_trim q ((sub32 (pb_payload b) q + unat r) mod 2 ^ 32) (pb_heap s1))\<rparr> else s1)"
  have inv2: "pb_inv dR dP s2"
    using mem_trim_inv [OF inv1 b1, of "(sub32 (pb_payload b) q + unat r) mod 2 ^ 32"] inv1
    by (auto simp: s2_def src_of_def)
  have p2: "pbufs s2 = pbufs s1" "bytes s2 = bytes s" by (simp_all add: s2_def s1_def)
  define s3 where "s3 = putp q (b\<lparr>pb_len := r, pb_tot_len := r\<rparr>) s2"
  have inv3: "pb_inv dR dP s3"
    unfolding s3_def by (rule putp_inv [OF inv2 _ src_of_cong]) (use b1 p2 in simp_all)
  have p3: "pbufs s3 a = (if a = q then Some (b\<lparr>pb_len := r, pb_tot_len := r\<rparr>)
      else if a \<in> set xs then Some ((pb s a)\<lparr>pb_tot_len := pb_tot_len (pb s a) - k\<rparr>) else pbufs s a)" for a
    by (simp add: s3_def p2 s1_def sub_store_def)
  have lky: "linked (nexts s) (pb_next b) ys" using linked_suffix [of "nexts s" p xs q ys] lk sp(1) b(1) by auto
  have "linked (nexts s3) x ys = linked (nexts s) x ys" for x
    by (rule linked_cong) (use dist in \<open>auto simp: p3\<close>)
  then have lk3: "linked (nexts s3) (pb_next b) ys" using lky by simp
  have y3: "pb s3 y = pb s y" if "y \<in> set ys" for y using that dist by (auto simp: p3)
  obtain s4 where s4: "pbuf_free (pb_next b) s3 = Some (of_nat (length (freed s3 ys)), s4)" "pb_inv dR dP s4"
    "pbufs s4 = free_store (pbufs s3) ys" "bytes s4 = bytes s3"
    using pbuf_free_ok [OF inv3 lk3] src sp(1) y3 by auto
  have fs: "pbufs s4 a = (if a \<in> set (xs @ [q]) then pbufs s3 a else free_store (pbufs s) ys a)" for a
  proof (cases "a \<in> set (xs @ [q])")
    case True
    then show ?thesis using free_store_other [of a ys "pbufs s3"] dist s4(3) by auto
  next
    case False
    have "free_store (pbufs s3) ys a = free_store (pbufs s) ys a"
      by (rule free_store_cong) (use False dist in \<open>auto simp: p3\<close>)
    then show ?thesis using False s4(3) by simp
  qed
  define s' where "s' = putp q (b\<lparr>pb_len := r, pb_tot_len := r, pb_next := NULL\<rparr>) s4"
  have g4: "getp q s4 = Some (b\<lparr>pb_len := r, pb_tot_len := r\<rparr>)" using b(2) fs [of q] p3 [of q] by (simp add: getp_def)
  have run: "pbuf_realloc p n s = Some s'"
  proof -
    have tail: "pb_next b = NULL \<Longrightarrow> s4 = s3" using s4(1) by (auto simp: pbuf_free_def)
    have "\<not> pb_tot_len (pb s p) \<le> n" using T less by (simp add: word_le_nat_alt)
    moreover have "getp q s1 = Some b" using b1 b(2) by (simp add: getp_def)
    ultimately show ?thesis
      using g0 sp(2) g4 tail s4(1)
      unfolding pbuf_realloc_def k_def [symmetric]
      by (cases "pb_next b = NULL") (simp_all add: k_def [symmetric] s1_def [symmetric] s2_def [symmetric] s3_def [symmetric] s'_def Let_def)
  qed
  have p': "pbufs s' a = (if a = q then Some (b\<lparr>pb_len := r, pb_tot_len := r, pb_next := NULL\<rparr>)
      else if a \<in> set xs then Some ((pb s a)\<lparr>pb_tot_len := pb_tot_len (pb s a) - k\<rparr>) else free_store (pbufs s) ys a)" for a
    using fs [of a] p3 [of a] by (auto simp: s'_def)
  have inv': "pb_inv dR dP s'"
    unfolding s'_def
    by (rule putp_inv [where b = "b\<lparr>pb_len := r, pb_tot_len := r\<rparr>", OF s4(2) _ src_of_cong])
      (use g4 in \<open>auto simp: getp_some\<close>)
  have bl: "blen (pbufs s') x = blen (pbufs s) x" if "x \<in> set xs" for x
    using that dist p' [of x] by (auto simp: blen_def)
  have blq: "blen (pbufs s') q = unat r" "tlen (pbufs s') q = unat r" using p' [of q] by (simp_all add: blen_def tlen_def)
  have sx: "sum_len (pbufs s') xs = sum_len (pbufs s) xs" by (rule sum_len_cong) (rule bl)
  have "linked (nexts s') p (xs @ [q])"
  proof -
    have "linked (nexts s') p (xs @ [q]) = linked ((nexts s)(q := Some NULL)) p (xs @ [q])"
      by (rule linked_cong) (use dom sp(1) dist in \<open>force simp: p'\<close>)
    then show ?thesis using linked_prefix lk sp(1) by simp
  qed
  moreover have "tot_ok (pbufs s') 0 (xs @ [q])"
  proof -
    have e: "sum_len (pbufs s) (q # ys) + 0 = unat r + unat k"
      using sp(1,3) k less by simp
    have "tot_ok (pbufs s) (unat r + unat k) xs" using tot sp(1) by (simp add: tot_ok_append e [simplified])
    then have "tot_ok (sub_store (pbufs s) xs k) (unat r) xs" by (rule sub_store_tot_ok) simp
    moreover have "tot_ok (pbufs s') (unat r) xs = tot_ok (sub_store (pbufs s) xs k) (unat r) xs"
      by (rule tot_ok_cong) (use dist p' in \<open>auto simp: blen_def tlen_def sub_store_def\<close>)
    ultimately show ?thesis using blq by (simp add: tot_ok_append)
  qed
  ultimately have "packet s' p (xs @ [q])" by (simp add: packet_def)
  moreover have "sum_len (pbufs s') (xs @ [q]) = unat n" using sx blq sp(3) by simp
  moreover have "unat r \<le> blen (pbufs s) q" using sp(4) by (simp add: blen_def word_le_nat_alt)
  moreover have "bytes s' = bytes s" using s4(4) p2(2) by (simp add: s'_def s3_def)
  ultimately show ?thesis
    using run sp(1) inv' bl blq dist p' by (intro exI [of _ s'] exI [of _ xs] exI [of _ q] exI [of _ ys]) (auto simp: b_def)
qed

section \<open>Headers\<close>

text \<open>When \<open>pbuf_add_header\<close> succeeds, and what it does.\<close>

lemma pbuf_add_header_cases:
  assumes b: "getp p s = Some b" and n: "0 < n" "n \<le> 0xFFFF" and pay: "n \<le> pb_payload b" "pb_payload b < 2 ^ 32"
    and nw: "unat (pb_tot_len b) + n < 65536"
  shows "pbuf_add_header_impl p n force s =
    (if (if pb_type_internal b AND PBUF_TYPE_FLAG_STRUCT_DATA_CONTIGUOUS \<noteq> 0
         then p + 16 \<le> pb_payload b - n else force)
     then Some (0, putp p (b\<lparr>pb_payload := pb_payload b - n, pb_len := pb_len b + of_nat n,
                             pb_tot_len := pb_tot_len b + of_nat n\<rparr>) s)
     else Some (1, s))"
proof -
  have u: "unat (of_nat n :: u16) = n" using n by (simp add: unat_of_nat_id)
  then have "\<not> of_nat n + pb_tot_len b < (of_nat n :: u16)" using nw by (simp add: word_less_add_wrap)
  moreover have "sub32 (pb_payload b) n = pb_payload b - n" using pay by (simp add: sub32_le)
  moreover have "p \<noteq> NULL" using b by (auto simp: getp_some)
  ultimately show ?thesis using b n by (auto simp: pbuf_add_header_impl_def Let_def)
qed

text \<open>Removing a header that was added gives back the same state.\<close>

lemma header_round_trip:
  assumes b: "getp p s = Some b" and pay: "n \<le> pb_payload b" "pb_payload b < 2 ^ 32"
    and len: "pb_len b \<le> pb_tot_len b" and add: "pbuf_add_header_impl p n force s = Some (0, s')"
  shows "pbuf_remove_header p n s' = Some (0, s)"
proof (cases "n = 0")
  case True
  then show ?thesis using add b by (auto simp: pbuf_add_header_impl_def pbuf_remove_header_def getp_some)
next
  case False
  have pn: "p \<noteq> NULL" "pbufs s p = Some b" using b by (auto simp: getp_some)
  have n: "n \<le> 0xFFFF" and nw: "\<not> of_nat n + pb_tot_len b < (of_nat n :: u16)"
    using add False pn b by (auto simp: pbuf_add_header_impl_def Let_def split: if_splits)
  have u: "unat (of_nat n :: u16) = n" using n by (simp add: unat_of_nat_id)
  have tot: "unat (pb_tot_len b) + n < 65536" using nw u by (simp add: word_less_add_wrap)
  have s': "s' = putp p (b\<lparr>pb_payload := pb_payload b - n, pb_len := pb_len b + of_nat n,
      pb_tot_len := pb_tot_len b + of_nat n\<rparr>) s"
    using add pbuf_add_header_cases [OF b _ n pay tot, of force] False by (auto split: if_splits)
  have "unat (pb_len b) + n < 65536" using tot len by (simp add: word_le_nat_alt)
  then have "(of_nat n :: u16) \<le> pb_len b + of_nat n"
    using u by (simp add: word_le_nat_alt unat_add_no_wrap)
  then have "pbuf_remove_header p n s' = Some (0, putp p b s')"
    using False n pn pay(1) by (simp add: s' pbuf_remove_header_def getp_def Let_def)
  moreover have "putp p b s' = s" using pn by (auto simp: s' putp_def fun_eq_iff intro!: pb_state_pbufs_eqI)
  ultimately show ?thesis by simp
qed

lemma remove_header_packet:
  assumes pk: "packet s p (p # qs)" and n: "n \<le> unat (pb_len (pb s p))"
  shows "\<exists>s'. pbuf_remove_header p n s = Some (0, s') \<and> packet s' p (p # qs)
     \<and> pbufs s' = (pbufs s)(p \<mapsto> (pb s p)\<lparr>pb_payload := pb_payload (pb s p) + n,
          pb_len := pb_len (pb s p) - of_nat n, pb_tot_len := pb_tot_len (pb s p) - of_nat n\<rparr>)
     \<and> bytes s' = bytes s"
proof -
  define b where "b = pb s p"
  have lk: "linked (nexts s) p (p # qs)" and t: "tot_ok (pbufs s) 0 (p # qs)" using pk by (auto simp: packet_def)
  have b: "pbufs s p = Some b" "p \<noteq> NULL" using linked_pb [OF lk] by (auto simp: b_def)
  have d: "p \<notin> set qs" using linked_distinct [OF lk] by simp
  let ?b = "b\<lparr>pb_payload := pb_payload b + n, pb_len := pb_len b - of_nat n, pb_tot_len := pb_tot_len b - of_nat n\<rparr>"
  have nn: "n \<le> 65535" using n unat_u16_less [of "pb_len (pb s p)"] by linarith
  then have u: "unat (of_nat n :: u16) = n" by (simp add: unat_of_nat_id)
  have le: "(of_nat n :: u16) \<le> pb_len b" using n u by (simp add: word_le_nat_alt b_def)
  have "(if n = 0 then s else putp p ?b s) = putp p ?b s"
    using b by (auto simp: putp_def fun_eq_iff intro!: pb_state_pbufs_eqI [symmetric])
  then have run: "pbuf_remove_header p n s = Some (0, putp p ?b s)"
    using b le nn by (auto simp: pbuf_remove_header_def getp_def Let_def split: if_splits)
  have tl: "unat (pb_tot_len b) = unat (pb_len b) + sum_len (pbufs s) qs" using t by (simp add: b_def tlen_def blen_def)
  then have le2: "(of_nat n :: u16) \<le> pb_tot_len b" using le by (simp add: word_le_nat_alt)
  have bl: "blen (pbufs (putp p ?b s)) q = blen (pbufs s) q" "tlen (pbufs (putp p ?b s)) q = tlen (pbufs s) q"
    if "q \<in> set qs" for q using that d by (auto simp: blen_def tlen_def)
  have "tot_ok (pbufs (putp p ?b s)) 0 qs"
    using tot_ok_cong [of qs "pbufs (putp p ?b s)" "pbufs s" 0] bl t by simp
  moreover have "sum_len (pbufs (putp p ?b s)) qs = sum_len (pbufs s) qs" by (rule sum_len_cong) (rule bl)
  ultimately have "tot_ok (pbufs (putp p ?b s)) 0 (p # qs)"
    using tl le le2 u n by (simp add: tlen_def blen_def unat_sub_le b_def del: putp_simps)
     (simp add: unat_sub_le b_def)
  moreover have "linked (nexts (putp p ?b s)) p (p # qs)" using lk linked_putp [OF b(1), of ?b] by simp
  ultimately show ?thesis using run by (auto simp: packet_def b_def)
qed

section \<open>Properties\<close>

text \<open>A store with two custom pbufs, the second shared, and all pools free, for the witnesses.\<close>

definition demo_dR :: memp_desc where "demo_dR = \<lparr>md_size = 16, md_num = 2, md_base = 300000\<rparr>"
definition demo_dP :: memp_desc where "demo_dP = \<lparr>md_size = 1616, md_num = 4, md_base = 400000\<rparr>"

definition demo_b1 :: pbuf where
  "demo_b1 = \<lparr>pb_next = 200, pb_payload = 1000, pb_tot_len = 10, pb_len = 6, pb_type_internal = 0x41,
     pb_flags = 2, pb_ref = 1, pb_if_idx = 0\<rparr>"

definition demo_b2 :: pbuf where
  "demo_b2 = \<lparr>pb_next = 0, pb_payload = 2000, pb_tot_len = 4, pb_len = 4, pb_type_internal = 0x41,
     pb_flags = 2, pb_ref = 2, pb_if_idx = 0\<rparr>"

definition demo_b3 :: pbuf where
  "demo_b3 = \<lparr>pb_next = 0, pb_payload = 3000, pb_tot_len = 5, pb_len = 5, pb_type_internal = 0x41,
     pb_flags = 2, pb_ref = 1, pb_if_idx = 0\<rparr>"

definition demo_pb :: pb_state where
  "demo_pb = \<lparr>pbufs = [100 \<mapsto> demo_b1, 200 \<mapsto> demo_b2, 300 \<mapsto> demo_b3], bytes = (\<lambda>a. of_nat a),
     pool_ref = memp_init_pool demo_dR memp_pool_zero, pool_pool = memp_init_pool demo_dP memp_pool_zero,
     pb_heap = demo_heap, custom_freed = [], pbuf_free_ooseq_pending = False, pb_cb_ok = True, pb_cb_posted = 0\<rparr>"

lemma demo_pbufs:
  "pbufs demo_pb = [100 \<mapsto> demo_b1, 200 \<mapsto> demo_b2, 300 \<mapsto> demo_b3]"
  "is_custom demo_b1" "is_custom demo_b2" "is_custom demo_b3"
  "src_ok demo_b1" "src_ok demo_b2" "src_ok demo_b3"
  by (simp_all add: demo_pb_def is_custom_def src_ok_def demo_b1_def demo_b2_def demo_b3_def const_defs)

lemma demo_pb_inv: "pb_inv demo_dR demo_dP demo_pb"
proof -
  have s: "srcs k demo_pb = {}" if "k \<noteq> 255" for k
    using that demo_pbufs(2-4) by (auto simp: srcs_def demo_pbufs(1) src_of_def split: if_splits)
  have wf: "wf_desc demo_dR" "wf_desc demo_dP" by (simp_all add: wf_desc_def demo_dR_def demo_dP_def)
  have lo: "300000 \<le> p \<and> p \<le> 300016" if "p \<in> pool_elems demo_dR" for p
    using that by (auto simp: pool_elems_def pool_elem_def demo_dR_def)
  have hi: "400000 \<le> p" if "p \<in> pool_elems demo_dP" for p
    using that by (auto simp: pool_elems_def pool_elem_def demo_dP_def)
  have ih: "in_heap (pb_heap demo_pb) p \<Longrightarrow> 4096 \<le> p \<and> p < 266240" for p
    by (simp add: in_heap_def demo_pb_def demo_heap_def MEM_SIZE_ALIGNED_val)
  have dm: "dom (pbufs demo_pb) = {100, 200, 300}" by (auto simp: demo_pbufs(1))
  have "pool_inv demo_dR (pool_ref demo_pb) {}" "pool_inv demo_dP (pool_pool demo_pb) {}"
    using memp_init_pool_inv [OF wf(1), of memp_pool_zero] memp_init_pool_inv [OF wf(2), of memp_pool_zero]
    by (simp_all add: demo_pb_def memp_pool_zero_def)
  moreover have "layout demo_dR demo_dP demo_pb"
    unfolding layout_def dm using lo hi ih by fastforce
  moreover have "heap_part demo_pb"
  proof -
    have "heap_live demo_heap (regions demo_heap demo_blks)" using demo_heap_ok by (auto simp: heap_live_def)
    moreover have "{p \<in> dom (pbufs demo_pb). in_heap (pb_heap demo_pb) p} = {}" unfolding dm using ih by fastforce
    moreover have "srcs 0 demo_pb = {}" by (rule s) simp
    moreover have "pb_heap demo_pb = demo_heap" by (simp add: demo_pb_def)
    ultimately show ?thesis unfolding heap_part_def by fastforce
  qed
  ultimately show ?thesis using s [of 1] s [of 2] by (simp add: pb_inv_def)
qed

lemma demo_chain: "linked (nexts demo_pb) 100 [100, 200]" "packet demo_pb 100 [100, 200]" "packet demo_pb 300 [300]"
  by (simp_all add: packet_def demo_pbufs(1) demo_b1_def demo_b2_def demo_b3_def tlen_def blen_def)



text \<open>
  C25 Allocation from the pool. \<open>pbuf_alloc\<close> with \<open>PBUF_POOL\<close> terminates and keeps the store
  invariant. On success the result is a packet of new pbufs, each with one reference and its
  data inside its pool element, whose lengths add up to the length asked for; no other pbuf
  changes. On failure the store is what it was: the pbufs already taken are back in the pool.
\<close>

theorem pbuf_alloc_pool_correct:
  assumes "pb_inv dR dP s" and "LWIP_MEM_ALIGN_SIZE (unat layer) < 1600"
  shows "\<exists>p s'. pbuf_alloc layer n PBUF_POOL s = Some (p, s') \<and> pb_inv dR dP s' \<and> bytes s' = bytes s
     \<and> (if p = NULL then pbufs s' = pbufs s
        else \<exists>qs. qs \<noteq> [] \<and> packet s' p qs \<and> sum_len (pbufs s') qs = unat n \<and> set qs \<inter> dom (pbufs s) = {}
          \<and> (\<forall>q \<in> set qs. pool_fresh (pbufs s') q) \<and> (\<forall>a. a \<notin> set qs \<longrightarrow> pbufs s' a = pbufs s a))"
proof -
  obtain p s' where s': "pbuf_alloc layer n PBUF_POOL s = Some (p, s')" "pb_inv dR dP s'" "bytes s' = bytes s"
    "if p = NULL then pbufs s' = pbufs s
     else \<exists>rs. rs \<noteq> [] \<and> pool_built (pbufs s) s' p rs 0 \<and> sum_len (pbufs s') rs = unat n"
    using pbuf_alloc_pool_ok [OF assms, of n] by blast
  show ?thesis
  proof (cases "p = NULL")
    case True
    then show ?thesis using s' by auto
  next
    case False
    then obtain rs where "rs \<noteq> []" "pool_built (pbufs s) s' p rs 0" "sum_len (pbufs s') rs = unat n"
      using s'(4) by auto
    then show ?thesis
      using False s'(1-3) unfolding pool_built_def packet_def
      by (intro exI [of _ p] exI [of _ s']) auto
  qed
qed

theorem pbuf_alloc_pool_correct_witness:
  "\<exists>p s'. pbuf_alloc 16 2000 PBUF_POOL demo_pb = Some (p, s') \<and> pb_inv demo_dR demo_dP s'"
proof -
  have "LWIP_MEM_ALIGN_SIZE (unat (16 :: u16)) < 1600" by simp
  from pbuf_alloc_pool_correct [OF demo_pb_inv this] show ?thesis by blast
qed

text \<open>
  Concatenation. \<open>pbuf_cat\<close> of two disjoint packets whose lengths fit 16 bits gives one packet
  made of the pbufs of both, and changes no length, payload or reference count.
\<close>

lemma pbuf_cat_correct:
  assumes "packet s h hs" and "hs \<noteq> []" and "packet s t ts" and "ts \<noteq> []" and "set hs \<inter> set ts = {}"
    and "sum_len (pbufs s) hs + sum_len (pbufs s) ts < 65536"
  shows "\<exists>s'. pbuf_cat h t s = Some s' \<and> packet s' h (hs @ ts) \<and> bytes s' = bytes s
     \<and> (\<forall>q \<in> set (hs @ ts). pb_len (pb s' q) = pb_len (pb s q) \<and> pb_payload (pb s' q) = pb_payload (pb s q)
          \<and> pb_ref (pb s' q) = pb_ref (pb s q))"
  using pbuf_cat_packet [OF assms] by (fastforce simp: cat_store_def)

text \<open>
  Chain and dechain. Chaining a packet behind a single pbuf and dechaining that pbuf again
  returns the tail and restores the whole state, reference count included.
\<close>

lemma pbuf_chain_dechain:
  assumes "packet s h [h]" and "packet s t ts" and "t \<noteq> NULL" and "t \<noteq> h"
    and "0 < pb_ref (pb s t)" and "pb_ref (pb s t) < 255"
  shows "\<exists>s1. pbuf_chain h t s = Some s1 \<and> pbuf_dechain h s1 = Some (t, s)"
  by (rule chain_dechain [OF assms])

text \<open>
  C27 A dangling tail. \<open>pbuf_dechain\<close> tells from the return value of \<open>pbuf_free\<close> whether the tail
  is gone. That value is an 8-bit count: when exactly 256 pbufs of the tail are deallocated it
  is 0, and \<open>pbuf_dechain\<close> returns a pointer to a pbuf that no longer exists.
\<close>

theorem pbuf_dechain_dangling:
  assumes inv: "pb_inv dR dP s" and pk: "packet s p (p # q # qs)"
    and src: "\<forall>x \<in> set (q # qs). src_ok (pb s x)" and n: "length (freed s (q # qs)) = 256"
  shows "\<exists>s'. pbuf_dechain p s = Some (q, s') \<and> pbufs s' q = None"
proof -
  have lk: "linked (nexts s) p (p # q # qs)" using pk by (simp add: packet_def)
  note l1 = linked_pb [OF lk] and l2 = linked_pb [OF linked_pb(4) [OF lk]]
  have dist: "distinct (p # q # qs)" by (rule linked_distinct [OF lk])
  define bq where "bq = (pb s q)\<lparr>pb_tot_len := pb_tot_len (pb s p) - pb_len (pb s p)\<rparr>"
  define bp where "bp = (pb s p)\<lparr>pb_next := NULL, pb_tot_len := pb_len (pb s p)\<rparr>"
  let ?s1 = "putp q bq s" let ?s2 = "putp p bp (putp q bq s)"
  have inv1: "pb_inv dR dP ?s1" by (rule putp_inv [OF inv l2(3) src_of_cong]) (simp_all add: bq_def)
  have inv2: "pb_inv dR dP ?s2"
    by (rule putp_inv [where b = "pb s p", OF inv1 _ src_of_cong]) (use l1(3) dist in \<open>auto simp: bp_def\<close>)
  have ag: "x \<in> set qs \<Longrightarrow> pbufs ?s2 x = pbufs s x" "pbufs ?s2 q = Some bq" for x using dist by auto
  have lk2: "linked (nexts ?s2) q (q # qs)"
  proof -
    have "linked (nexts ?s2) x qs = linked (nexts s) x qs" for x by (rule linked_cong) (use dist in auto)
    then show ?thesis using l2 ag(2) by (simp add: bq_def)
  qed
  have pbx: "pb_ref (pb ?s2 x) = pb_ref (pb s x)" "src_ok (pb ?s2 x) = src_ok (pb s x)" if "x \<in> set (q # qs)" for x
  proof -
    have "pb ?s2 x = (if x = q then bq else pb s x)" using that dist by auto
    then show "pb_ref (pb ?s2 x) = pb_ref (pb s x)" "src_ok (pb ?s2 x) = src_ok (pb s x)"
      by (simp_all add: bq_def src_ok_def is_custom_def pbuf_get_allocsrc_def)
  qed
  have fr: "freed ?s2 (q # qs) = freed s (q # qs)"
    unfolding freed_def by (rule takeWhile_set_cong) (use pbx(1) in simp)
  obtain s' where s': "pbuf_free q ?s2 = Some (of_nat 256, s')" "pbufs s' = free_store (pbufs ?s2) (q # qs)"
    using pbuf_free_ok [OF inv2 lk2] pbx(2) src unfolding fr n by auto
  have run: "pbuf_dechain p s = Some (q, s')"
  proof -
    have g: "getp p s = Some (pb s p)" "getp q s = Some (pb s q)" "pb_next (pb s p) = q" "q \<noteq> NULL"
      using l1 l2 by (simp_all add: getp_def)
    have z: "pbuf_free q ?s2 = Some (0, s')" using s'(1) by simp
    show ?thesis
      unfolding pbuf_dechain_def using g z by (simp add: Let_def bq_def [symmetric] bp_def [symmetric])
  qed
  have "pb_ref (pb ?s2 q) = 1" using n fr by (auto simp: freed_def split: if_splits)
  then have "pbufs s' q = None"
    using s'(2) free_store_other [of q qs "(pbufs ?s2)(q := None)"] dist by auto
  then show ?thesis using run by blast
qed

text \<open>A chain of 257 custom pbufs at the addresses \<open>4, 8, \<dots>\<close>, one byte each.\<close>

definition long_pbuf :: "nat \<Rightarrow> pbuf" where
  "long_pbuf i = \<lparr>pb_next = (if i < 257 then 4 * Suc i else 0), pb_payload = 2000, pb_tot_len = of_nat (258 - i),
     pb_len = 1, pb_type_internal = 0x41, pb_flags = 2, pb_ref = 1, pb_if_idx = 0\<rparr>"

definition long_pb :: pb_state where
  "long_pb = demo_pb\<lparr>pbufs := (\<lambda>a. if 4 dvd a \<and> 0 < a \<and> a \<le> 1028 then Some (long_pbuf (a div 4)) else None)\<rparr>"

lemma long_pb_at: "0 < i \<Longrightarrow> i \<le> 257 \<Longrightarrow> pbufs long_pb (4 * i) = Some (long_pbuf i)"
  by (simp add: long_pb_def)

lemma long_pb_linked:
  assumes "0 < i" "i + n = 258"
  shows "linked (nexts long_pb) (if i \<le> 257 then 4 * i else 0) (map ((*) 4) [i..<258])
     \<and> tot_ok (pbufs long_pb) 0 (map ((*) 4) [i..<258]) \<and> sum_len (pbufs long_pb) (map ((*) 4) [i..<258]) = n"
  using assms
proof (induction n arbitrary: i)
  case 0
  then show ?case by simp
next
  case (Suc n)
  then have i: "[i..<258] = i # [Suc i..<258]" "i \<le> 257" by (simp_all add: upt_conv_Cons)
  have nx: "nexts long_pb (4 * i) = Some (if Suc i \<le> 257 then 4 * Suc i else 0)"
    using long_pb_at [of i] Suc.prems i(2) by (simp add: long_pbuf_def)
  have "tlen (pbufs long_pb) (4 * i) = Suc n" "blen (pbufs long_pb) (4 * i) = 1"
    using long_pb_at [of i] Suc.prems i(2) by (auto simp: tlen_def blen_def long_pbuf_def unat_of_nat_id simp del: of_nat_diff)
  then show ?case using Suc.IH [of "Suc i"] Suc.prems i nx by auto
qed

lemma long_pb_inv: "pb_inv demo_dR demo_dP long_pb"
proof -
  have c: "is_custom (long_pbuf i)" for i by (simp add: long_pbuf_def is_custom_def const_defs)
  then have s: "srcs k long_pb = {}" if "k \<noteq> 255" for k
    using that by (auto simp: srcs_def long_pb_def src_of_def split: if_splits)
  have s': "srcs k demo_pb = {}" if "k \<noteq> 255" for k
    using that demo_pbufs(2-4) by (auto simp: srcs_def demo_pbufs(1) src_of_def split: if_splits)
  have dm: "a \<le> 1028 \<and> 0 < a" if "a \<in> dom (pbufs long_pb)" for a using that by (auto simp: long_pb_def split: if_splits)
  have ih: "\<not> in_heap (pb_heap long_pb) a" if "a \<in> dom (pbufs long_pb)" for a
    using dm [OF that] by (simp add: in_heap_def long_pb_def demo_pb_def demo_heap_def)
  have el: "1028 < a" if "a \<in> pool_elems demo_dR \<union> pool_elems demo_dP" for a
    using that by (auto simp: pool_elems_def pool_elem_def demo_dR_def demo_dP_def)
  have fr: "pool_ref long_pb = pool_ref demo_pb" "pool_pool long_pb = pool_pool demo_pb" "pb_heap long_pb = pb_heap demo_pb"
    by (simp_all add: long_pb_def)
  have "pool_inv demo_dR (pool_ref long_pb) (srcs 1 long_pb)" "pool_inv demo_dP (pool_pool long_pb) (srcs 2 long_pb)"
    using demo_pb_inv s [of 1] s' [of 1] s [of 2] s' [of 2] fr by (simp_all add: pb_inv_def)
  moreover have "heap_part long_pb"
  proof -
    have "{p \<in> dom (pbufs long_pb). in_heap (pb_heap long_pb) p} = {}" using ih by auto
    then show ?thesis using demo_pb_inv s [of 0] fr unfolding pb_inv_def heap_part_def by auto
  qed
  moreover have "layout demo_dR demo_dP long_pb"
    using demo_pb_inv dm el fr unfolding pb_inv_def layout_def by fastforce
  ultimately show ?thesis by (simp add: pb_inv_def)
qed

theorem pbuf_dechain_dangling_witness:
  "\<exists>s'. pbuf_dechain 4 long_pb = Some (8, s') \<and> pbufs s' 8 = None"
proof -
  let ?qs = "map ((*) 4) [3..<258]"
  have "[1..<258] = 1 # 2 # [3..<258]"
    using upt_conv_Cons [of 1 258] upt_conv_Cons [of 2 258] by (simp del: upt_rec_numeral upt_conv_Cons add: numeral_2_eq_2 [symmetric])
  then have l: "map ((*) (4 :: nat)) [1..<258] = 4 # 8 # ?qs" by (simp del: upt_rec_numeral)
  have pk: "packet long_pb 4 (4 # 8 # ?qs)"
    using long_pb_linked [of 1 257] unfolding l by (simp add: packet_def del: upt_rec_numeral linked.simps tot_ok.simps)
  have at: "pbufs long_pb x = Some (long_pbuf (x div 4))" if "x \<in> set (8 # ?qs)" for x
    using that long_pb_at [of "x div 4"] by (auto simp del: upt_rec_numeral)
  have src: "\<forall>x \<in> set (8 # ?qs). src_ok (pb long_pb x)"
    using at by (auto simp: src_ok_def is_custom_def long_pbuf_def const_defs simp del: upt_rec_numeral)
  have "freed long_pb (8 # ?qs) = 8 # ?qs"
    unfolding freed_def takeWhile_eq_all_conv using at by (auto simp: long_pbuf_def simp del: upt_rec_numeral)
  then have n: "length (freed long_pb (8 # ?qs)) = 256" by (simp del: upt_rec_numeral)
  show ?thesis by (rule pbuf_dechain_dangling [OF long_pb_inv pk src n])
qed

text \<open>
  C26 Truncation. \<open>pbuf_realloc\<close> to a smaller length keeps the store invariant and leaves a packet
  of exactly that length: a prefix of the chain, with the same payload pointers and with all
  lengths but the last one unchanged.
\<close>

theorem pbuf_realloc_correct:
  assumes "pb_inv dR dP s" and "packet s p qs" and "qs \<noteq> []" and "unat n < sum_len (pbufs s) qs"
    and "\<forall>q \<in> set qs. src_ok (pb s q)"
  shows "\<exists>s' xs q ys. pbuf_realloc p n s = Some s' \<and> qs = xs @ q # ys \<and> packet s' p (xs @ [q])
     \<and> sum_len (pbufs s') (xs @ [q]) = unat n \<and> pb_inv dR dP s' \<and> bytes s' = bytes s
     \<and> (\<forall>x \<in> set (xs @ [q]). pb_payload (pb s' x) = pb_payload (pb s x))
     \<and> (\<forall>x \<in> set xs. blen (pbufs s') x = blen (pbufs s) x)"
  using pbuf_realloc_ok [OF assms] by blast

theorem pbuf_realloc_correct_witness:
  "\<exists>s' qs. pbuf_realloc 100 3 demo_pb = Some s' \<and> packet s' 100 qs \<and> sum_len (pbufs s') qs = 3"
proof -
  have "unat (3 :: u16) < sum_len (pbufs demo_pb) [100, 200]"
    by (simp add: demo_pbufs(1) blen_def demo_b1_def demo_b2_def)
  moreover have "\<forall>q \<in> set [100, 200]. src_ok (pb demo_pb q)" using demo_pbufs by simp
  ultimately obtain s' xs q where "pbuf_realloc 100 3 demo_pb = Some s'" "packet s' 100 (xs @ [q])"
    "sum_len (pbufs s') (xs @ [q]) = unat (3 :: u16)"
    using pbuf_realloc_correct [OF demo_pb_inv demo_chain(2), of 3] by blast
  then show ?thesis by (intro exI [of _ s'] exI [of _ "xs @ [q]"]) simp
qed

text \<open>
  Headers. When \<open>pbuf_add_header\<close> (forced or not) succeeds, removing the same number of bytes
  gives back the state before.
\<close>

lemma pbuf_header_round_trip:
  assumes "getp p s = Some b" and "n \<le> pb_payload b" and "pb_payload b < 2 ^ 32"
    and "pb_len b \<le> pb_tot_len b" and "pbuf_add_header_impl p n force s = Some (0, s')"
  shows "pbuf_remove_header p n s' = Some (0, s)"
  by (rule header_round_trip [OF assms])

end
