(* ===== verification/Lwip_Def.thy ===== *)
theory Lwip_Def
  imports Prelude
begin

text \<open>
  The common functions of \<open>lwip/src/core/def.c\<close>: byte order, strings without the C library's
  locale, decimal printing, constant-time comparison. Strings and buffers are addresses in a
  memory \<open>addr \<Rightarrow> u8\<close>; \<open>char\<close> is an unsigned byte, as in the ARM ABI. A loop over a string that
  has no terminating zero is \<open>None\<close>.
\<close>

unbundle bit_operations_syntax

section \<open>Byte order\<close>

definition lwip_htons :: "u16 \<Rightarrow> u16" where
  "lwip_htons x = push_bit 8 (x AND 0x00FF) OR drop_bit 8 (x AND 0xFF00)"

definition lwip_htonl :: "u32 \<Rightarrow> u32" where
  "lwip_htonl x = push_bit 24 (x AND 0x000000FF) OR push_bit 8 (x AND 0x0000FF00)
     OR drop_bit 8 (x AND 0x00FF0000) OR drop_bit 24 (x AND 0xFF000000)"

section \<open>Strings\<close>

text \<open>\<open>strlen\<close> and the equality test that is made of \<open>strncmp\<close> (C library).\<close>

partial_function (option) strlen :: "(addr \<Rightarrow> u8) \<Rightarrow> addr \<Rightarrow> nat option" where
  "strlen m a = (if m a = 0 then Some 0 else do { n \<leftarrow> strlen m (a + 1); Some (n + 1) })"

fun strncmp_eq :: "(addr \<Rightarrow> u8) \<Rightarrow> addr \<Rightarrow> addr \<Rightarrow> nat \<Rightarrow> bool" where
  "strncmp_eq m a b 0 \<longleftrightarrow> True"
| "strncmp_eq m a b (Suc n) \<longleftrightarrow> m a = m b \<and> (m a = 0 \<or> strncmp_eq m (a + 1) (b + 1) n)"

text \<open>The test of one pair of characters that \<open>lwip_stricmp\<close> and \<open>lwip_strnicmp\<close> share: are they different?\<close>

definition char_differs :: "u8 \<Rightarrow> u8 \<Rightarrow> bool" where
  "char_differs c1 c2 \<longleftrightarrow>
     c1 \<noteq> c2 \<and>
     (let c1_upc = c1 OR 0x20 in
      if c1_upc \<ge> 97 \<and> c1_upc \<le> 122 then c1_upc \<noteq> c2 OR 0x20 else True)"

partial_function (option) lwip_stricmp :: "(addr \<Rightarrow> u8) \<Rightarrow> addr \<Rightarrow> addr \<Rightarrow> int option" where
  "lwip_stricmp m str1 str2 =
     (let c1 = m str1; c2 = m str2 in
      if char_differs c1 c2 then Some 1
      else if c1 \<noteq> 0 then lwip_stricmp m (str1 + 1) (str2 + 1) else Some 0)"

partial_function (option) lwip_strnicmp :: "(addr \<Rightarrow> u8) \<Rightarrow> addr \<Rightarrow> addr \<Rightarrow> u32 \<Rightarrow> int option" where
  "lwip_strnicmp m str1 str2 len =
     (let c1 = m str1; c2 = m str2 in
      if char_differs c1 c2 then Some 1
      else if len - 1 \<noteq> 0 \<and> c1 \<noteq> 0 then lwip_strnicmp m (str1 + 1) (str2 + 1) (len - 1) else Some 0)"

partial_function (option) strnstr_loop ::
  "(addr \<Rightarrow> u8) \<Rightarrow> addr \<Rightarrow> addr \<Rightarrow> nat \<Rightarrow> nat \<Rightarrow> addr \<Rightarrow> addr option" where
  "strnstr_loop m buffer token tokenlen n p =
     (if m p \<noteq> 0 \<and> p + tokenlen \<le> buffer + n then
        (if m p = m token \<and> strncmp_eq m p token tokenlen then Some p
         else strnstr_loop m buffer token tokenlen n (p + 1))
      else Some NULL)"

definition lwip_strnstr :: "(addr \<Rightarrow> u8) \<Rightarrow> addr \<Rightarrow> addr \<Rightarrow> nat \<Rightarrow> addr option" where
  "lwip_strnstr m buffer token n =
     do {
       tokenlen \<leftarrow> strlen m token;
       if tokenlen = 0 then Some buffer else strnstr_loop m buffer token tokenlen n buffer
     }"

partial_function (option) strnistr_loop ::
  "(addr \<Rightarrow> u8) \<Rightarrow> addr \<Rightarrow> addr \<Rightarrow> nat \<Rightarrow> nat \<Rightarrow> addr \<Rightarrow> addr option" where
  "strnistr_loop m buffer token tokenlen n p =
     (if m p \<noteq> 0 \<and> p + tokenlen \<le> buffer + n then do {
        r \<leftarrow> lwip_strnicmp m p token (of_nat tokenlen);
        if r = 0 then Some p else strnistr_loop m buffer token tokenlen n (p + 1)
      } else Some NULL)"

definition lwip_strnistr :: "(addr \<Rightarrow> u8) \<Rightarrow> addr \<Rightarrow> addr \<Rightarrow> nat \<Rightarrow> addr option" where
  "lwip_strnistr m buffer token n =
     do {
       tokenlen \<leftarrow> strlen m token;
       if tokenlen = 0 then Some buffer else strnistr_loop m buffer token tokenlen n buffer
     }"

section \<open>Decimal printing\<close>



definition memmove :: "addr \<Rightarrow> addr \<Rightarrow> nat \<Rightarrow> (addr \<Rightarrow> u8) \<Rightarrow> addr \<Rightarrow> u8" where
  "memmove d src k m = (\<lambda>a. if d \<le> a \<and> a < d + k then m (src + (a - d)) else m a)"


section \<open>Comparison in constant time\<close>

function memcmp_consttime_loop :: "(addr \<Rightarrow> u8) \<Rightarrow> addr \<Rightarrow> addr \<Rightarrow> nat \<Rightarrow> nat \<Rightarrow> u8 \<Rightarrow> u8" where
  "memcmp_consttime_loop m a1 a2 len i ret =
     (if i < len then memcmp_consttime_loop m a1 a2 len (i + 1) (ret OR (m (a1 + i) XOR m (a2 + i))) else ret)"
  by pat_completeness auto
termination by (relation "measure (\<lambda>(m, a1, a2, len, i, ret). len - i)") auto

declare memcmp_consttime_loop.simps [simp del]

definition lwip_memcmp_consttime :: "(addr \<Rightarrow> u8) \<Rightarrow> addr \<Rightarrow> addr \<Rightarrow> nat \<Rightarrow> int" where
  "lwip_memcmp_consttime m s1 s2 len = uint (memcmp_consttime_loop m s1 s2 len 0 0)"


section \<open>Copying byte by byte\<close>

text \<open>
  \<open>stm32h7_byte_memcpy\<close> (lwipopts.h), which the port uses for \<open>MEMCPY\<close> and for \<open>MEMMOVE\<close>.
\<close>

fun stm32h7_byte_memcpy :: "addr \<Rightarrow> addr \<Rightarrow> nat \<Rightarrow> (addr \<Rightarrow> u8) \<Rightarrow> addr \<Rightarrow> u8" where
  "stm32h7_byte_memcpy d s 0 m = m"
| "stm32h7_byte_memcpy d s (Suc len) m = stm32h7_byte_memcpy (d + 1) (s + 1) len (m(d := m s))"

section \<open>Byte order as arithmetic\<close>


lemma unat_htons: "unat (lwip_htons x) = 256 * (unat x mod 256) + unat x div 256"
proof -
  have "unat x div 256 < 256" using unat_u16_less [of x] by (simp add: less_mult_imp_div_less)
  then show ?thesis unfolding lwip_htons_def by (subst unat_swap) simp_all
qed

lemma htons_htons [simp]: "lwip_htons (lwip_htons x) = x"
proof -
  have "unat x div 256 < 256" using unat_u16_less [of x] by (simp add: less_mult_imp_div_less)
  then show ?thesis by (simp add: word_unat_eq_iff unat_htons)
qed

lemma htonl_masks:
  "(0xFF00 :: u32) = push_bit 8 (mask 8)" "(0xFF0000 :: u32) = push_bit 16 (mask 8)" "(0xFF000000 :: u32) = push_bit 24 (mask 8)"
  by (simp_all add: mask_eq_exp_minus_1 push_bit_eq_mult)

lemma bit_htonl:
  "bit (lwip_htonl x) n \<longleftrightarrow> n < 32 \<and> bit x (if n < 8 then 24 + n else if n < 16 then 8 + n else if n < 24 then n - 8 else n - 24)"
  unfolding lwip_htonl_def htonl_masks mask_8
  by (auto simp: bit_or_iff bit_push_bit_iff bit_drop_bit_eq bit_and_iff bit_mask_iff)

lemma htonl_htonl [simp]: "lwip_htonl (lwip_htonl x) = x"
proof (rule bit_word_eqI)
  fix n
  assume "n < LENGTH(32)"
  then show "bit (lwip_htonl (lwip_htonl x)) n = bit x n"
    unfolding bit_htonl by auto
qed

section \<open>Strings as lists\<close>

primrec cstring :: "(addr \<Rightarrow> u8) \<Rightarrow> addr \<Rightarrow> u8 list \<Rightarrow> bool" where
  "cstring m a [] \<longleftrightarrow> m a = 0"
| "cstring m a (x # xs) \<longleftrightarrow> m a = x \<and> x \<noteq> 0 \<and> cstring m (Suc a) xs"

lemma cstring_drop: "cstring m a xs \<Longrightarrow> i \<le> length xs \<Longrightarrow> cstring m (a + i) (drop i xs)"
proof (induction xs arbitrary: a i)
  case (Cons x xs)
  then show ?case using Cons.IH [of "Suc a" "i - 1"] by (cases i) auto
qed simp

lemma strlen_cstring: "cstring m a xs \<Longrightarrow> strlen m a = Some (length xs)"
proof (induction xs arbitrary: a)
  case Nil
  then show ?case by (subst strlen.simps) simp
next
  case (Cons x xs)
  then show ?case by (subst strlen.simps) auto
qed

lemma strncmp_cstring:
  "cstring m a xs \<Longrightarrow> cstring m b ys \<Longrightarrow> strncmp_eq m a b n \<longleftrightarrow> take n xs = take n ys"
proof (induction n arbitrary: a b xs ys)
  case (Suc n)
  then show ?case by (cases xs; cases ys) auto
qed simp

text \<open>Lower case, as \<open>lwip_tolower\<close> has it.\<close>

definition lower :: "u8 \<Rightarrow> u8" where
  "lower c = (if 65 \<le> c \<and> c \<le> 90 then c + 32 else c)"

lemma unat_or_20: "unat (c OR 0x20) = (if odd (unat c div 32) then unat c else unat c + 32)" for c :: u8
proof -
  have "unat (c OR 0x20) = unat c OR push_bit 5 1" by (simp add: unsigned_or_eq)
  then have e: "unat (c OR 0x20) = set_bit 5 (unat c)" by (simp add: set_bit_eq_or)
  show ?thesis unfolding e by (simp add: set_bit_eq bit_iff_odd)
qed

lemma lower_or: "lower c = (if 97 \<le> c OR 0x20 \<and> c OR 0x20 \<le> 122 then c OR 0x20 else c)"
proof -
  define n where "n = unat c"
  have n: "n < 256" by (simp add: n_def)
  let ?u = "if odd (n div 32) then n else n + 32"
  have in_range: "97 \<le> c OR 0x20 \<and> c OR 0x20 \<le> 122 \<longleftrightarrow> 97 \<le> ?u \<and> ?u \<le> 122"
    by (simp add: word_le_nat_alt unat_or_20 n_def)
  have up: "65 \<le> c \<and> c \<le> 90 \<longleftrightarrow> 65 \<le> n \<and> n \<le> 90" by (simp add: word_le_nat_alt n_def)
  have plus: "unat (c + 32) = n + 32" if "n \<le> 90"
    using that by (subst unat_add_no_wrap) (simp_all add: n_def)
  have even: "n div 32 = 2" if "65 \<le> n \<and> n \<le> 90" using that by (intro div_nat_eqI) simp_all
  have odd: "n div 32 = 3" if "97 \<le> n \<and> n \<le> 122" using that by (intro div_nat_eqI) simp_all
  have range: "97 \<le> ?u \<and> ?u \<le> 122 \<longleftrightarrow> 65 \<le> n \<and> n \<le> 90 \<or> 97 \<le> n \<and> n \<le> 122"
    using even odd by auto
  show ?thesis
    unfolding lower_def in_range up range word_unat_eq_iff using even odd plus by (auto simp: unat_or_20 n_def [symmetric])
qed
lemma char_differs_lower: "char_differs c1 c2 \<longleftrightarrow> lower c1 \<noteq> lower c2"
proof -
  have "(c OR 0x20) OR 0x20 = c OR 0x20" for c :: u8 by (simp add: or.assoc)
  then show ?thesis unfolding char_differs_def lower_or Let_def by (auto split: if_splits)
qed


lemma lower_zero [simp]: "lower 0 = 0" "lower y = 0 \<longleftrightarrow> y = 0" "0 = lower y \<longleftrightarrow> y = 0"
proof -
  have "y + 32 \<noteq> 0" if "y \<le> 90"
  proof -
    have "unat (y + 32) = unat y + 32" using that by (subst unat_add_no_wrap) (simp_all add: word_le_nat_alt)
    then show ?thesis by (metis add_is_0 unat_0 zero_neq_numeral)
  qed
  then show "lower y = 0 \<longleftrightarrow> y = 0" "0 = lower y \<longleftrightarrow> y = 0" by (auto simp: lower_def)
  show "lower 0 = 0" by (simp add: lower_def)
qed

lemma stricmp_ok:
  "cstring m a xs \<Longrightarrow> cstring m b ys \<Longrightarrow> lwip_stricmp m a b = Some (if map lower xs = map lower ys then 0 else 1)"
proof (induction xs arbitrary: a b ys)
  case Nil
  then show ?case by (subst lwip_stricmp.simps) (cases ys; auto simp: char_differs_lower)
next
  case (Cons x xs)
  show ?case
  proof (cases ys)
    case Nil
    then show ?thesis using Cons.prems by (subst lwip_stricmp.simps) (auto simp: char_differs_lower)
  next
    case (Cons y ys')
    then show ?thesis using Cons.prems Cons.IH [of "Suc a" "Suc b" ys']
      by (subst lwip_stricmp.simps) (auto simp: char_differs_lower Let_def)
  qed
qed

lemma strnicmp_ok:
  "cstring m a xs \<Longrightarrow> cstring m b ys \<Longrightarrow> unat n \<noteq> 0 \<Longrightarrow>
   lwip_strnicmp m a b n = Some (if map lower (take (unat n) xs) = map lower (take (unat n) ys) then 0 else 1)"
proof (induction "unat n" arbitrary: n a b xs ys)
  case 0
  then show ?case by simp
next
  case (Suc k)
  have n1: "unat (n - 1) = k" using Suc.hyps(2) by (simp add: unat_sub_le word_le_nat_alt)
  have t: "take (unat n) (v # vs) = v # take k vs" for v :: u8 and vs using Suc.hyps(2) by (metis take_Suc_Cons)
  show ?case
  proof (cases xs)
    case Nil
    then show ?thesis using Suc.prems Suc.hyps(2)
      by (subst lwip_strnicmp.simps) (cases ys; auto simp: char_differs_lower t)
  next
    case xs: (Cons x xs')
    show ?thesis
    proof (cases ys)
      case Nil
      then show ?thesis using xs Suc.prems
        by (subst lwip_strnicmp.simps) (auto simp: char_differs_lower t)
    next
      case ys: (Cons y ys')
      have k: "n - 1 = 0 \<longleftrightarrow> k = 0" using n1 by (metis unat_eq_0)
      show ?thesis
      proof (cases "k = 0")
        case True
        then show ?thesis using xs ys Suc.prems k
          by (subst lwip_strnicmp.simps) (auto simp: char_differs_lower Let_def t)
      next
        case False
        then show ?thesis using xs ys Suc.prems Suc.hyps(1) [of "n - 1" "Suc a" xs' "Suc b" ys'] n1 k
          by (subst lwip_strnicmp.simps) (auto simp: char_differs_lower Let_def t)
      qed
    qed
  qed
qed

text \<open>The first position, up to a bound, at which a predicate holds.\<close>

lemma find_upt_Cons:
  "i < n \<Longrightarrow> find P [i..<n] = (if P i then Some i else find P [Suc i..<n])"
  by (simp add: upt_conv_Cons)

lemma strnstr_loop_ok:
  assumes "cstring m a xs" and "cstring m t ts" "ts \<noteq> []" and "i \<le> length xs"
  shows "strnstr_loop m a t (length ts) n (a + i) =
     Some (case find (\<lambda>j. take (length ts) (drop j xs) = ts) [i..<min (length xs) (n + 1 - length ts)] of
       None \<Rightarrow> NULL | Some j \<Rightarrow> a + j)"
  using assms(4)
proof (induction "length xs - i" arbitrary: i)
  case 0
  then have "drop i xs = []" "i = length xs" by simp_all
  moreover from this have "m (a + i) = 0" using cstring_drop [OF assms(1), of i] by simp
  ultimately show ?case by (subst strnstr_loop.simps) simp
next
  case (Suc k)
  then have i: "i < length xs" by simp
  then obtain y ys where y: "drop i xs = y # ys" by (cases "drop i xs") auto
  have c: "cstring m (a + i) (drop i xs)" using cstring_drop [OF assms(1)] i by simp
  then have nz: "m (a + i) \<noteq> 0" unfolding y by simp
  have eq: "m (a + i) = m t \<and> strncmp_eq m (a + i) t (length ts) \<longleftrightarrow> take (length ts) (drop i xs) = ts"
    unfolding strncmp_cstring [OF c assms(2)] using c assms(2,3) y by (cases ts) auto
  have k: "k = length xs - Suc i" "Suc i \<le> length xs" using Suc.hyps(2) i by simp_all
  show ?case
  proof (cases "i + length ts \<le> n")
    case True
    have "i < min (length xs) (n + 1 - length ts)" using True i by simp
    from find_upt_Cons [OF this] show ?thesis
      using Suc.hyps(1) [OF k] nz True by (subst strnstr_loop.simps) (simp add: eq)
  next
    case False
    then show ?thesis using nz by (subst strnstr_loop.simps) simp
  qed
qed

lemma strnistr_loop_ok:
  assumes "cstring m a xs" and "cstring m t ts" "ts \<noteq> []" "length ts < 2 ^ 32" and "i \<le> length xs"
  shows "strnistr_loop m a t (length ts) n (a + i) =
     Some (case find (\<lambda>j. map lower (take (length ts) (drop j xs)) = map lower ts)
         [i..<min (length xs) (n + 1 - length ts)] of None \<Rightarrow> NULL | Some j \<Rightarrow> a + j)"
  using assms(5)
proof (induction "length xs - i" arbitrary: i)
  case 0
  then have "drop i xs = []" "i = length xs" by simp_all
  moreover from this have "m (a + i) = 0" using cstring_drop [OF assms(1), of i] by simp
  ultimately show ?case by (subst strnistr_loop.simps) simp
next
  case (Suc k)
  then have i: "i < length xs" by simp
  then obtain y ys where y: "drop i xs = y # ys" by (cases "drop i xs") auto
  have c: "cstring m (a + i) (drop i xs)" using cstring_drop [OF assms(1)] i by simp
  then have nz: "m (a + i) \<noteq> 0" unfolding y by simp
  have u: "unat (of_nat (length ts) :: u32) = length ts" using assms(4) by (intro unat_of_nat_id) simp
  have eq: "lwip_strnicmp m (a + i) t (of_nat (length ts))
      = Some (if map lower (take (length ts) (drop i xs)) = map lower ts then 0 else 1)"
    using strnicmp_ok [OF c assms(2), of "of_nat (length ts)"] assms(3) by (simp add: u)
  have k: "k = length xs - Suc i" "Suc i \<le> length xs" using Suc.hyps(2) i by simp_all
  show ?case
  proof (cases "i + length ts \<le> n")
    case True
    have "i < min (length xs) (n + 1 - length ts)" using True i by simp
    from find_upt_Cons [OF this] show ?thesis
      using Suc.hyps(1) [OF k] nz True by (subst strnistr_loop.simps) (simp add: eq)
  next
    case False
    then show ?thesis using nz by (subst strnistr_loop.simps) simp
  qed
qed


section \<open>Decimal digits\<close>

fun dec :: "nat \<Rightarrow> u8 list" where
  "dec n = (if n = 0 then [] else dec (n div 10) @ [of_nat (48 + n mod 10)])"

declare dec.simps [simp del]

lemma dec_0 [simp]: "dec 0 = []" by (simp add: dec.simps)

lemma dec_pos: "n \<noteq> 0 \<Longrightarrow> dec n = dec (n div 10) @ [of_nat (48 + n mod 10)]"
  by (simp add: dec.simps [of n])

lemma dec_nonzero: "0 \<notin> set (dec n)"
proof (induction n rule: dec.induct)
  case (1 n)
  have "(of_nat (48 + n mod 10) :: u8) \<noteq> 0"
  proof -
    have "unat (of_nat (48 + n mod 10) :: u8) = 48 + n mod 10" 
      using mod_less_divisor [of 10 n] by (intro unat_of_nat_id) simp
    then show ?thesis by (metis add_is_0 unat_0 zero_neq_numeral)
  qed
  then show ?case using 1 by (cases "n = 0") (auto simp: dec_pos)
qed



text \<open>What \<open>lwip_itoa\<close> is to print.\<close>

definition decimal :: "int \<Rightarrow> u8 list" where
  "decimal number = (if number < 0 then [45] else []) @ (if number = 0 then [48] else dec (nat \<bar>number\<bar>))"

lemma decimal_nonzero: "0 \<notin> set (decimal number)"
  using dec_nonzero by (auto simp: decimal_def)





section \<open>Constant-time comparison\<close>

lemma xor_zero_iff: "x XOR y = 0 \<longleftrightarrow> x = y" for x y :: u8
  by (auto simp: bit_eq_iff bit_xor_iff)

lemma memcmp_consttime_loop_ok:
  "memcmp_consttime_loop m a b len i ret = 0 \<longleftrightarrow> ret = 0 \<and> (\<forall>j. i \<le> j \<and> j < len \<longrightarrow> m (a + j) = m (b + j))"
proof (induction "len - i" arbitrary: i ret)
  case 0
  then show ?case by (subst memcmp_consttime_loop.simps) auto
next
  case (Suc k)
  then have i: "i < len" "k = len - (i + 1)" by simp_all
  have z: "ret OR (m (a + i) XOR m (b + i)) = 0 \<longleftrightarrow> ret = 0 \<and> m (a + i) = m (b + i)"
    using xor_zero_iff [of "m (a + i)" "m (b + i)"] by (simp add: or_eq_0_iff)
  have "(\<forall>j. i \<le> j \<and> j < len \<longrightarrow> m (a + j) = m (b + j))
      \<longleftrightarrow> m (a + i) = m (b + i) \<and> (\<forall>j. i + 1 \<le> j \<and> j < len \<longrightarrow> m (a + j) = m (b + j))"
    using i(1) by (metis Suc_eq_plus1 Suc_leD le_antisym not_less_eq_eq order_refl)
  moreover have "memcmp_consttime_loop m a b len i ret
      = memcmp_consttime_loop m a b len (i + 1) (ret OR (m (a + i) XOR m (b + i)))"
    using i(1) by (subst memcmp_consttime_loop.simps) simp
  ultimately show ?case using Suc.hyps(1) [OF i(2)] z by (simp only:) blast
qed


section \<open>The byte copy\<close>

text \<open>It copies correctly when the destination does not begin inside the source.\<close>

lemma byte_memcpy_ok:
  "d \<le> s \<or> s + n \<le> d \<Longrightarrow> stm32h7_byte_memcpy d s n m = memmove d s n m"
proof (induction n arbitrary: d s m)
  case 0
  then show ?case by (auto simp: memmove_def fun_eq_iff)
next
  case (Suc n)
  have "memmove (d + 1) (s + 1) n (m(d := m s)) = memmove d s (Suc n) m"
  proof (rule ext)
    fix a
    consider "a < d" | "a = d" | "d < a" "a < d + Suc n" | "d + Suc n \<le> a" by linarith
    then show "memmove (d + 1) (s + 1) n (m(d := m s)) a = memmove d s (Suc n) m a"
    proof cases
      case 3
      then have "s + 1 + (a - (d + 1)) = s + (a - d)" by simp
      moreover have "s + (a - d) \<noteq> d" using Suc.prems 3 by auto
      ultimately show ?thesis using 3 by (simp add: memmove_def)
    qed (auto simp: memmove_def)
  qed
  moreover have "stm32h7_byte_memcpy (d + 1) (s + 1) n (m(d := m s)) = memmove (d + 1) (s + 1) n (m(d := m s))"
    by (rule Suc.IH) (use Suc.prems in auto)
  ultimately show ?case by (simp only: stm32h7_byte_memcpy.simps)
qed

text \<open>Moving data up by \<open>k\<close> bytes inside themselves repeats the first \<open>k\<close> bytes instead.\<close>

lemma byte_memmove_repeats:
  assumes "0 < k"
  shows "stm32h7_byte_memcpy (s + k) s n m a = (if s + k \<le> a \<and> a < s + k + n then m (s + (a - s) mod k) else m a)"
proof (induction n arbitrary: s m)
  case (Suc n)
  let ?m = "m(s + k := m s)"
  have IH: "stm32h7_byte_memcpy (s + k) s (Suc n) m a =
      (if s + 1 + k \<le> a \<and> a < s + 1 + k + n then ?m (s + 1 + (a - (s + 1)) mod k) else ?m a)"
  proof -
    have e: "s + 1 + k = s + k + 1" by simp
    show ?thesis using Suc.IH [of "s + 1" ?m] unfolding e stm32h7_byte_memcpy.simps .
  qed
  consider "a < s + k \<or> s + k + Suc n \<le> a" | "a = s + k" | "s + 1 + k \<le> a" "a < s + 1 + k + n" by linarith
  then show ?case
  proof cases
    case 3
    define b where "b = a - (s + 1)"
    have b: "a - s = Suc b" using 3(1) by (simp add: b_def)
    have "?m (s + 1 + b mod k) = m (s + Suc b mod k)"
    proof (cases "Suc (b mod k) = k")
      case True
      then have "Suc b mod k = 0" by (simp add: mod_Suc)
      then show ?thesis using True by (simp add: add.assoc)
    next
      case False
      moreover have "b mod k < k" using assms by simp
      ultimately show ?thesis by (simp add: mod_Suc)
    qed
    then show ?thesis unfolding IH using 3 by (simp add: b b_def)
  qed (use assms IH in auto)
qed auto

section \<open>Properties\<close>



text \<open>
  String search. In terminated strings, \<open>lwip_strnstr\<close> returns the first occurrence of the token
  that lies in the first \<open>n\<close> bytes of the buffer, and \<open>NULL\<close> if there is none; \<open>lwip_strnistr\<close> does
  the same up to the case of ASCII letters.
\<close>

lemma lwip_strnstr_correct:
  assumes "cstring m buffer xs" and "cstring m token ts" and "ts \<noteq> []" and "length ts < 2 ^ 32"
  shows "lwip_strnstr m buffer token n =
      Some (case find (\<lambda>i. take (length ts) (drop i xs) = ts) [0..<min (length xs) (n + 1 - length ts)] of
        None \<Rightarrow> NULL | Some i \<Rightarrow> buffer + i)
    \<and> lwip_strnistr m buffer token n =
      Some (case find (\<lambda>i. map lower (take (length ts) (drop i xs)) = map lower ts) [0..<min (length xs) (n + 1 - length ts)] of
        None \<Rightarrow> NULL | Some i \<Rightarrow> buffer + i)"
  using strnstr_loop_ok [OF assms(1-3), of 0 n] strnistr_loop_ok [OF assms, of 0 n] assms(3)
  by (simp add: lwip_strnstr_def lwip_strnistr_def strlen_cstring [OF assms(2)])

text \<open>Two strings in a memory, for the witnesses: \<open>abcB\<close> at 10 and \<open>cb\<close> at 20.\<close>

definition demo_mem :: "addr \<Rightarrow> u8" where
  "demo_mem = (\<lambda>_. 0)(10 := 97, 11 := 98, 12 := 99, 13 := 66, 20 := 99, 21 := 98)"

lemma demo_strings: "cstring demo_mem 10 [97, 98, 99, 66]" "cstring demo_mem 20 [99, 98]"
  by (simp_all add: demo_mem_def)

text \<open>
  Comparison. \<open>lwip_stricmp\<close> ends on terminated strings and returns 0 exactly for strings that are
  equal up to the case of ASCII letters; \<open>lwip_strnicmp\<close> does so for the first characters, and
  \<open>lwip_memcmp_consttime\<close> returns 0 exactly for equal memory.
\<close>

lemma lwip_stricmp_correct:
  assumes "cstring m a xs" and "cstring m b ys" and "n \<noteq> 0"
  shows "lwip_stricmp m a b = Some (if map lower xs = map lower ys then 0 else 1)
    \<and> lwip_strnicmp m a b n = Some (if map lower (take (unat n) xs) = map lower (take (unat n) ys) then 0 else 1)
    \<and> (lwip_memcmp_consttime m a b k = 0 \<longleftrightarrow> map m [a..<a + k] = map m [b..<b + k])"
proof -
  have "unat n \<noteq> 0" using assms(3) by (simp add: unat_eq_0)
  moreover have "lwip_memcmp_consttime m a b k = 0 \<longleftrightarrow> memcmp_consttime_loop m a b k 0 0 = 0"
    by (simp add: lwip_memcmp_consttime_def uint_0_iff)
  moreover have "memcmp_consttime_loop m a b k 0 0 = 0 \<longleftrightarrow> map m [a..<a + k] = map m [b..<b + k]"
    unfolding memcmp_consttime_loop_ok by (simp add: list_eq_iff_nth_eq)
  ultimately show ?thesis using stricmp_ok [OF assms(1,2)] strnicmp_ok [OF assms(1,2)] by simp
qed

text \<open>
  Byte order. \<open>lwip_htons\<close> and \<open>lwip_htonl\<close> are their own inverses, and they reverse the bytes.
\<close>

lemma lwip_hton_involution:
  "lwip_htons (lwip_htons x) = x \<and> lwip_htonl (lwip_htonl y) = y
   \<and> unat (lwip_htons x) = 256 * (unat x mod 256) + unat x div 256
   \<and> map (\<lambda>i. take_bit 8 (drop_bit (8 * i) (lwip_htonl y))) [0, 1, 2, 3]
       = rev (map (\<lambda>i. take_bit 8 (drop_bit (8 * i) y)) [0, 1, 2, 3])"
proof -
  have "take_bit 8 (drop_bit (8 * i) (lwip_htonl y)) = take_bit 8 (drop_bit (8 * (3 - i)) y)" if "i < 4" for i
  proof (rule bit_word_eqI)
    fix n
    assume "n < LENGTH(32)"
    have "i = 0 \<or> i = 1 \<or> i = 2 \<or> i = 3" using that by auto
    then show "bit (take_bit 8 (drop_bit (8 * i) (lwip_htonl y))) n = bit (take_bit 8 (drop_bit (8 * (3 - i)) y)) n"
      unfolding bit_take_bit_iff bit_drop_bit_eq comp_apply bit_htonl by (cases "n < 8") auto
  qed
  from this [of 0] this [of 1] this [of 2] this [of 3] show ?thesis by (simp add: unat_htons)
qed

end
