(* ===== verification/Pbuf_Data.thy ===== *)
theory Pbuf_Data
  imports Pbuf Lwip_Def
begin

text \<open>
  Packet buffers, \<open>lwip/src/core/pbuf.c\<close>, second part: copying data into, out of and between
  pbuf chains, access by offset, comparison and search.

  All data, the payloads and the caller's buffers, lives in the memory \<open>bytes\<close> of the store, so
  the functions take the addresses of the buffers. The view of a chain is the list \<open>cells\<close> of
  the addresses of its data bytes in order; the data of a packet is the memory read along it.
  \<open>size_t\<close> is 32 bits wide.
\<close>

unbundle bit_operations_syntax

section \<open>Memory\<close>

text \<open>\<open>MEMCPY\<close> between regions that do not overlap.\<close>

definition memcpy :: "addr \<Rightarrow> addr \<Rightarrow> nat \<Rightarrow> pb_state \<Rightarrow> pb_state" where
  "memcpy d src n s = s\<lparr>bytes := (\<lambda>a. if d \<le> a \<and> a < d + n then bytes s (src + (a - d)) else bytes s a)\<rparr>"

section \<open>Copying\<close>

text \<open>The check that a chain is not a queue of packets: a pbuf that ends a packet has no successor.\<close>

definition queue_check :: "addr \<Rightarrow> pb_state \<Rightarrow> bool option" where
  "queue_check p s =
     (if p \<noteq> NULL then do { b \<leftarrow> getp p s; Some (pb_len b = pb_tot_len b \<and> pb_next b \<noteq> NULL) } else Some False)"

partial_function (option) copy_pbuf_loop ::
  "addr \<Rightarrow> addr \<Rightarrow> u16 \<Rightarrow> nat \<Rightarrow> nat \<Rightarrow> pb_state \<Rightarrow> (err_t \<times> pb_state) option" where
  "copy_pbuf_loop p_to p_from copy_len offset_to offset_from s =
     do {
       bt \<leftarrow> getp p_to s;
       bf \<leftarrow> getp p_from s;
       let len_to = sub32 (unat (pb_len bt)) offset_to;
       let len_from = sub32 (unat (pb_len bf)) offset_from;
       let n = min (unat copy_len) (if len_to \<ge> len_from then len_from else len_to);
       let s = memcpy (pb_payload bt + offset_to) (pb_payload bf + offset_from) n s;
       let offset_to = (offset_to + n) mod 2 ^ 32;
       let offset_from = (offset_from + n) mod 2 ^ 32;
       let copy_len = copy_len - of_nat n;
       let (p_from, offset_from) =
         (if offset_from \<ge> unat (pb_len bf) then (pb_next bf, 0) else (p_from, offset_from));
       if \<not> (p_from \<noteq> NULL \<or> copy_len = 0) then Some (ERR_ARG, s)
       else do {
         let (p_to, offset_to) =
           (if offset_to = unat (pb_len bt) then (pb_next bt, 0) else (p_to, offset_to));
         if \<not> (p_to \<noteq> NULL \<or> copy_len = 0) then Some (ERR_ARG, s)
         else do {
           queue_from \<leftarrow> queue_check p_from s;
           if queue_from then Some (ERR_VAL, s)
           else do {
             queue_to \<leftarrow> queue_check p_to s;
             if queue_to then Some (ERR_VAL, s)
             else if copy_len \<noteq> 0 then copy_pbuf_loop p_to p_from copy_len offset_to offset_from s
             else Some (ERR_OK, s)
           }
         }
       }
     }"

definition pbuf_copy_partial_pbuf ::
  "addr \<Rightarrow> addr \<Rightarrow> u16 \<Rightarrow> u16 \<Rightarrow> pb_state \<Rightarrow> (err_t \<times> pb_state) option" where
  "pbuf_copy_partial_pbuf p_to p_from copy_len offset s =
     (if p_from = NULL then Some (ERR_ARG, s)
      else do {
        bf \<leftarrow> getp p_from s;
        if \<not> pb_tot_len bf \<ge> copy_len then Some (ERR_ARG, s)
        else if p_to = NULL then Some (ERR_ARG, s)
        else do {
          bt \<leftarrow> getp p_to s;
          if \<not> unat (pb_tot_len bt) \<ge> unat offset + unat copy_len then Some (ERR_ARG, s)
          else copy_pbuf_loop p_to p_from copy_len (unat offset) 0 s
        }
      })"

definition pbuf_copy :: "addr \<Rightarrow> addr \<Rightarrow> pb_state \<Rightarrow> (err_t \<times> pb_state) option" where
  "pbuf_copy p_to p_from s =
     (if p_from = NULL then Some (ERR_ARG, s)
      else do { bf \<leftarrow> getp p_from s; pbuf_copy_partial_pbuf p_to p_from (pb_tot_len bf) 0 s })"

partial_function (option) copy_partial_loop ::
  "addr \<Rightarrow> addr \<Rightarrow> u16 \<Rightarrow> u16 \<Rightarrow> u16 \<Rightarrow> u16 \<Rightarrow> pb_state \<Rightarrow> (u16 \<times> pb_state) option" where
  "copy_partial_loop p dataptr left len offset copied_total s =
     (if len \<noteq> 0 \<and> p \<noteq> NULL then do {
        b \<leftarrow> getp p s;
        if offset \<noteq> 0 \<and> offset \<ge> pb_len b
        then copy_partial_loop (pb_next b) dataptr left len (offset - pb_len b) copied_total s
        else do {
          let buf_copy_len = pb_len b - offset;
          let buf_copy_len = (if buf_copy_len > len then len else buf_copy_len);
          let s = memcpy (dataptr + unat left) (pb_payload b + unat offset) (unat buf_copy_len) s;
          copy_partial_loop (pb_next b) dataptr (left + buf_copy_len) (len - buf_copy_len) 0
            (copied_total + buf_copy_len) s
        }
      } else Some (copied_total, s))"

definition pbuf_copy_partial :: "addr \<Rightarrow> addr \<Rightarrow> u16 \<Rightarrow> u16 \<Rightarrow> pb_state \<Rightarrow> (u16 \<times> pb_state) option" where
  "pbuf_copy_partial buf dataptr len offset s =
     (if buf = NULL then Some (0, s) else if dataptr = NULL then Some (0, s)
      else copy_partial_loop buf dataptr 0 len offset 0 s)"

text \<open>\<open>pbuf_skip_const\<close> returns the pbuf and the offset left in it.\<close>

partial_function (option) pbuf_skip_const :: "addr \<Rightarrow> u16 \<Rightarrow> pb_state \<Rightarrow> (addr \<times> u16) option" where
  "pbuf_skip_const q offset_left s =
     (if q \<noteq> NULL then do {
        b \<leftarrow> getp q s;
        if pb_len b \<le> offset_left then pbuf_skip_const (pb_next b) (offset_left - pb_len b) s
        else Some (q, offset_left)
      } else Some (q, offset_left))"

definition pbuf_skip :: "addr \<Rightarrow> u16 \<Rightarrow> pb_state \<Rightarrow> (addr \<times> u16) option" where
  "pbuf_skip p in_offset s = pbuf_skip_const p in_offset s"

definition pbuf_get_contiguous ::
  "addr \<Rightarrow> addr \<Rightarrow> nat \<Rightarrow> u16 \<Rightarrow> u16 \<Rightarrow> pb_state \<Rightarrow> (addr \<times> pb_state) option" where
  "pbuf_get_contiguous p buffer bufsize len offset s =
     (if p = NULL then Some (NULL, s)
      else if \<not> (buffer = NULL \<or> bufsize \<ge> unat len) then Some (NULL, s)
      else do {
        (q, out_offset) \<leftarrow> pbuf_skip_const p offset s;
        if q \<noteq> NULL then do {
          b \<leftarrow> getp q s;
          if unat (pb_len b) \<ge> unat out_offset + unat len then Some (pb_payload b + unat out_offset, s)
          else if buffer = NULL then Some (NULL, s)
          else do {
            (n, s) \<leftarrow> pbuf_copy_partial q buffer len out_offset s;
            Some (if n \<noteq> len then NULL else buffer, s)
          }
        } else Some (NULL, s)
      })"

partial_function (option) take_loop :: "addr \<Rightarrow> addr \<Rightarrow> nat \<Rightarrow> nat \<Rightarrow> pb_state \<Rightarrow> pb_state option" where
  "take_loop p dataptr total_copy_len copied_total s =
     (if total_copy_len \<noteq> 0 then do {
        b \<leftarrow> getp p s;
        let buf_copy_len = (if total_copy_len > unat (pb_len b) then unat (pb_len b) else total_copy_len);
        let s = memcpy (pb_payload b) (dataptr + copied_total) buf_copy_len s;
        take_loop (pb_next b) dataptr (total_copy_len - buf_copy_len) (copied_total + buf_copy_len) s
      } else Some s)"

definition pbuf_take :: "addr \<Rightarrow> addr \<Rightarrow> u16 \<Rightarrow> pb_state \<Rightarrow> (err_t \<times> pb_state) option" where
  "pbuf_take buf dataptr len s =
     (if buf = NULL then Some (ERR_ARG, s)
      else if dataptr = NULL then Some (ERR_ARG, s)
      else do {
        b \<leftarrow> getp buf s;
        if \<not> pb_tot_len b \<ge> len then Some (ERR_MEM, s)
        else do { s \<leftarrow> take_loop buf dataptr (unat len) 0 s; Some (ERR_OK, s) }
      })"

definition pbuf_take_at :: "addr \<Rightarrow> addr \<Rightarrow> u16 \<Rightarrow> u16 \<Rightarrow> pb_state \<Rightarrow> (err_t \<times> pb_state) option" where
  "pbuf_take_at buf dataptr len offset s =
     do {
       (q, target_offset) \<leftarrow> pbuf_skip buf offset s;
       if q = NULL then Some (ERR_MEM, s)
       else do {
         b \<leftarrow> getp q s;
         if unat (pb_tot_len b) \<ge> unat target_offset + unat len then do {
           let first_copy_len = (of_nat (min (unat (pb_len b) - unat target_offset) (unat len)) :: u16);
           let s = memcpy (pb_payload b + unat target_offset) dataptr (unat first_copy_len) s;
           let remaining_len = len - first_copy_len;
           if remaining_len > 0 then pbuf_take (pb_next b) (dataptr + unat first_copy_len) remaining_len s
           else Some (ERR_OK, s)
         } else Some (ERR_MEM, s)
       }
     }"

definition pbuf_clone :: "u16 \<Rightarrow> pbuf_type \<Rightarrow> addr \<Rightarrow> pb_state \<Rightarrow> (addr \<times> pb_state) option" where
  "pbuf_clone layer type p s =
     do {
       b \<leftarrow> getp p s;
       (q, s) \<leftarrow> pbuf_alloc layer (pb_tot_len b) type s;
       if q = NULL then Some (NULL, s)
       else do { (err, s) \<leftarrow> pbuf_copy q p s; Some (q, s) }
     }"

definition pbuf_coalesce :: "addr \<Rightarrow> u16 \<Rightarrow> pb_state \<Rightarrow> (addr \<times> pb_state) option" where
  "pbuf_coalesce p layer s =
     do {
       b \<leftarrow> getp p s;
       if pb_next b = NULL then Some (p, s)
       else do {
         (q, s) \<leftarrow> pbuf_clone layer PBUF_RAM p s;
         if q = NULL then Some (p, s)
         else do { (_, s) \<leftarrow> pbuf_free p s; Some (q, s) }
       }
     }"

section \<open>Access, comparison and search\<close>

definition pbuf_try_get_at :: "addr \<Rightarrow> u16 \<Rightarrow> pb_state \<Rightarrow> int option" where
  "pbuf_try_get_at p offset s =
     do {
       (q, q_idx) \<leftarrow> pbuf_skip_const p offset s;
       if q \<noteq> NULL then do {
         b \<leftarrow> getp q s;
         Some (if pb_len b > q_idx then uint (bytes s (pb_payload b + unat q_idx)) else -1)
       } else Some (-1)
     }"

definition pbuf_get_at :: "addr \<Rightarrow> u16 \<Rightarrow> pb_state \<Rightarrow> u8 option" where
  "pbuf_get_at p offset s =
     do { ret \<leftarrow> pbuf_try_get_at p offset s; Some (if ret \<ge> 0 then of_int ret else 0) }"

definition pbuf_put_at :: "addr \<Rightarrow> u16 \<Rightarrow> u8 \<Rightarrow> pb_state \<Rightarrow> pb_state option" where
  "pbuf_put_at p offset v s =
     do {
       (q, q_idx) \<leftarrow> pbuf_skip p offset s;
       if q \<noteq> NULL then do {
         b \<leftarrow> getp q s;
         Some (if pb_len b > q_idx then s\<lparr>bytes := (bytes s)(pb_payload b + unat q_idx := v)\<rparr> else s)
       } else Some s
     }"

text \<open>The comparison loop of \<open>pbuf_memcmp\<close>, from the byte \<open>i\<close> on.\<close>

partial_function (option) memcmp_loop :: "addr \<Rightarrow> u16 \<Rightarrow> addr \<Rightarrow> u16 \<Rightarrow> u16 \<Rightarrow> pb_state \<Rightarrow> u16 option" where
  "memcmp_loop q start s2 n i s =
     (if i < n then do {
        a \<leftarrow> pbuf_get_at q (start + i) s;
        let b = bytes s (s2 + unat i);
        if a \<noteq> b then Some (of_nat (min (unat i + 1) 0xFFFF))
        else memcmp_loop q start s2 n (i + 1) s
      } else Some 0)"

text \<open>\<open>pbuf_memcmp\<close> skips to the start with a loop of its own, the same as that of \<open>pbuf_skip_const\<close>.\<close>

definition pbuf_memcmp :: "addr \<Rightarrow> u16 \<Rightarrow> addr \<Rightarrow> u16 \<Rightarrow> pb_state \<Rightarrow> u16 option" where
  "pbuf_memcmp p offset s2 n s =
     do {
       b \<leftarrow> getp p s;
       if unat (pb_tot_len b) < unat offset + unat n then Some 0xFFFF
       else do {
         (q, start) \<leftarrow> pbuf_skip_const p offset s;
         memcmp_loop q start s2 n 0 s
       }
     }"

partial_function (option) memfind_loop :: "addr \<Rightarrow> addr \<Rightarrow> u16 \<Rightarrow> u16 \<Rightarrow> u16 \<Rightarrow> pb_state \<Rightarrow> u16 option" where
  "memfind_loop p mem mem_len max_cmp_start i s =
     (if i \<le> max_cmp_start then do {
        plus \<leftarrow> pbuf_memcmp p i mem mem_len s;
        if plus = 0 then Some i else memfind_loop p mem mem_len max_cmp_start (i + 1) s
      } else Some 0xFFFF)"

definition pbuf_memfind :: "addr \<Rightarrow> addr \<Rightarrow> u16 \<Rightarrow> u16 \<Rightarrow> pb_state \<Rightarrow> u16 option" where
  "pbuf_memfind p mem mem_len start_offset s =
     do {
       b \<leftarrow> getp p s;
       let max_cmp_start = pb_tot_len b - mem_len;
       if unat (pb_tot_len b) \<ge> unat mem_len + unat start_offset
       then memfind_loop p mem mem_len max_cmp_start start_offset s
       else Some 0xFFFF
     }"

definition pbuf_strstr :: "addr \<Rightarrow> addr \<Rightarrow> pb_state \<Rightarrow> u16 option" where
  "pbuf_strstr p substr s =
     (if substr = NULL \<or> bytes s substr = 0 then Some 0xFFFF
      else do {
        b \<leftarrow> getp p s;
        if pb_tot_len b = 0xFFFF then Some 0xFFFF
        else do {
          substr_len \<leftarrow> strlen (bytes s) substr;
          if substr_len \<ge> 0xFFFF then Some 0xFFFF
          else pbuf_memfind p substr (of_nat substr_len) 0 s
        }
      })"

section \<open>The data of a chain\<close>

definition cells :: "(addr \<Rightarrow> pbuf option) \<Rightarrow> addr list \<Rightarrow> addr list" where
  "cells m qs = concat (map (\<lambda>q. [pb_payload (the (m q)) ..< pb_payload (the (m q)) + blen m q]) qs)"

definition pdata :: "pb_state \<Rightarrow> addr list \<Rightarrow> u8 list" where
  "pdata s qs = map (bytes s) (cells (pbufs s) qs)"

text \<open>Writing a list of values along a list of addresses, the first occurrence counting.\<close>

definition wr :: "addr list \<Rightarrow> u8 list \<Rightarrow> (addr \<Rightarrow> u8) \<Rightarrow> addr \<Rightarrow> u8" where
  "wr as vs m a = (case map_of (zip as vs) a of Some v \<Rightarrow> v | None \<Rightarrow> m a)"

lemma cells_simps [simp]:
  "cells m [] = []" "cells m (q # qs) = [pb_payload (the (m q)) ..< pb_payload (the (m q)) + blen m q] @ cells m qs"
  "cells m (xs @ ys) = cells m xs @ cells m ys"
  by (simp_all add: cells_def)

lemma length_cells [simp]: "length (cells m qs) = sum_len m qs"
  by (induction qs) simp_all

lemma length_pdata [simp]: "length (pdata s qs) = sum_len (pbufs s) qs"
  by (simp add: pdata_def)

lemma wr_Nil [simp]: "wr [] vs m = m" "wr as [] m = m"
  by (simp_all add: wr_def fun_eq_iff)

lemma wr_notin: "a \<notin> set as \<Longrightarrow> wr as vs m a = m a"
  by (auto simp: wr_def split: option.splits dest!: map_of_SomeD set_zip_leftD)

lemma wr_nth:
  "distinct as \<Longrightarrow> length vs = length as \<Longrightarrow> i < length as \<Longrightarrow> wr as vs m (as ! i) = vs ! i"
  by (simp add: wr_def map_of_zip_nth)

lemma map_wr_same: "distinct as \<Longrightarrow> length vs = length as \<Longrightarrow> map (wr as vs m) as = vs"
  by (simp add: list_eq_iff_nth_eq wr_nth)

lemma map_wr_disj: "set bs \<inter> set as = {} \<Longrightarrow> map (wr as vs m) bs = map m bs"
  by (intro map_cong refl wr_notin) blast

lemma wr_append:
  assumes "length vs = length as"
  shows "wr (as @ bs) (vs @ ws) m = wr as vs (wr bs ws m)"
  using assms by (auto simp: wr_def fun_eq_iff zip_append map_add_def simp del: map_of_zip_is_None
      split: option.splits)

lemma wr_append':
  assumes "length vs = length as" and "set as \<inter> set bs = {}"
  shows "wr (as @ bs) (vs @ ws) m = wr bs ws (wr as vs m)"
proof (rule ext)
  fix a
  show "wr (as @ bs) (vs @ ws) m a = wr bs ws (wr as vs m) a"
  proof (cases "a \<in> set as")
    case True
    then have "a \<notin> set bs" using assms(2) by auto
    then show ?thesis
      by (simp add: wr_append [OF assms(1)] wr_notin)
        (simp add: wr_def [of as] wr_notin split: option.split)
  next
    case False
    then show ?thesis
      by (simp add: wr_append [OF assms(1)] wr_notin) (simp add: wr_def [of bs] wr_notin split: option.split)
  qed
qed

lemma map_of_zip_upt:
  "map_of (zip [d..<d + n] vs) a = (if d \<le> a \<and> a < d + n \<and> a - d < length vs then Some (vs ! (a - d)) else None)"
proof (induction n arbitrary: d vs)
  case 0
  then show ?case by simp
next
  case (Suc n)
  have u: "[d..<d + Suc n] = d # [Suc d..<Suc d + n]" by (simp add: upt_rec)
  show ?case
  proof (cases vs)
    case Nil
    then show ?thesis by simp
  next
    case (Cons v vs')
    show ?thesis unfolding u Cons using Suc.IH [of "Suc d" vs']
      by (auto simp: nth_Cons' Suc_diff_Suc)
  qed
qed

lemma memcpy_wr:
  "memcpy d src n s = s\<lparr>bytes := wr [d..<d + n] (map (bytes s) [src..<src + n]) (bytes s)\<rparr>"
proof -
  have "wr [d..<d + n] (map (bytes s) [src..<src + n]) (bytes s)
      = (\<lambda>a. if d \<le> a \<and> a < d + n then bytes s (src + (a - d)) else bytes s a)"
    by (auto simp: wr_def map_of_zip_upt fun_eq_iff)
  then show ?thesis by (simp add: memcpy_def)
qed

lemma memcpy_simps [simp]:
  "pbufs (memcpy d src n s) = pbufs s" "getp q (memcpy d src n s) = getp q s"
  by (simp_all add: memcpy_def getp_def)

section \<open>Copying out of a chain\<close>

lemma take_drop_segment:
  assumes "off \<le> n"
  shows "take l (drop off ([a..<a + n] @ cs)) = [a + off..<a + off + min (n - off) l] @ take (l - (n - off)) cs"
proof (cases "l \<le> n - off")
  case True
  then show ?thesis using assms by (simp add: take_upt min_def)
next
  case False
  then show ?thesis using assms by (simp add: min_def)
qed

lemma upt_split: "[a..<a + (m + n)] = [a..<a + m] @ [a + m..<a + m + n]"
  using upt_add_eq_append [of a "a + m" n] by (simp add: add.assoc)

lemma disjoint_mono: "A \<subseteq> A' \<Longrightarrow> B \<subseteq> B' \<Longrightarrow> A' \<inter> B' = {} \<Longrightarrow> A \<inter> B = {}"
  by blast

text \<open>The rest of a chain behind its first pbuf.\<close>

lemma linked_ConsD:
  assumes "linked (nexts s) p (q # qs)"
  obtains b where "p = q" "q \<noteq> NULL" "getp q s = Some b" "pbufs s q = Some b" "linked (nexts s) (pb_next b) qs"
  using assms by (auto simp: getp_def)

lemma linked_bytes [simp]: "linked (nexts (s\<lparr>bytes := m\<rparr>)) p qs = linked (nexts s) p qs"
  by simp

lemma copy_partial_loop_ok:
  assumes "linked (nexts s) p qs" and "unat lft + unat len < 65536"
    and "set (cells (pbufs s) qs) \<inter> {d..<d + unat lft + unat len} = {}"
  shows "copy_partial_loop p d lft len off k s =
     (let as = take (unat len) (drop (unat off) (cells (pbufs s) qs)) in
      Some (k + of_nat (length as),
        s\<lparr>bytes := wr [d + unat lft..<d + unat lft + length as] (map (bytes s) as) (bytes s)\<rparr>))"
  using assms
proof (induction qs arbitrary: p lft len off k s)
  case Nil
  then show ?case by (simp add: copy_partial_loop.simps)
next
  case (Cons q qs)
  from Cons.prems(1) obtain b where b: "p = q" "q \<noteq> NULL" "getp q s = Some b" "pbufs s q = Some b"
    "linked (nexts s) (pb_next b) qs" by (rule linked_ConsD)
  have bl: "blen (pbufs s) q = unat (pb_len b)" using b(4) by (simp add: blen_def)
  have c: "cells (pbufs s) (q # qs) = [pb_payload b..<pb_payload b + unat (pb_len b)] @ cells (pbufs s) qs"
    using b(4) by (simp add: bl)
  show ?case
  proof (cases "len = 0 \<or> off \<noteq> 0 \<and> off \<ge> pb_len b")
    case True
    then show ?thesis
    proof
      assume "len = 0"
      then show ?thesis by (simp add: copy_partial_loop.simps)
    next
      assume o: "off \<noteq> 0 \<and> off \<ge> pb_len b"
      then have "unat (off - pb_len b) = unat off - unat (pb_len b)" by (simp add: unat_sub_le)
      moreover have "unat (pb_len b) \<le> unat off" using o by (simp add: word_le_nat_alt)
      ultimately show ?thesis
        using Cons.IH [OF b(5), of lft len "off - pb_len b" k] Cons.prems(2,3) o b(1-3)
        unfolding c by (subst copy_partial_loop.simps) (auto simp: Let_def c)
    qed
  next
    case False
    define m where "m = (if pb_len b - off > len then len else pb_len b - off)"
    have offle: "off \<le> pb_len b" using False by (auto simp: not_le)
    have offn: "unat off \<le> unat (pb_len b)" using offle by (simp add: word_le_nat_alt)
    have mn: "unat m = min (unat (pb_len b) - unat off) (unat len)"
      using offle by (auto simp: m_def unat_sub_le word_less_nat_alt min_def)
    have ml: "m \<le> len" by (auto simp: m_def not_less)
    have sum: "unat (lft + m) = unat lft + unat m"
      using Cons.prems(2) mn by (intro unat_add_no_wrap) simp
    have rest: "unat (len - m) = unat len - (unat (pb_len b) - unat off)"
      using unat_sub_le [OF ml] mn by linarith
    let ?s = "memcpy (d + unat lft) (pb_payload b + unat off) (unat m) s"
    let ?as = "[pb_payload b + unat off..<pb_payload b + unat off + unat m]"
    let ?bs = "take (unat (len - m)) (cells (pbufs s) qs)"
    let ?D = "[d + unat lft..<d + unat lft + unat m]"
    have split: "take (unat len) (drop (unat off) (cells (pbufs s) (q # qs))) = ?as @ ?bs"
      unfolding c take_drop_segment [OF offn] mn rest ..
    have lin: "linked (nexts ?s) (pb_next b) qs" using b(5) by simp
    have u: "unat (lft + m) + unat (len - m) = unat lft + unat len"
      using sum unat_sub_le [OF ml] ml by (simp add: word_le_nat_alt)
    have dis: "set (cells (pbufs ?s) qs) \<inter> {d..<d + unat (lft + m) + unat (len - m)} = {}"
      using Cons.prems(3) u by (auto simp: add.assoc)
    have bs: "bytes ?s = wr ?D (map (bytes s) ?as) (bytes s)" by (simp add: memcpy_wr)
    have keep: "map (bytes ?s) ?bs = map (bytes s) ?bs"
    proof -
      have "set ?bs \<subseteq> set (cells (pbufs s) qs)" by (rule set_take_subset)
      moreover have "set ?D \<subseteq> {d..<d + unat lft + unat len}" using mn by auto
      moreover have "set (cells (pbufs s) qs) \<inter> {d..<d + unat lft + unat len} = {}"
        using Cons.prems(3) by (simp add: Int_Un_distrib2)
      ultimately have "set ?bs \<inter> set ?D = {}" by (rule disjoint_mono)
      then show ?thesis unfolding bs by (rule map_wr_disj)
    qed
    have step: "copy_partial_loop p d lft len off k s
        = copy_partial_loop (pb_next b) d (lft + m) (len - m) 0 (k + m) ?s"
      using False b(1-3) by (subst copy_partial_loop.simps) (auto simp: Let_def m_def)
    have D: "[d + unat lft..<d + unat lft + length (?as @ ?bs)]
        = ?D @ [d + unat (lft + m)..<d + unat (lft + m) + length ?bs]"
      using upt_split [of "d + unat lft" "unat m" "length ?bs"] by (simp add: sum add.assoc)
    have w: "wr [d + unat lft..<d + unat lft + length (?as @ ?bs)] (map (bytes s) (?as @ ?bs)) (bytes s)
       = wr [d + unat (lft + m)..<d + unat (lft + m) + length ?bs] (map (bytes s) ?bs) (bytes ?s)"
      unfolding D map_append bs by (rule wr_append') (auto simp: sum)
    have "copy_partial_loop p d lft len off k s =
      Some (k + m + of_nat (length ?bs),
        ?s\<lparr>bytes := wr [d + unat (lft + m)..<d + unat (lft + m) + length ?bs] (map (bytes ?s) ?bs) (bytes ?s)\<rparr>)"
      unfolding step using Cons.IH [OF lin _ dis, of 0 "k + m"] u Cons.prems(2) by (simp add: Let_def)
    also have "\<dots> = Some (k + of_nat (length (?as @ ?bs)),
        s\<lparr>bytes := wr [d + unat lft..<d + unat lft + length (?as @ ?bs)] (map (bytes s) (?as @ ?bs)) (bytes s)\<rparr>)"
      unfolding w keep by (simp add: memcpy_def add.assoc)
    finally show ?thesis unfolding split Let_def .
  qed
qed

lemma pbuf_copy_partial_ok:
  assumes "linked (nexts s) p qs" and "qs \<noteq> []" and "d \<noteq> NULL"
    and "set (cells (pbufs s) qs) \<inter> {d..<d + unat len} = {}"
  shows "pbuf_copy_partial p d len off s =
     (let vs = take (unat len) (drop (unat off) (pdata s qs)) in
      Some (of_nat (length vs), s\<lparr>bytes := wr [d..<d + length vs] vs (bytes s)\<rparr>))"
proof -
  have "p \<noteq> NULL" using assms(1,2) by (cases qs) auto
  then show ?thesis
    using copy_partial_loop_ok [OF assms(1), of 0 len d off 0] assms(3,4)
    by (simp add: pbuf_copy_partial_def Let_def pdata_def take_map drop_map)
qed

section \<open>Copying into a chain\<close>

lemma take_loop_ok:
  assumes "linked (nexts s) p qs" and "n \<le> sum_len (pbufs s) qs" and "distinct (cells (pbufs s) qs)"
    and "set (cells (pbufs s) qs) \<inter> {d + k..<d + k + n} = {}"
  shows "take_loop p d n k s =
     Some (s\<lparr>bytes := wr (take n (cells (pbufs s) qs)) (map (bytes s) [d + k..<d + k + n]) (bytes s)\<rparr>)"
  using assms
proof (induction qs arbitrary: p n k s)
  case Nil
  then show ?case by (simp add: take_loop.simps)
next
  case (Cons q qs)
  from Cons.prems(1) obtain b where b: "p = q" "q \<noteq> NULL" "getp q s = Some b" "pbufs s q = Some b"
    "linked (nexts s) (pb_next b) qs" by (rule linked_ConsD)
  have bl: "blen (pbufs s) q = unat (pb_len b)" using b(4) by (simp add: blen_def)
  have c: "cells (pbufs s) (q # qs) = [pb_payload b..<pb_payload b + unat (pb_len b)] @ cells (pbufs s) qs"
    using b(4) by (simp add: bl)
  show ?case
  proof (cases "n = 0")
    case True
    then show ?thesis by (simp add: take_loop.simps)
  next
    case False
    let ?m = "min (unat (pb_len b)) n"
    let ?s = "memcpy (pb_payload b) (d + k) ?m s"
    let ?as = "[pb_payload b..<pb_payload b + ?m]"
    let ?bs = "take (n - ?m) (cells (pbufs s) qs)"
    have split: "take n (cells (pbufs s) (q # qs)) = ?as @ ?bs"
      unfolding c using take_drop_segment [of 0 "unat (pb_len b)" n "pb_payload b" "cells (pbufs s) qs"]
      by (auto simp: min_def)
    have src: "[d + k..<d + k + n] = [d + k..<d + k + ?m] @ [d + (k + ?m)..<d + (k + ?m) + (n - ?m)]"
      using upt_add_eq_append [of "d + k" "d + k + ?m" "n - ?m"] by (simp add: add.assoc)
    have n: "n - ?m \<le> sum_len (pbufs ?s) qs" using Cons.prems(2) bl by (auto simp: min_def)
    have dis: "set (cells (pbufs ?s) qs) \<inter> {d + (k + ?m)..<d + (k + ?m) + (n - ?m)} = {}"
      using Cons.prems(4) by auto
    have bs: "bytes ?s = wr ?as (map (bytes s) [d + k..<d + k + ?m]) (bytes s)" by (simp add: memcpy_wr)
    have "set ?as \<subseteq> set (cells (pbufs s) (q # qs))" unfolding c by auto
    moreover have "set [d + (k + ?m)..<d + (k + ?m) + (n - ?m)] \<subseteq> {d + k..<d + k + n}" by auto
    moreover have "{d + k..<d + k + n} \<inter> set (cells (pbufs s) (q # qs)) = {}" using Cons.prems(4) by blast
    ultimately have "set [d + (k + ?m)..<d + (k + ?m) + (n - ?m)] \<inter> set ?as = {}" by blast
    then have keep: "map (bytes ?s) [d + (k + ?m)..<d + (k + ?m) + (n - ?m)]
        = map (bytes s) [d + (k + ?m)..<d + (k + ?m) + (n - ?m)]"
      unfolding bs by (rule map_wr_disj)
    have lin: "linked (nexts ?s) (pb_next b) qs" using b(5) by simp
    have dst: "distinct (cells (pbufs ?s) qs)" using Cons.prems(3) by simp
    have "set ?bs \<subseteq> set (cells (pbufs s) qs)" by (rule set_take_subset)
    moreover have "{pb_payload b..<pb_payload b + unat (pb_len b)} \<inter> set (cells (pbufs s) qs) = {}"
      using Cons.prems(3) unfolding c by simp
    ultimately have ab: "set ?as \<inter> set ?bs = {}" by fastforce
    have w: "wr (?as @ ?bs) (map (bytes s) [d + k..<d + k + n]) (bytes s)
        = wr ?bs (map (bytes s) [d + (k + ?m)..<d + (k + ?m) + (n - ?m)]) (bytes ?s)"
      unfolding src map_append bs by (rule wr_append' [OF _ ab]) simp
    have "take_loop p d n k s = take_loop (pb_next b) d (n - ?m) (k + ?m) ?s"
      using False b(1-3) by (subst take_loop.simps) (simp add: Let_def min_def)
    then show ?thesis
      unfolding split w Cons.IH [OF lin n dst dis] keep by (simp add: memcpy_def)
  qed
qed

lemma packet_tot:
  assumes "packet s p qs" and "qs \<noteq> []"
  obtains b where "getp p s = Some b" "unat (pb_tot_len b) = sum_len (pbufs s) qs" "p \<noteq> NULL"
proof -
  obtain q qs' where qs: "qs = q # qs'" using assms(2) by (cases qs) auto
  then show thesis using assms(1) that by (auto simp: packet_def getp_def tlen_def)
qed

lemma pbuf_take_ok:
  assumes "packet s p qs" and "qs \<noteq> []" and "d \<noteq> NULL" and "distinct (cells (pbufs s) qs)"
    and "set (cells (pbufs s) qs) \<inter> {d..<d + unat len} = {}"
  shows "pbuf_take p d len s =
     (if unat len \<le> sum_len (pbufs s) qs
      then Some (ERR_OK, s\<lparr>bytes := wr (take (unat len) (cells (pbufs s) qs)) (map (bytes s) [d..<d + unat len]) (bytes s)\<rparr>)
      else Some (ERR_MEM, s))"
proof -
  obtain b where b: "getp p s = Some b" "unat (pb_tot_len b) = sum_len (pbufs s) qs" "p \<noteq> NULL"
    by (rule packet_tot [OF assms(1,2)])
  have "linked (nexts s) p qs" using assms(1) by (simp add: packet_def)
  from take_loop_ok [OF this _ assms(4), of "unat len" d 0] show ?thesis
    using b assms(3,5) by (auto simp: pbuf_take_def word_le_nat_alt)
qed

section \<open>Access by offset\<close>

lemma pbuf_skip_const_ok:
  assumes "linked (nexts s) p qs"
  shows "\<exists>q k. pbuf_skip_const p off s = Some (q, k) \<and>
     (if sum_len (pbufs s) qs \<le> unat off then q = NULL
      else \<exists>xs ys. qs = xs @ q # ys \<and> q \<noteq> NULL \<and> linked (nexts s) q (q # ys) \<and> unat k < blen (pbufs s) q
        \<and> unat off = sum_len (pbufs s) xs + unat k)"
  using assms
proof (induction qs arbitrary: p off)
  case Nil
  then show ?case by (simp add: pbuf_skip_const.simps)
next
  case (Cons q qs)
  from Cons.prems obtain b where b: "p = q" "q \<noteq> NULL" "getp q s = Some b" "pbufs s q = Some b"
    "linked (nexts s) (pb_next b) qs" by (rule linked_ConsD)
  have bl: "blen (pbufs s) q = unat (pb_len b)" using b(4) by (simp add: blen_def)
  show ?case
  proof (cases "pb_len b \<le> off")
    case True
    then have o: "unat (off - pb_len b) = unat off - unat (pb_len b)" "unat (pb_len b) \<le> unat off"
      by (simp_all add: unat_sub_le word_le_nat_alt)
    obtain r k where r: "pbuf_skip_const (pb_next b) (off - pb_len b) s = Some (r, k)"
      "if sum_len (pbufs s) qs \<le> unat (off - pb_len b) then r = NULL
       else \<exists>xs ys. qs = xs @ r # ys \<and> r \<noteq> NULL \<and> linked (nexts s) r (r # ys) \<and> unat k < blen (pbufs s) r
        \<and> unat (off - pb_len b) = sum_len (pbufs s) xs + unat k"
      using Cons.IH [OF b(5), of "off - pb_len b"] by blast
    have e: "pbuf_skip_const p off s = Some (r, k)"
      using r(1) True b(1-3) by (subst pbuf_skip_const.simps) simp
    show ?thesis
    proof (cases "sum_len (pbufs s) qs \<le> unat (off - pb_len b)")
      case le: True
      then show ?thesis using e r(2) o bl by auto
    next
      case False
      then obtain xs ys where "qs = xs @ r # ys" "r \<noteq> NULL" "linked (nexts s) r (r # ys)" "unat k < blen (pbufs s) r"
        "unat (off - pb_len b) = sum_len (pbufs s) xs + unat k" using r(2) by auto
      then have "q # qs = (q # xs) @ r # ys \<and> r \<noteq> NULL \<and> linked (nexts s) r (r # ys) \<and> unat k < blen (pbufs s) r
        \<and> unat off = sum_len (pbufs s) (q # xs) + unat k" using o bl by simp
      moreover have "\<not> sum_len (pbufs s) (q # qs) \<le> unat off" using False o bl by simp
      ultimately show ?thesis using e by (metis (no_types, lifting))
    qed
  next
    case False
    then have "pbuf_skip_const p off s = Some (q, off)" using b(1-3) by (subst pbuf_skip_const.simps) simp
    moreover have "unat off < blen (pbufs s) q" using False bl by (simp add: word_le_nat_alt)
    moreover have "q # qs = [] @ q # qs" "unat off = sum_len (pbufs s) [] + unat off" by simp_all
    moreover have "\<not> sum_len (pbufs s) (q # qs) \<le> unat off" using calculation(2) by simp
    ultimately show ?thesis using Cons.prems b(1,2) by metis
  qed
qed

text \<open>The byte at an offset is in the pbuf that \<open>pbuf_skip_const\<close> finds.\<close>

lemma skip_cell:
  assumes "linked (nexts s) p qs" and "unat off < sum_len (pbufs s) qs"
  obtains q k b xs ys where "pbuf_skip_const p off s = Some (q, k)" "q \<noteq> NULL" "getp q s = Some b" "k < pb_len b"
    "cells (pbufs s) qs ! unat off = pb_payload b + unat k" "qs = xs @ q # ys" "linked (nexts s) q (q # ys)"
    "unat off = sum_len (pbufs s) xs + unat k"
proof -
  obtain q k xs ys where q: "pbuf_skip_const p off s = Some (q, k)" "qs = xs @ q # ys" "q \<noteq> NULL"
    "linked (nexts s) q (q # ys)" "unat k < blen (pbufs s) q" "unat off = sum_len (pbufs s) xs + unat k"
    using pbuf_skip_const_ok [OF assms(1), of off] assms(2) by auto
  from q(4) obtain b where b: "getp q s = Some b" "pbufs s q = Some b" by (rule linked_ConsD)
  have "k < pb_len b" using q(5) b(2) by (simp add: blen_def word_less_nat_alt)
  moreover have "cells (pbufs s) qs ! unat off = pb_payload b + unat k"
    using q(2,5,6) b(2) by (simp add: nth_append)
  ultimately show thesis using that q b by blast
qed

lemma pbuf_try_get_at_ok:
  assumes "linked (nexts s) p qs"
  shows "pbuf_try_get_at p off s =
     Some (if unat off < sum_len (pbufs s) qs then uint (pdata s qs ! unat off) else -1)"
proof (cases "unat off < sum_len (pbufs s) qs")
  case True
  then obtain q k b xs ys where "pbuf_skip_const p off s = Some (q, k)" "q \<noteq> NULL" "getp q s = Some b" "k < pb_len b"
    "cells (pbufs s) qs ! unat off = pb_payload b + unat k" using skip_cell [OF assms] by metis
  then show ?thesis using True by (simp add: pbuf_try_get_at_def pdata_def)
next
  case False
  then show ?thesis using pbuf_skip_const_ok [OF assms, of off] by (auto simp: pbuf_try_get_at_def)
qed

lemma pbuf_get_at_ok:
  assumes "linked (nexts s) p qs"
  shows "pbuf_get_at p off s = Some (if unat off < sum_len (pbufs s) qs then pdata s qs ! unat off else 0)"
  by (simp add: pbuf_get_at_def pbuf_try_get_at_ok [OF assms])

lemma pbuf_put_at_ok:
  assumes "linked (nexts s) p qs"
  shows "pbuf_put_at p off v s =
     Some (if unat off < sum_len (pbufs s) qs
           then s\<lparr>bytes := (bytes s)(cells (pbufs s) qs ! unat off := v)\<rparr> else s)"
proof (cases "unat off < sum_len (pbufs s) qs")
  case True
  then obtain q k b xs ys where "pbuf_skip_const p off s = Some (q, k)" "q \<noteq> NULL" "getp q s = Some b" "k < pb_len b"
    "cells (pbufs s) qs ! unat off = pb_payload b + unat k" using skip_cell [OF assms] by metis
  then show ?thesis using True by (simp add: pbuf_put_at_def pbuf_skip_def)
next
  case False
  then show ?thesis using pbuf_skip_const_ok [OF assms, of off] by (auto simp: pbuf_put_at_def pbuf_skip_def)
qed

section \<open>Copying between chains\<close>

text \<open>
  Behind the first pbuf there are no empty ones: this is what tells the last pbuf of a packet,
  whose length is its total length, from the end of a packet in a queue.
\<close>

definition solid :: "(addr \<Rightarrow> pbuf option) \<Rightarrow> addr list \<Rightarrow> bool" where
  "solid m qs \<longleftrightarrow> (\<forall>q \<in> set (tl qs). 0 < blen m q)"

lemma queue_check_ok:
  assumes "packet s p qs" and "solid (pbufs s) qs"
  shows "queue_check p s = Some False"
proof (cases qs)
  case Nil
  then show ?thesis using assms(1) by (simp add: packet_def queue_check_def)
next
  case (Cons q qs')
  then obtain b where b: "p = q" "q \<noteq> NULL" "getp q s = Some b" "pbufs s q = Some b" "linked (nexts s) (pb_next b) qs'"
    using assms(1) unfolding packet_def by (blast elim: linked_ConsD)
  have "unat (pb_tot_len b) = unat (pb_len b) + sum_len (pbufs s) qs'"
    using assms(1) b(4) unfolding Cons packet_def by (simp add: tlen_def blen_def)
  then have "pb_len b = pb_tot_len b \<Longrightarrow> sum_len (pbufs s) qs' = 0" by simp
  moreover have "sum_len (pbufs s) qs' = 0 \<Longrightarrow> qs' = []"
    using assms(2) unfolding Cons solid_def by (cases qs') auto
  ultimately show ?thesis using b by (auto simp: queue_check_def)
qed

lemma queue_check_memcpy [simp]: "queue_check p (memcpy d src n s) = queue_check p s"
  by (simp add: queue_check_def)

text \<open>Moving \<open>k\<close> bytes on in a chain, to the next pbuf at the end of the current one.\<close>

lemma advance:
  assumes p: "packet s p (q # qs)" and sol: "solid (pbufs s) (q # qs)" and k: "off + k \<le> blen (pbufs s) q"
    and b: "getp q s = Some b"
  obtains qs' where
    "packet s (if off + k = blen (pbufs s) q then pb_next b else p) qs'" "solid (pbufs s) qs'"
    "drop k (drop off (cells (pbufs s) (q # qs)))
       = drop (if off + k = blen (pbufs s) q then 0 else off + k) (cells (pbufs s) qs')"
    "set (cells (pbufs s) qs') \<subseteq> set (cells (pbufs s) (q # qs))"
    "distinct (cells (pbufs s) (q # qs)) \<longrightarrow> distinct (cells (pbufs s) qs')"
    "if off + k = blen (pbufs s) q then length qs' = length qs else qs' = q # qs"
proof (cases "off + k = blen (pbufs s) q")
  case True
  have "packet s (pb_next b) qs" using p b by (auto simp: packet_def getp_def split: if_splits)
  moreover have "solid (pbufs s) qs" using sol by (cases qs) (auto simp: solid_def)
  moreover have "drop k (drop off (cells (pbufs s) (q # qs))) = cells (pbufs s) qs" using True by (simp add: add.commute)
  ultimately show thesis using that [of qs] True by simp
next
  case False
  then show thesis using that [of "q # qs"] p sol by (simp add: drop_drop add.commute del: cells_simps drop_append)
qed

lemma packet_bytes [simp]: "packet (s\<lparr>bytes := m\<rparr>) p qs = packet s p qs"
  by (simp add: packet_def)

lemma packet_memcpy [simp]: "packet (memcpy d src n s) p qs = packet s p qs"
  by (simp add: packet_def)

lemma packet_Cons:
  assumes "packet s p (q # qs)"
  obtains b where "p = q" "q \<noteq> NULL" "getp q s = Some b" "blen (pbufs s) q = unat (pb_len b)" "blen (pbufs s) q < 65536"
    "cells (pbufs s) (q # qs) = [pb_payload b..<pb_payload b + blen (pbufs s) q] @ cells (pbufs s) qs"
proof -
  from assms obtain b where b: "p = q" "q \<noteq> NULL" "getp q s = Some b" "pbufs s q = Some b"
    unfolding packet_def by (blast elim: linked_ConsD)
  then show thesis using that [of b] by (simp add: blen_def)
qed

text \<open>Reads after a write to other cells, and the two halves of a copy.\<close>

lemma wr_two:
  assumes d: "distinct X" and xy: "set X \<inter> set Y = {}"
    and m: "m' = wr (take k X) (map m (take k Y)) m" and l: "k \<le> length X" "k \<le> length Y" and n: "k \<le> n"
  shows "wr (take (n - k) (drop k X)) (map m' (take (n - k) (drop k Y))) m' = wr (take n X) (map m (take n Y)) m"
proof -
  have t: "take n Z = take k Z @ take (n - k) (drop k Z)" for Z :: "nat list"
    using n take_add [of k "n - k" Z] by simp
  have sub: "set (take (n - k) (drop k Y)) \<subseteq> set Y" "set (take k X) \<subseteq> set X"
    by (meson set_drop_subset set_take_subset subset_trans)+
  have rd: "map m' (take (n - k) (drop k Y)) = map m (take (n - k) (drop k Y))"
    unfolding m by (rule map_wr_disj) (use sub xy in blast)
  have "set (take k X) \<inter> set (drop k X) = {}" using d by (rule set_take_disj_set_drop_if_distinct) simp
  then have dis: "set (take k X) \<inter> set (take (n - k) (drop k X)) = {}"
    using set_take_subset [of "n - k" "drop k X"] by blast
  show ?thesis
    unfolding rd t [of X] t [of Y] map_append unfolding m by (rule wr_append' [OF _ dis, symmetric]) (use l in simp)
qed

text \<open>One round of the copy loop copies \<open>k\<close> bytes and moves on in both chains.\<close>

lemma copy_pbuf_loop_step:
  assumes pt: "packet s pt (t # ts)" and pf: "packet s pf (f # fs)"
    and ot: "ot \<le> blen (pbufs s) t" and off: "off \<le> blen (pbufs s) f"
    and bt: "getp t s = Some bt" and bf: "getp f s = Some bf"
    and k: "k = min (unat n) (min (blen (pbufs s) f - off) (blen (pbufs s) t - ot))"
    and pf': "pf' = (if off + k = blen (pbufs s) f then pb_next bf else pf)"
    and of': "of' = (if off + k = blen (pbufs s) f then 0 else off + k)"
    and pt': "pt' = (if ot + k = blen (pbufs s) t then pb_next bt else pt)"
    and ot': "ot' = (if ot + k = blen (pbufs s) t then 0 else ot + k)"
    and nn: "pf' = NULL \<or> pt' = NULL \<Longrightarrow> k = unat n"
    and q: "queue_check pf' s = Some False" "queue_check pt' s = Some False"
  shows "copy_pbuf_loop pt pf n ot off s =
     (let s1 = memcpy (pb_payload bt + ot) (pb_payload bf + off) k s in
      if k = unat n then Some (ERR_OK, s1) else copy_pbuf_loop pt' pf' (n - of_nat k) ot' of' s1)"
proof -
  from pt obtain b where "pt = t" "getp t s = Some b" "blen (pbufs s) t = unat (pb_len b)" "blen (pbufs s) t < 65536"
    by (rule packet_Cons)
  then have t: "pt = t" "blen (pbufs s) t = unat (pb_len bt)" "unat (pb_len bt) < 65536" using bt by auto
  from pf obtain b where "pf = f" "getp f s = Some b" "blen (pbufs s) f = unat (pb_len b)" "blen (pbufs s) f < 65536"
    by (rule packet_Cons)
  then have f: "pf = f" "blen (pbufs s) f = unat (pb_len bf)" "unat (pb_len bf) < 65536" using bf by auto
  have sub: "sub32 (unat (pb_len bt)) ot = unat (pb_len bt) - ot" "sub32 (unat (pb_len bf)) off = unat (pb_len bf) - off"
    using ot off t(2) f(2) less_trans [OF t(3), of "2 ^ 32"] less_trans [OF f(3), of "2 ^ 32"]
    by (simp_all add: sub32_le)
  have md: "(ot + k) mod 2 ^ 32 = ot + k" "(off + k) mod 2 ^ 32 = off + k"
  proof -
    have "k \<le> unat (pb_len bt) - ot" "k \<le> unat (pb_len bf) - off" unfolding k t(2) f(2) by simp_all
    then have "ot + k < 65536" "off + k < 65536" using ot off t(2,3) f(2,3) by linarith+
    then show "(ot + k) mod 2 ^ 32 = ot + k" "(off + k) mod 2 ^ 32 = off + k" by simp_all
  qed
  have min: "min (unat n) (if unat (pb_len bf) - off \<le> unat (pb_len bt) - ot then unat (pb_len bf) - off
      else unat (pb_len bt) - ot) = k" unfolding k t f by (auto simp: min_def)
  have z: "n - of_nat k = 0 \<longleftrightarrow> k = unat n"
  proof -
    have "k \<le> unat n" unfolding k by simp
    then have "unat (of_nat k :: u16) = k"
      using le_less_trans [OF _ unat_u16_less] by (intro unat_of_nat_id) simp
    then show ?thesis by (metis right_minus_eq word_unat_eq_iff)
  qed
  have ge: "unat (pb_len bf) \<le> off + k \<longleftrightarrow> off + k = unat (pb_len bf)" using off f k by auto
  have A: "(if unat (pb_len bf) \<le> off + k then (pb_next bf, 0) else (f, off + k)) = (pf', of')"
    unfolding pf' of' ge f(2) by (simp add: f(1))
  have B: "(if ot + k = unat (pb_len bt) then (pb_next bt, 0) else (t, ot + k)) = (pt', ot')"
    unfolding pt' ot' t(2) by (simp add: t(1))
  have nn': "k \<noteq> unat n \<Longrightarrow> pf' \<noteq> NULL \<and> pt' \<noteq> NULL" using nn by fast
  show ?thesis
    apply (subst copy_pbuf_loop.simps)
    apply (simp only: t(1) f(1) bt bf bind.bind_lunit Let_def sub min md A B prod.case z
        queue_check_memcpy q if_False)
    apply (cases "k = unat n")
     apply (simp only: simp_thms if_True if_False not_True_eq_False)
    apply (simp only: nn' simp_thms if_True if_False not_True_eq_False)
    done
qed

lemma copy_pbuf_loop_ok:
  assumes "packet s pt (t # ts)" and "packet s pf (f # fs)"
    and "solid (pbufs s) (t # ts)" and "solid (pbufs s) (f # fs)"
    and "ot \<le> blen (pbufs s) t" and "off \<le> blen (pbufs s) f"
    and "unat n + ot \<le> sum_len (pbufs s) (t # ts)" and "unat n + off \<le> sum_len (pbufs s) (f # fs)"
    and "distinct (cells (pbufs s) (t # ts))"
    and "set (cells (pbufs s) (t # ts)) \<inter> set (cells (pbufs s) (f # fs)) = {}"
  shows "copy_pbuf_loop pt pf n ot off s = Some (ERR_OK, s\<lparr>bytes :=
     wr (take (unat n) (drop ot (cells (pbufs s) (t # ts))))
        (map (bytes s) (take (unat n) (drop off (cells (pbufs s) (f # fs))))) (bytes s)\<rparr>)"
  using assms
proof (induction "length ts + length fs" arbitrary: pt pf t ts f fs n ot off s rule: less_induct)
  case less
  note prems = less.prems
  from prems(1) obtain bt where bt: "getp t s = Some bt" "blen (pbufs s) t = unat (pb_len bt)"
    "cells (pbufs s) (t # ts) = [pb_payload bt..<pb_payload bt + blen (pbufs s) t] @ cells (pbufs s) ts"
    by (rule packet_Cons)
  from prems(2) obtain bf where bf: "getp f s = Some bf" "blen (pbufs s) f = unat (pb_len bf)"
    "cells (pbufs s) (f # fs) = [pb_payload bf..<pb_payload bf + blen (pbufs s) f] @ cells (pbufs s) fs"
    by (rule packet_Cons)
  let ?X = "drop ot (cells (pbufs s) (t # ts))" and ?Y = "drop off (cells (pbufs s) (f # fs))"
  define k where "k = min (unat n) (min (blen (pbufs s) f - off) (blen (pbufs s) t - ot))"
  have kf: "off + k \<le> blen (pbufs s) f" and kt: "ot + k \<le> blen (pbufs s) t" and kn: "k \<le> unat n"
    using prems(5,6) by (auto simp: k_def)
  obtain fs' where fs': "packet s (if off + k = blen (pbufs s) f then pb_next bf else pf) fs'" "solid (pbufs s) fs'"
    "drop k ?Y = drop (if off + k = blen (pbufs s) f then 0 else off + k) (cells (pbufs s) fs')"
    "set (cells (pbufs s) fs') \<subseteq> set (cells (pbufs s) (f # fs))"
    "if off + k = blen (pbufs s) f then length fs' = length fs else fs' = f # fs"
    by (rule advance [OF prems(2) prems(4) kf bf(1)])
  obtain ts' where ts': "packet s (if ot + k = blen (pbufs s) t then pb_next bt else pt) ts'" "solid (pbufs s) ts'"
    "drop k ?X = drop (if ot + k = blen (pbufs s) t then 0 else ot + k) (cells (pbufs s) ts')"
    "set (cells (pbufs s) ts') \<subseteq> set (cells (pbufs s) (t # ts))"
    "distinct (cells (pbufs s) (t # ts)) \<longrightarrow> distinct (cells (pbufs s) ts')"
    "if ot + k = blen (pbufs s) t then length ts' = length ts else ts' = t # ts"
    by (rule advance [OF prems(1) prems(3) kt bt(1)])
  let ?pf = "if off + k = blen (pbufs s) f then pb_next bf else pf" and ?of = "if off + k = blen (pbufs s) f then 0 else off + k"
  let ?pt = "if ot + k = blen (pbufs s) t then pb_next bt else pt" and ?ot = "if ot + k = blen (pbufs s) t then 0 else ot + k"
  let ?s = "memcpy (pb_payload bt + ot) (pb_payload bf + off) k s"
  have lenX: "length (drop k ?X) = sum_len (pbufs s) (t # ts) - ot - k" by (simp only: length_drop length_cells)
  have lenY: "length (drop k ?Y) = sum_len (pbufs s) (f # fs) - off - k" by (simp only: length_drop length_cells)
  have lt: "sum_len (pbufs s) ts' - ?ot = sum_len (pbufs s) (t # ts) - ot - k"
    using arg_cong [OF ts'(3), of length] lenX by (simp only: length_drop length_cells)
  have lf: "sum_len (pbufs s) fs' - ?of = sum_len (pbufs s) (f # fs) - off - k"
    using arg_cong [OF fs'(3), of length] lenY by (simp only: length_drop length_cells)
  have nn: "k = unat n" if "?pf = NULL \<or> ?pt = NULL"
  proof (rule ccontr)
    assume "k \<noteq> unat n"
    then have "0 < sum_len (pbufs s) ts'" "0 < sum_len (pbufs s) fs'" using lt lf kn prems(7,8) by linarith+
    moreover have "ts' = [] \<or> fs' = []" using that fs'(1) ts'(1) by (auto simp: packet_def split: if_splits)
    ultimately show False by auto
  qed
  have step: "copy_pbuf_loop pt pf n ot off s =
      (if k = unat n then Some (ERR_OK, ?s) else copy_pbuf_loop ?pt ?pf (n - of_nat k) ?ot ?of ?s)"
    using copy_pbuf_loop_step [OF prems(1,2,5,6) bt(1) bf(1) k_def refl refl refl refl nn
      queue_check_ok [OF fs'(1,2)] queue_check_ok [OF ts'(1,2)]] by (simp only: Let_def)
  have X: "take k ?X = [pb_payload bt + ot..<pb_payload bt + ot + k]"
    using kt unfolding bt(3) by (subst take_drop_segment) (simp_all add: prems(5) k_def)
  have Y: "take k ?Y = [pb_payload bf + off..<pb_payload bf + off + k]"
    using kf unfolding bf(3) by (subst take_drop_segment) (simp_all add: prems(6) k_def)
  have m: "bytes ?s = wr (take k ?X) (map (bytes s) (take k ?Y)) (bytes s)" unfolding X Y by (simp add: memcpy_wr)
  show ?case
  proof (cases "k = unat n")
    case True
    then show ?thesis unfolding step using m by (simp add: memcpy_wr)
  next
    case False
    then have pos: "0 < sum_len (pbufs s) ts'" "0 < sum_len (pbufs s) fs'" using lt lf kn prems(7,8) by linarith+
    obtain t' us where t': "ts' = t' # us" using pos(1) by (cases ts') auto
    obtain f' gs where f': "fs' = f' # gs" using pos(2) by (cases fs') auto
    have nk: "unat (n - of_nat k) = unat n - k"
      using kn unat_of_nat_id [of k, where 'a = 16] unat_u16_less [of n]
      by (subst unat_sub_le) (auto simp: word_le_nat_alt)
    have shorter: "length us + length gs < length ts + length fs"
      using False ts'(6) fs'(5) t' f' kf kt kn prems(5,6) by (auto simp: k_def min_def split: if_splits)
    have dis: "set (cells (pbufs s) ts') \<inter> set (cells (pbufs s) fs') = {}" using prems(10) ts'(4) fs'(4) by blast
    have otle: "?ot \<le> blen (pbufs s) t'" using ts'(6) t' kt by (auto split: if_splits)
    have ofle: "?of \<le> blen (pbufs s) f'" using fs'(5) f' kf by (auto split: if_splits)
    have nt: "unat (n - of_nat k) + ?ot \<le> sum_len (pbufs s) ts'"
      using lt nk kn False prems(7) by linarith
    have nf: "unat (n - of_nat k) + ?of \<le> sum_len (pbufs s) fs'"
      using lf nk kn False prems(8) by linarith
    have "copy_pbuf_loop ?pt ?pf (n - of_nat k) ?ot ?of ?s = Some (ERR_OK, ?s\<lparr>bytes :=
        wr (take (unat n - k) (drop k ?X)) (map (bytes ?s) (take (unat n - k) (drop k ?Y))) (bytes ?s)\<rparr>)"
      unfolding ts'(3) fs'(3) nk [symmetric] t' f'
      by (rule less.hyps [where s = ?s, unfolded memcpy_simps packet_memcpy])
        (use shorter ts'(1,2) fs'(1,2) otle ofle nt nf prems(9) ts'(5) dis in \<open>simp_all only: t' f' simp_thms\<close>)
    also have "\<dots> = Some (ERR_OK, s\<lparr>bytes := wr (take (unat n) ?X) (map (bytes s) (take (unat n) ?Y)) (bytes s)\<rparr>)"
    proof -
      have "set ?X \<inter> set ?Y = {}" by (rule disjoint_mono [OF set_drop_subset set_drop_subset prems(10)])
      moreover have "k \<le> length ?X" "k \<le> length ?Y"
        using prems(7,8) kn unfolding length_drop length_cells by linarith+
      ultimately have "wr (take (unat n - k) (drop k ?X)) (map (bytes ?s) (take (unat n - k) (drop k ?Y))) (bytes ?s)
        = wr (take (unat n) ?X) (map (bytes s) (take (unat n) ?Y)) (bytes s)"
        by (intro wr_two [OF distinct_drop [OF prems(9)] _ m _ _ kn])
      then show ?thesis by (simp only:) (simp add: memcpy_def)
    qed
    finally show ?thesis using False unfolding step by simp
  qed
qed

text \<open>The whole operation, with its argument checks.\<close>

lemma pbuf_copy_partial_pbuf_ok:
  assumes pt: "packet s pt ts" "ts \<noteq> []" and pf: "packet s pf fs" "fs \<noteq> []"
    and sol: "solid (pbufs s) ts" "solid (pbufs s) fs" and off: "unat off \<le> blen (pbufs s) (hd ts)"
    and d: "distinct (cells (pbufs s) ts)" "set (cells (pbufs s) ts) \<inter> set (cells (pbufs s) fs) = {}"
  shows "pbuf_copy_partial_pbuf pt pf n off s =
     (if unat n \<le> sum_len (pbufs s) fs \<and> unat off + unat n \<le> sum_len (pbufs s) ts
      then Some (ERR_OK, s\<lparr>bytes := wr (take (unat n) (drop (unat off) (cells (pbufs s) ts)))
             (take (unat n) (pdata s fs)) (bytes s)\<rparr>)
      else Some (ERR_ARG, s))"
proof -
  obtain bt where bt: "getp pt s = Some bt" "unat (pb_tot_len bt) = sum_len (pbufs s) ts" "pt \<noteq> NULL"
    by (rule packet_tot [OF pt])
  obtain bf where bf: "getp pf s = Some bf" "unat (pb_tot_len bf) = sum_len (pbufs s) fs" "pf \<noteq> NULL"
    by (rule packet_tot [OF pf])
  obtain t ts' where ts: "ts = t # ts'" using pt(2) by (cases ts) auto
  obtain f fs' where fs: "fs = f # fs'" using pf(2) by (cases fs) auto
  have "copy_pbuf_loop pt pf n (unat off) 0 s = Some (ERR_OK, s\<lparr>bytes :=
     wr (take (unat n) (drop (unat off) (cells (pbufs s) ts))) (take (unat n) (pdata s fs)) (bytes s)\<rparr>)"
    if "unat n \<le> sum_len (pbufs s) fs" "unat off + unat n \<le> sum_len (pbufs s) ts"
    using that pt pf sol off d unfolding ts fs pdata_def take_map
    by (subst copy_pbuf_loop_ok) (simp_all only: list.sel drop_0 add_0_right add.commute le0)
  then show ?thesis
    using bt bf by (auto simp: pbuf_copy_partial_pbuf_def word_le_nat_alt)
qed

lemma pbuf_copy_ok:
  assumes pt: "packet s pt ts" "ts \<noteq> []" and pf: "packet s pf fs" "fs \<noteq> []"
    and sol: "solid (pbufs s) ts" "solid (pbufs s) fs" and len: "sum_len (pbufs s) fs \<le> sum_len (pbufs s) ts"
    and d: "distinct (cells (pbufs s) ts)" "set (cells (pbufs s) ts) \<inter> set (cells (pbufs s) fs) = {}"
  shows "pbuf_copy pt pf s = Some (ERR_OK, s\<lparr>bytes :=
     wr (take (sum_len (pbufs s) fs) (cells (pbufs s) ts)) (pdata s fs) (bytes s)\<rparr>)"
proof -
  obtain bf where "getp pf s = Some bf" "unat (pb_tot_len bf) = sum_len (pbufs s) fs" "pf \<noteq> NULL"
    by (rule packet_tot [OF pf])
  moreover have "unat (0 :: u16) \<le> blen (pbufs s) (hd ts)" by simp
  ultimately show ?thesis
    using pbuf_copy_partial_pbuf_ok [OF pt pf sol _ d, of 0] len
    by (simp add: pbuf_copy_def)
qed

section \<open>Comparison and search\<close>

definition match_at :: "'a list \<Rightarrow> 'a list \<Rightarrow> nat \<Rightarrow> bool" where
  "match_at D pat i \<longleftrightarrow> take (length pat) (drop i D) = pat"

lemma match_at_nth:
  assumes "i + n \<le> length D"
  shows "match_at D (map m [a..<a + n]) i \<longleftrightarrow> (\<forall>j < n. D ! (i + j) = m (a + j))"
  using assms by (auto simp: match_at_def list_eq_iff_nth_eq)

lemma memcmp_loop_ok:
  assumes "\<And>j. j < unat n \<Longrightarrow> pbuf_get_at q (start + of_nat j) s = Some (D ! (off + j))"
    and "unat i \<le> unat n"
  shows "memcmp_loop q start s2 n i s =
     Some (case find (\<lambda>j. D ! (off + j) \<noteq> bytes s (s2 + j)) [unat i..<unat n] of None \<Rightarrow> 0 | Some j \<Rightarrow> of_nat (j + 1))"
  using assms(2)
proof (induction "unat n - unat i" arbitrary: i)
  case 0
  then have "\<not> i < n" by (simp add: word_less_nat_alt)
  then show ?case using 0 by (simp add: memcmp_loop.simps)
next
  case (Suc k)
  then have lt: "unat i < unat n" by simp
  then have iw: "i < n" by (simp add: word_less_nat_alt)
  have lt16: "unat i + 1 < 65536" using lt unat_u16_less [of n] by linarith
  have i1: "unat (i + 1) = unat i + 1" using lt16 by (subst unat_add_no_wrap) simp_all
  have g: "pbuf_get_at q (start + i) s = Some (D ! (off + unat i))" using assms(1) [OF lt] by simp
  have u: "[unat i..<unat n] = unat i # [unat (i + 1)..<unat n]" using lt i1 by (simp add: upt_conv_Cons)
  have mn: "min (unat i + 1) 0xFFFF = unat i + 1" using lt16 by simp
  have "k = unat n - unat (i + 1)" "unat (i + 1) \<le> unat n" using Suc.hyps(2) i1 lt by simp_all
  from Suc.hyps(1) [OF this] show ?case
    unfolding u by (subst memcmp_loop.simps) (simp add: iw g Let_def mn del: One_nat_def min.absorb1)
qed

lemma pbuf_memcmp_ok:
  assumes "packet s p qs" and "qs \<noteq> []" and "unat off + unat n \<le> sum_len (pbufs s) qs"
  shows "pbuf_memcmp p off s2 n s =
     Some (case find (\<lambda>j. pdata s qs ! (unat off + j) \<noteq> bytes s (s2 + j)) [0..<unat n] of
       None \<Rightarrow> 0 | Some j \<Rightarrow> of_nat (j + 1))"
proof -
  have l: "linked (nexts s) p qs" using assms(1) by (simp add: packet_def)
  obtain b where b: "getp p s = Some b" "unat (pb_tot_len b) = sum_len (pbufs s) qs"
    by (rule packet_tot [OF assms(1,2)])
  obtain q k where sk: "pbuf_skip_const p off s = Some (q, k)" using pbuf_skip_const_ok [OF l, of off] by blast
  have get: "pbuf_get_at q (k + of_nat j) s = Some (pdata s qs ! (unat off + j))" if "j < unat n" for j
  proof -
    have "unat off < sum_len (pbufs s) qs" using that assms(3) by simp
    then obtain q' k' b' xs ys where q: "pbuf_skip_const p off s = Some (q', k')" "qs = xs @ q' # ys"
      "linked (nexts s) q' (q' # ys)" "unat off = sum_len (pbufs s) xs + unat k'"
      by (rule skip_cell [OF l])
    then have [simp]: "q' = q" "k' = k" using sk by simp_all
    have tot: "sum_len (pbufs s) qs < 65536" using b(2) unat_u16_less [of "pb_tot_len b"] by linarith
    have j: "unat (of_nat j :: u16) = j" using that le_less_trans [OF less_imp_le unat_u16_less] by (intro unat_of_nat_id) auto
    have kj: "unat (k + of_nat j) = unat k + j"
      using q(4) assms(3) that tot by (subst unat_add_no_wrap) (simp_all add: j)
    have "unat k + j < sum_len (pbufs s) (q # ys)" using q(2,4) assms(3) that by simp
    moreover have "pdata s qs ! (unat off + j) = pdata s (q # ys) ! (unat k + j)"
      using q(2,4) by (simp add: pdata_def nth_append)
    ultimately show ?thesis using pbuf_get_at_ok [of s q "q # ys" "k + of_nat j"] q(3) kj by simp
  qed
  show ?thesis
    using memcmp_loop_ok [of n q k s "pdata s qs" "unat off" 0 s2, OF get] b assms(3) sk
    by (simp add: pbuf_memcmp_def)
qed

lemma memcmp_zero:
  assumes "packet s p qs" and "qs \<noteq> []" and "unat off + unat n \<le> sum_len (pbufs s) qs"
  shows "\<exists>r. pbuf_memcmp p off s2 n s = Some r
     \<and> (r = 0 \<longleftrightarrow> match_at (pdata s qs) (map (bytes s) [s2..<s2 + unat n]) (unat off))"
proof -
  let ?P = "\<lambda>j. pdata s qs ! (unat off + j) \<noteq> bytes s (s2 + j)"
  have m: "match_at (pdata s qs) (map (bytes s) [s2..<s2 + unat n]) (unat off) \<longleftrightarrow> find ?P [0..<unat n] = None"
    using assms(3) by (subst match_at_nth) (auto simp: find_None_iff)
  have "(of_nat (j + 1) :: u16) \<noteq> 0" if "find ?P [0..<unat n] = Some j" for j
  proof -
    have "j < unat n" using that by (auto simp: find_Some_iff)
    then have "j + 1 < 65536" using unat_u16_less [of n] by linarith
    then have "unat (of_nat (j + 1) :: u16) = j + 1" by (intro unat_of_nat_id) simp
    then show ?thesis by (metis Suc_eq_plus1 nat.distinct(1) unat_0)
  qed
  then show ?thesis unfolding pbuf_memcmp_ok [OF assms] m by (auto split: option.splits)
qed

lemma memfind_loop_ok:
  assumes p: "packet s p qs" "qs \<noteq> []" and mx: "unat mx + unat n = sum_len (pbufs s) qs"
    and "unat i \<le> unat mx + 1"
  shows "memfind_loop p mem n mx i s =
     Some (case find (match_at (pdata s qs) (map (bytes s) [mem..<mem + unat n])) [unat i..<unat mx + 1] of
       None \<Rightarrow> 0xFFFF | Some j \<Rightarrow> of_nat j)"
  using assms(4)
proof (induction "unat mx + 1 - unat i" arbitrary: i)
  case 0
  then have "\<not> i \<le> mx" by (simp add: word_le_nat_alt)
  then show ?case using 0 by (simp add: memfind_loop.simps)
next
  case (Suc k)
  then have le: "unat i \<le> unat mx" by simp
  then have iw: "i \<le> mx" by (simp add: word_le_nat_alt)
  let ?M = "match_at (pdata s qs) (map (bytes s) [mem..<mem + unat n])"
  obtain r where r: "pbuf_memcmp p i mem n s = Some r" "r = 0 \<longleftrightarrow> ?M (unat i)"
    using memcmp_zero [OF p, of i n mem] le mx by auto
  have u: "[unat i..<unat mx + 1] = unat i # [unat i + 1..<unat mx + 1]" using le by (simp add: upt_conv_Cons)
  show ?case
  proof (cases "?M (unat i)")
    case True
    then show ?thesis unfolding u using r iw by (subst memfind_loop.simps) simp
  next
    case False
    have n0: "unat n \<noteq> 0"
    proof
      assume "unat n = 0"
      then show False using False by (simp add: match_at_def)
    qed
    obtain b where "getp p s = Some b" "unat (pb_tot_len b) = sum_len (pbufs s) qs" by (rule packet_tot [OF p])
    then have "unat i + 1 < 65536" using le mx n0 unat_u16_less [of "pb_tot_len b"] by linarith
    then have i1: "unat (i + 1) = unat i + 1" by (subst unat_add_no_wrap) simp_all
    have "k = unat mx + 1 - unat (i + 1)" "unat (i + 1) \<le> unat mx + 1" using Suc.hyps(2) i1 le by simp_all
    from Suc.hyps(1) [OF this] show ?thesis
      unfolding u using False r iw i1 by (subst memfind_loop.simps) simp
  qed
qed

lemma pbuf_memfind_ok:
  assumes "packet s p qs" and "qs \<noteq> []"
  shows "pbuf_memfind p mem n start s =
     Some (case find (match_at (pdata s qs) (map (bytes s) [mem..<mem + unat n]))
         [unat start..<sum_len (pbufs s) qs + 1 - unat n] of
       None \<Rightarrow> 0xFFFF | Some j \<Rightarrow> of_nat j)"
proof -
  obtain b where b: "getp p s = Some b" "unat (pb_tot_len b) = sum_len (pbufs s) qs"
    by (rule packet_tot [OF assms])
  show ?thesis
  proof (cases "unat n + unat start \<le> sum_len (pbufs s) qs")
    case True
    then have "n \<le> pb_tot_len b" using b(2) by (simp add: word_le_nat_alt)
    then have mx: "unat (pb_tot_len b - n) = sum_len (pbufs s) qs - unat n" using b(2) by (simp add: unat_sub_le)
    have e: "sum_len (pbufs s) qs - unat n + 1 = sum_len (pbufs s) qs + 1 - unat n" using True by simp
    show ?thesis
      unfolding e [symmetric] using memfind_loop_ok [OF assms, of "pb_tot_len b - n" n start mem] True b mx
      by (simp add: pbuf_memfind_def del: upt_Suc)
  next
    case False
    then show ?thesis using b by (simp add: pbuf_memfind_def)
  qed
qed

section \<open>Writing at an offset\<close>

lemma packet_suffix:
  assumes "packet s p (xs @ q # ys)"
  shows "packet s q (q # ys)"
  using assms linked_split [of "nexts s" p xs q ys] by (auto simp: packet_def tot_ok_append)

text \<open>The first pbuf, from the offset \<open>k\<close> on, and the rest of the chain.\<close>

lemma take_from:
  assumes pq: "packet s q (q # ys)" and b: "getp q s = Some b" and kb: "k \<le> unat (pb_len b)"
    and fit: "k + unat len \<le> sum_len (pbufs s) (q # ys)" and d: "distinct (cells (pbufs s) (q # ys))"
    and dis: "set (cells (pbufs s) (q # ys)) \<inter> {d..<d + unat len} = {}" and d0: "d \<noteq> NULL"
    and m: "m = min (unat (pb_len b) - k) (unat len)" and s': "s' = memcpy (pb_payload b + k) d m s"
  shows "(if len - of_nat m > 0 then pbuf_take (pb_next b) (d + m) (len - of_nat m) s' else Some (ERR_OK, s'))
     = Some (ERR_OK, s\<lparr>bytes := wr (take (unat len) (drop k (cells (pbufs s) (q # ys))))
         (map (bytes s) [d..<d + unat len]) (bytes s)\<rparr>)"
proof -
  from pq obtain b' where "getp q s = Some b'" "blen (pbufs s) q = unat (pb_len b')"
    "cells (pbufs s) (q # ys) = [pb_payload b'..<pb_payload b' + blen (pbufs s) q] @ cells (pbufs s) ys"
    by (rule packet_Cons)
  then have bl: "blen (pbufs s) q = unat (pb_len b)"
    and cq: "cells (pbufs s) (q # ys) = [pb_payload b..<pb_payload b + unat (pb_len b)] @ cells (pbufs s) ys"
    using b by simp_all
  have mlen: "m \<le> unat len" by (simp add: m)
  then have m16: "unat (of_nat m :: u16) = m"
    using le_less_trans [OF _ unat_u16_less] by (intro unat_of_nat_id) simp
  have rem: "unat (len - of_nat m) = unat len - m" using mlen by (subst unat_sub_le) (simp_all add: word_le_nat_alt m16)
  let ?seg = "[pb_payload b + k..<pb_payload b + k + m]" and ?bs = "take (unat len - m) (cells (pbufs s) ys)"
  have X: "take (unat len) (drop k (cells (pbufs s) (q # ys))) = ?seg @ ?bs"
    unfolding cq take_drop_segment [OF kb] m by (auto simp: min_def)
  have bys: "bytes s' = wr ?seg (map (bytes s) [d..<d + m]) (bytes s)" by (simp add: s' memcpy_wr)
  show ?thesis
  proof (cases "unat len = m")
    case True
    then have "\<not> len - of_nat m > 0" using rem by (simp add: word_less_nat_alt)
    then show ?thesis using True X by (simp add: s' memcpy_wr)
  next
    case False
    then have gt: "len - of_nat m > 0" and lm: "m < unat len" and mb: "m = unat (pb_len b) - k"
      using rem mlen by (auto simp: word_less_nat_alt m min_def split: if_splits)
    have ys: "ys \<noteq> []" using fit lm mb bl kb by (cases ys) auto
    have pn: "packet s (pb_next b) ys" using pq b by (auto simp: packet_def getp_def split: if_splits)
    have seg: "set ?seg \<subseteq> set (cells (pbufs s) (q # ys))" unfolding cq using mb by auto
    have rest: "set [d + m..<d + m + (unat len - m)] \<subseteq> {d..<d + unat len}" by auto
    have src: "[d..<d + unat len] = [d..<d + m] @ [d + m..<d + m + (unat len - m)]"
      using upt_split [of d m "unat len - m"] lm by simp
    have keep: "map (bytes s') [d + m..<d + m + (unat len - m)] = map (bytes s) [d + m..<d + m + (unat len - m)]"
      unfolding bys by (rule map_wr_disj) (use seg rest dis in blast)
    have segd: "set [pb_payload b..<pb_payload b + unat (pb_len b)] \<inter> set (cells (pbufs s) ys) = {}"
      using d unfolding cq distinct_append by blast
    have disj: "set ?seg \<inter> set ?bs = {}"
      by (rule disjoint_mono [OF _ set_take_subset segd]) (use mb in auto)
    have ysd: "set (cells (pbufs s) ys) \<inter> {d + m..<d + m + (unat len - m)} = {}"
      using dis rest unfolding cq by fastforce
    have "pbuf_take (pb_next b) (d + m) (len - of_nat m) s' = Some (ERR_OK, s'\<lparr>bytes :=
        wr ?bs (map (bytes s') [d + m..<d + m + (unat len - m)]) (bytes s')\<rparr>)"
    proof -
      have pbs: "pbufs s' = pbufs s" by (simp add: s')
      have "packet s' (pb_next b) ys" "distinct (cells (pbufs s') ys)" using pn d by (simp_all add: s')
      moreover have "unat len - m \<le> sum_len (pbufs s) ys" using fit mb bl lm kb by simp
      ultimately show ?thesis
        using pbuf_take_ok [of s' "pb_next b" ys "d + m" "len - of_nat m"] ys d0 ysd unfolding rem pbs by simp
    qed
    also have "\<dots> = Some (ERR_OK, s\<lparr>bytes := wr (?seg @ ?bs) (map (bytes s) [d..<d + unat len]) (bytes s)\<rparr>)"
      unfolding keep src map_append by (subst wr_append') (use disj in \<open>simp_all add: s' memcpy_wr\<close>)
    finally show ?thesis using gt unfolding X by simp
  qed
qed

lemma pbuf_take_at_ok:
  assumes p: "packet s p qs" and d0: "d \<noteq> NULL" and d: "distinct (cells (pbufs s) qs)"
    and dis: "set (cells (pbufs s) qs) \<inter> {d..<d + unat len} = {}"
  shows "pbuf_take_at p d len off s =
     (if unat off < sum_len (pbufs s) qs \<and> unat off + unat len \<le> sum_len (pbufs s) qs
      then Some (ERR_OK, s\<lparr>bytes := wr (take (unat len) (drop (unat off) (cells (pbufs s) qs)))
             (map (bytes s) [d..<d + unat len]) (bytes s)\<rparr>)
      else Some (ERR_MEM, s))"
proof -
  have l: "linked (nexts s) p qs" using p by (simp add: packet_def)
  show ?thesis
  proof (cases "unat off < sum_len (pbufs s) qs")
    case False
    then show ?thesis using pbuf_skip_const_ok [OF l, of off] by (auto simp: pbuf_take_at_def pbuf_skip_def)
  next
    case True
    then obtain q k b xs ys where q: "pbuf_skip_const p off s = Some (q, k)" "q \<noteq> NULL" "getp q s = Some b" "k < pb_len b"
      "qs = xs @ q # ys" "unat off = sum_len (pbufs s) xs + unat k"
      by (rule skip_cell [OF l])
    have pq: "packet s q (q # ys)" using p unfolding q(5) by (rule packet_suffix)
    obtain b' where "getp q s = Some b'" "unat (pb_tot_len b') = sum_len (pbufs s) (q # ys)" by (rule packet_tot [OF pq]) simp
    then have tot: "unat (pb_tot_len b) = sum_len (pbufs s) (q # ys)" using q(3) by simp
    have C: "drop (unat off) (cells (pbufs s) qs) = drop (unat k) (cells (pbufs s) (q # ys))"
      unfolding q(5,6) by (simp add: cells_simps(3) del: cells_simps(2))
    have cond: "unat k + unat len \<le> unat (pb_tot_len b) \<longleftrightarrow> unat off + unat len \<le> sum_len (pbufs s) qs"
      unfolding tot q(5,6) by simp
    have kb: "unat k \<le> unat (pb_len b)" using q(4) by (simp add: word_less_nat_alt)
    define m where "m = min (unat (pb_len b) - unat k) (unat len)"
    have m16: "unat (of_nat m :: u16) = m"
      using le_less_trans [OF _ unat_u16_less, of m len] by (intro unat_of_nat_id) (simp add: m_def)
    have sub: "set (cells (pbufs s) (q # ys)) \<subseteq> set (cells (pbufs s) qs)" unfolding q(5) by simp
    have dst: "distinct (cells (pbufs s) (q # ys))" using d unfolding q(5) by simp
    note core = take_from [OF pq q(3) kb _ dst disjoint_mono [OF sub subset_refl dis] d0 m_def refl]
    have run: "pbuf_take_at p d len off s =
       (if unat off + unat len \<le> sum_len (pbufs s) qs
        then (if len - of_nat m > 0
              then pbuf_take (pb_next b) (d + m) (len - of_nat m) (memcpy (pb_payload b + unat k) d m s)
              else Some (ERR_OK, memcpy (pb_payload b + unat k) d m s))
        else Some (ERR_MEM, s))"
      unfolding cond [symmetric] using q(1-3)
      by (simp add: pbuf_take_at_def pbuf_skip_def Let_def m_def [symmetric] m16)
    show ?thesis unfolding run C using core cond tot True by (simp del: cells_simps)
  qed
qed

section \<open>Writes seen as changes of the data\<close>

lemma map_wr_part:
  assumes "distinct C" and "length vs = n" and "off + n \<le> length C"
  shows "map (wr (take n (drop off C)) vs m) C = take off (map m C) @ vs @ drop (off + n) (map m C)"
proof -
  let ?A = "take off C" and ?B = "take n (drop off C)" and ?D = "drop (off + n) C"
  have C: "C = ?A @ ?B @ ?D" by (metis append_take_drop_id drop_drop add.commute)
  have "distinct (?A @ ?B @ ?D)" using assms(1) C by simp
  then have d: "set ?A \<inter> set ?B = {}" "set ?D \<inter> set ?B = {}" "distinct ?B"
    unfolding distinct_append set_append by blast+
  have "map (wr ?B vs m) C = map (wr ?B vs m) (?A @ ?B @ ?D)" using C by simp
  also have "\<dots> = map m ?A @ vs @ map m ?D"
    using d assms(2,3) by (simp only: map_append map_wr_disj) (simp add: map_wr_same)
  finally show ?thesis by (simp add: take_map drop_map)
qed

lemma pdata_bytes: "pdata (s\<lparr>bytes := m\<rparr>) qs = map m (cells (pbufs s) qs)"
  by (simp add: pdata_def)

lemma pdata_part:
  assumes "distinct (cells (pbufs s) qs)" and "length vs = n" and "off + n \<le> sum_len (pbufs s) qs"
  shows "pdata (s\<lparr>bytes := wr (take n (drop off (cells (pbufs s) qs))) vs (bytes s)\<rparr>) qs
     = take off (pdata s qs) @ vs @ drop (off + n) (pdata s qs)"
  using map_wr_part [OF assms(1,2)] assms(3) by (simp add: pdata_bytes) (simp add: pdata_def)

lemma pdata_other:
  assumes "set (cells (pbufs s) qs) \<inter> set as = {}"
  shows "pdata (s\<lparr>bytes := wr as vs (bytes s)\<rparr>) qs = pdata s qs"
  using map_wr_disj [OF assms] by (simp add: pdata_bytes pdata_def)

section \<open>Contiguous access\<close>

lemma pbuf_get_contiguous_ok:
  assumes l: "linked (nexts s) p qs" and buf: "buffer \<noteq> NULL" "unat len \<le> bufsize"
    and dis: "set (cells (pbufs s) qs) \<inter> {buffer..<buffer + unat len} = {}"
    and fit: "unat off < sum_len (pbufs s) qs" "unat off + unat len \<le> sum_len (pbufs s) qs"
  shows "\<exists>r s'. pbuf_get_contiguous p buffer bufsize len off s = Some (r, s')
     \<and> map (bytes s') [r..<r + unat len] = take (unat len) (drop (unat off) (pdata s qs)) \<and> pdata s' qs = pdata s qs"
proof -
  obtain q k b xs ys where q: "pbuf_skip_const p off s = Some (q, k)" "q \<noteq> NULL" "getp q s = Some b" "k < pb_len b"
    "qs = xs @ q # ys" "linked (nexts s) q (q # ys)" "unat off = sum_len (pbufs s) xs + unat k"
    using fit(1) by (rule skip_cell [OF l])
  have "p \<noteq> NULL" using l q(5) by (cases xs) auto
  have C: "drop (unat off) (pdata s qs) = drop (unat k) (pdata s (q # ys))"
    unfolding q(5,7) by (simp add: pdata_def cells_simps(3) del: cells_simps(2))
  have bl: "blen (pbufs s) q = unat (pb_len b)" and pay: "pb_payload (pb s q) = pb_payload b"
    using q(2,3) by (auto simp: blen_def getp_def)
  show ?thesis
  proof (cases "unat (pb_len b) \<ge> unat k + unat len")
    case True
    then have "pbuf_get_contiguous p buffer bufsize len off s = Some (pb_payload b + unat k, s)"
      using q(1-3) buf \<open>p \<noteq> NULL\<close> by (simp add: pbuf_get_contiguous_def)
    moreover have "take (unat len) (drop (unat k) (pdata s (q # ys)))
        = map (bytes s) [pb_payload b + unat k..<pb_payload b + unat k + unat len]"
      unfolding pdata_def drop_map take_map cells_simps(2) bl pay
      using True by (subst take_drop_segment) (simp_all add: min.absorb2)
    ultimately show ?thesis unfolding C by auto
  next
    case False
    have sub: "set (cells (pbufs s) (q # ys)) \<subseteq> set (cells (pbufs s) qs)" unfolding q(5) by simp
    let ?vs = "take (unat len) (drop (unat k) (pdata s (q # ys)))"
    let ?s = "s\<lparr>bytes := wr [buffer..<buffer + unat len] ?vs (bytes s)\<rparr>"
    have lv: "length ?vs = unat len" using fit(2) unfolding q(5,7) by simp
    have "pbuf_copy_partial q buffer len k s = Some (len, ?s)"
      using pbuf_copy_partial_ok [OF q(6) _ buf(1) disjoint_mono [OF sub subset_refl dis], of k]
      unfolding Let_def lv by simp
    then have "pbuf_get_contiguous p buffer bufsize len off s = Some (buffer, ?s)"
      using q(1-3) buf \<open>p \<noteq> NULL\<close> False by (simp add: pbuf_get_contiguous_def)
    moreover have "map (bytes ?s) [buffer..<buffer + unat len] = ?vs" using lv by (simp add: map_wr_same)
    moreover have "pdata ?s qs = pdata s qs" using dis by (intro pdata_other) simp
    ultimately show ?thesis unfolding C by blast
  qed
qed

section \<open>Clones\<close>

text \<open>Addresses that a heap allocation cannot return: outside the heap, or in a live object of it.\<close>

definition settled :: "pb_state \<Rightarrow> addr \<Rightarrow> bool" where
  "settled s a \<longleftrightarrow> \<not> in_heap (pb_heap s) a \<or> (\<exists>L q m. heap_live (pb_heap s) L \<and> (q, m) \<in> L \<and> q \<le> a \<and> a < q + m)"

lemma packet_store_cong:
  assumes "\<forall>q \<in> set qs. pbufs s' q = pbufs s q"
  shows "packet s' p qs = packet s p qs" and "cells (pbufs s') qs = cells (pbufs s) qs"
    and "sum_len (pbufs s') qs = sum_len (pbufs s) qs"
proof -
  have "linked (nexts s') p qs = linked (nexts s) p qs" by (rule linked_cong) (simp add: assms)
  moreover have "tot_ok (pbufs s') 0 qs = tot_ok (pbufs s) 0 qs"
    by (rule tot_ok_cong) (simp_all add: assms blen_def tlen_def)
  ultimately show "packet s' p qs = packet s p qs" by (simp add: packet_def)
  show "cells (pbufs s') qs = cells (pbufs s) qs" using assms by (induction qs) (auto simp: blen_def)
  show "sum_len (pbufs s') qs = sum_len (pbufs s) qs" by (rule sum_len_cong) (simp add: assms blen_def)
qed

lemma linked_dom: "linked (nexts s) p qs \<Longrightarrow> set qs \<subseteq> dom (pbufs s)"
  using linked_in_dom [of "nexts s" p qs] by fastforce

lemma pbuf_clone_ok:
  assumes inv: "pb_inv dR dP s" and p: "packet s p qs" "qs \<noteq> []" and sol: "solid (pbufs s) qs"
    and st: "\<forall>a \<in> set (cells (pbufs s) qs). settled s a"
  shows "\<exists>q s'. pbuf_clone layer PBUF_RAM p s = Some (q, s') \<and> pb_inv dR dP s'
     \<and> (if q = NULL then pbufs s' = pbufs s \<and> bytes s' = bytes s
        else q \<notin> dom (pbufs s) \<and> packet s' q [q] \<and> pdata s' [q] = pdata s qs \<and> pdata s' qs = pdata s qs
          \<and> (\<forall>a. a \<noteq> q \<longrightarrow> pbufs s' a = pbufs s a))"
proof -
  obtain b where b: "getp p s = Some b" "unat (pb_tot_len b) = sum_len (pbufs s) qs" "p \<noteq> NULL" by (rule packet_tot [OF p])
  let ?a = "LWIP_MEM_ALIGN_SIZE (unat layer)" and ?n = "sum_len (pbufs s) qs"
  let ?new = "\<lambda>q. new_pbuf (q + 16 + ?a) (pb_tot_len b) (pb_tot_len b) PBUF_RAM 0"
  obtain q s1 where q: "pbuf_alloc layer (pb_tot_len b) PBUF_RAM s = Some (q, s1)" "pb_inv dR dP s1" "bytes s1 = bytes s"
    "if q = NULL then pbufs s1 = pbufs s
     else q \<notin> dom (pbufs s) \<and> pbufs s1 = (pbufs s)(q \<mapsto> ?new q)
         \<and> ram (pb_heap s) \<le> q \<and> q + 16 + ?a + ?n \<le> ram (pb_heap s) + ram_end
         \<and> (\<forall>L r m. heap_live (pb_heap s) L \<and> (r, m) \<in> L \<longrightarrow> q + 16 + ?a + ?n \<le> r \<or> r + m \<le> q)"
    using pbuf_alloc_ram_ok [OF inv, of layer "pb_tot_len b", unfolded b(2)] by blast
  show ?thesis
  proof (cases "q = NULL")
    case True
    then show ?thesis using q b by (auto simp: pbuf_clone_def)
  next
    case False
    with q(4) have new: "q \<notin> dom (pbufs s)" "pbufs s1 = (pbufs s)(q \<mapsto> ?new q)"
      and place: "ram (pb_heap s) \<le> q" "q + 16 + ?a + ?n \<le> ram (pb_heap s) + ram_end"
      and fresh: "\<And>L r m. heap_live (pb_heap s) L \<Longrightarrow> (r, m) \<in> L \<Longrightarrow> q + 16 + ?a + ?n \<le> r \<or> r + m \<le> q"
      by simp_all
    have "q \<notin> set qs" using new(1) p(1) linked_dom [of s p qs] by (auto simp: packet_def)
    then have same: "\<forall>a \<in> set qs. pbufs s1 a = pbufs s a" using new(2) by auto
    note cong = packet_store_cong [of qs s1 s, OF same]
    have len: "pb_len (?new q) = pb_tot_len b" "pb_tot_len (?new q) = pb_tot_len b" "pb_next (?new q) = NULL"
      "pb_payload (?new q) = q + 16 + ?a" by (simp_all add: new_pbuf_def)
    have pq: "packet s1 q [q]" using False new(2) len by (simp add: packet_def tlen_def blen_def)
    have cq: "cells (pbufs s1) [q] = [q + 16 + ?a..<q + 16 + ?a + ?n]" "sum_len (pbufs s1) [q] = ?n"
      using new(2) len b(2) by (simp_all add: blen_def)
    have dis: "set (cells (pbufs s1) [q]) \<inter> set (cells (pbufs s1) qs) = {}"
    proof -
      have "a \<notin> set (cells (pbufs s1) [q])" if "a \<in> set (cells (pbufs s) qs)" for a
        using bspec [OF st that] place fresh unfolding settled_def in_heap_def cq(1) by fastforce
      then show ?thesis unfolding cong(2) by blast
    qed
    have "solid (pbufs s1) qs" "solid (pbufs s1) [q]"
      using sol same list.set_sel(2) [OF p(2)] by (auto simp: solid_def blen_def)
    then have cp: "pbuf_copy q p s1 = Some (ERR_OK, s1\<lparr>bytes := wr (cells (pbufs s1) [q]) (pdata s1 qs) (bytes s1)\<rparr>)"
      using pbuf_copy_ok [OF pq _ _ p(2) _ _ _ _ dis] cong cq p(1) by simp
    have pd: "pdata s1 qs = pdata s qs" using cong(2) q(3) by (simp add: pdata_def)
    let ?s = "s1\<lparr>bytes := wr (cells (pbufs s1) [q]) (pdata s qs) (bytes s1)\<rparr>"
    have "pbuf_clone layer PBUF_RAM p s = Some (q, ?s)" using b q(1) False cp pd by (simp add: pbuf_clone_def)
    moreover have "pb_inv dR dP ?s" using q(2) pb_inv_cong [of ?s s1 dR dP] by simp
    moreover have "pdata ?s [q] = pdata s qs" unfolding pdata_bytes by (rule map_wr_same) (simp_all only: cq(1), simp_all)
    moreover have "pdata ?s qs = pdata s qs" unfolding pd [symmetric] using dis by (intro pdata_other) blast
    ultimately show ?thesis using False new pq by auto
  qed
qed

lemma pbuf_coalesce_ok:
  assumes inv: "pb_inv dR dP s" and p: "packet s p qs" "qs \<noteq> []" and sol: "solid (pbufs s) qs"
    and st: "\<forall>a \<in> set (cells (pbufs s) qs). settled s a" and src: "\<forall>q \<in> set qs. src_ok (pb s q)"
  shows "\<exists>q s'. pbuf_coalesce p layer s = Some (q, s') \<and> pb_inv dR dP s'
     \<and> (q = p \<and> packet s' p qs \<and> pdata s' qs = pdata s qs
        \<or> q \<noteq> p \<and> packet s' q [q] \<and> pdata s' [q] = pdata s qs
          \<and> (\<forall>a. a \<noteq> q \<longrightarrow> pbufs s' a = free_store (pbufs s) qs a))"
proof -
  obtain b where b: "getp p s = Some b" "p \<noteq> NULL" by (rule packet_tot [OF p])
  obtain q s1 where q: "pbuf_clone layer PBUF_RAM p s = Some (q, s1)" "pb_inv dR dP s1"
    "if q = NULL then pbufs s1 = pbufs s \<and> bytes s1 = bytes s
     else q \<notin> dom (pbufs s) \<and> packet s1 q [q] \<and> pdata s1 [q] = pdata s qs \<and> pdata s1 qs = pdata s qs
          \<and> (\<forall>a. a \<noteq> q \<longrightarrow> pbufs s1 a = pbufs s a)"
    using pbuf_clone_ok [OF inv p sol st, of layer] by blast
  have lin: "linked (nexts s) p qs" using p(1) by (simp add: packet_def)
  show ?thesis
  proof (cases "pb_next b = NULL \<or> q = NULL")
    case True
    then show ?thesis
    proof
      assume "pb_next b = NULL"
      then show ?thesis using b inv p by (auto simp: pbuf_coalesce_def)
    next
      assume "q = NULL"
      then show ?thesis
        using b inv p q packet_store_cong [of qs s1 s] by (auto simp: pbuf_coalesce_def pdata_def)
    qed
  next
    case False
    then have new: "q \<notin> dom (pbufs s)" "packet s1 q [q]" "pdata s1 [q] = pdata s qs"
      "\<And>a. a \<noteq> q \<Longrightarrow> pbufs s1 a = pbufs s a" using q(3) by auto
    have nq: "q \<notin> set qs" using new(1) linked_dom [OF lin] by auto
    then have same: "\<forall>a \<in> set qs. pbufs s1 a = pbufs s a" using new(4) by metis
    have "packet s1 p qs" using packet_store_cong(1) [OF same] p(1) by simp
    then have "linked (nexts s1) p qs" by (simp add: packet_def)
    moreover have "\<forall>q \<in> set qs. src_ok (pb s1 q)" using src same by simp
    ultimately obtain s2 where s2: "pbuf_free p s1 = Some (of_nat (length (freed s1 qs)), s2)" "pb_inv dR dP s2"
      "pbufs s2 = free_store (pbufs s1) qs" "bytes s2 = bytes s1"
      using pbuf_free_ok [OF q(2)] by blast
    have q2: "pbufs s2 q = pbufs s1 q" unfolding s2(3) by (rule free_store_other [OF nq])
    have "p \<noteq> q" using nq p(2) lin by (cases qs) auto
    moreover have "packet s2 q [q]" "pdata s2 [q] = pdata s qs"
      using packet_store_cong [of "[q]" s2 s1] q2 new(2,3) s2(4) by (auto simp: pdata_def)
    moreover have "pbufs s2 a = free_store (pbufs s) qs a" if "a \<noteq> q" for a
      using that s2(3) new(4) same by (metis free_store_cong)
    moreover have "pbuf_coalesce p layer s = Some (q, s2)" using b q(1) s2(1) False by (simp add: pbuf_coalesce_def)
    ultimately show ?thesis using s2(2) by auto
  qed
qed

lemma strlen_ok:
  assumes "m (a + n) = 0" and "\<forall>i < n. m (a + i) \<noteq> 0"
  shows "strlen m a = Some n"
  using assms
proof (induction n arbitrary: a)
  case 0
  then show ?case by (subst strlen.simps) simp
next
  case (Suc n)
  have "m (Suc a + n) = 0" "\<forall>i < n. m (Suc a + i) \<noteq> 0" using Suc.prems by (auto dest: spec [of _ "Suc _"])
  from Suc.IH [OF this] show ?case using Suc.prems(2) by (subst strlen.simps) (auto dest: spec [of _ 0])
qed

section \<open>Properties\<close>

lemma demo_cells:
  "pb_payload (pb demo_pb 100) = 1000" "pb_payload (pb demo_pb 200) = 2000" "pb_payload (pb demo_pb 300) = 3000"
  "blen (pbufs demo_pb) 100 = 6" "blen (pbufs demo_pb) 200 = 4" "blen (pbufs demo_pb) 300 = 5"
  "solid (pbufs demo_pb) [100, 200]" "solid (pbufs demo_pb) [300]" "bytes demo_pb a = of_nat a"
  by (simp_all add: demo_pbufs(1) demo_b1_def demo_b2_def demo_b3_def blen_def solid_def demo_pb_def)

text \<open>
  C28 Copying out. \<open>pbuf_copy_partial\<close> always returns, copies exactly the bytes from the offset
  on, as many as are asked for and there are, across the pbufs of the chain, returns their number,
  and changes no other byte.
\<close>

theorem pbuf_copy_partial_correct:
  assumes "linked (nexts s) p qs" and "qs \<noteq> []" and "d \<noteq> NULL"
    and "set (cells (pbufs s) qs) \<inter> {d..<d + unat len} = {}"
  shows "\<exists>s'. pbuf_copy_partial p d len off s =
       Some (of_nat (min (unat len) (sum_len (pbufs s) qs - unat off)), s')
     \<and> map (bytes s') [d..<d + min (unat len) (sum_len (pbufs s) qs - unat off)]
         = take (unat len) (drop (unat off) (pdata s qs))
     \<and> (\<forall>a. a \<notin> {d..<d + unat len} \<longrightarrow> bytes s' a = bytes s a) \<and> pbufs s' = pbufs s"
proof -
  let ?vs = "take (unat len) (drop (unat off) (pdata s qs))"
  have l: "length ?vs = min (unat len) (sum_len (pbufs s) qs - unat off)" by (simp add: min.commute)
  have "map (wr [d..<d + length ?vs] ?vs (bytes s)) [d..<d + length ?vs] = ?vs" by (rule map_wr_same) simp_all
  moreover have "wr [d..<d + length ?vs] ?vs (bytes s) a = bytes s a" if "a \<notin> {d..<d + unat len}" for a
    using that by (intro wr_notin) auto
  ultimately show ?thesis unfolding pbuf_copy_partial_ok [OF assms, of off] Let_def l by auto
qed

theorem pbuf_copy_partial_correct_witness:
  "\<exists>s'. pbuf_copy_partial 100 5000 4 4 demo_pb = Some (4, s')
     \<and> map (bytes s') [5000..<5004] = map of_nat [1004, 1005, 2000, 2001]"
proof -
  obtain s' where s': "pbuf_copy_partial 100 5000 4 4 demo_pb = Some (of_nat (min 4 (10 - 4)), s')"
    "map (bytes s') [5000..<5000 + min 4 (10 - 4)] = take 4 (drop 4 (pdata demo_pb [100, 200]))"
    using pbuf_copy_partial_correct [OF demo_chain(1), of 5000 4 4] by (auto simp: demo_cells)
  then show ?thesis by (simp add: pdata_def demo_cells upt_rec_numeral)
qed

text \<open>
  C29 Writing and reading back. \<open>pbuf_take_at\<close> replaces exactly the addressed bytes of a packet by
  those of the caller's buffer, and \<open>pbuf_copy_partial\<close> at the same offset reads them back into
  any other buffer, whatever the division of the packet into pbufs.
\<close>

theorem pbuf_take_copy_round_trip:
  assumes "packet s p qs" and "d \<noteq> NULL" and "e \<noteq> NULL" and "distinct (cells (pbufs s) qs)"
    and "set (cells (pbufs s) qs) \<inter> {d..<d + unat len} = {}" and "set (cells (pbufs s) qs) \<inter> {e..<e + unat len} = {}"
    and "unat off < sum_len (pbufs s) qs" and "unat off + unat len \<le> sum_len (pbufs s) qs"
  shows "\<exists>s1 s2. pbuf_take_at p d len off s = Some (ERR_OK, s1) \<and> packet s1 p qs
     \<and> pdata s1 qs = take (unat off) (pdata s qs) @ map (bytes s) [d..<d + unat len]
         @ drop (unat off + unat len) (pdata s qs)
     \<and> pbuf_copy_partial p e len off s1 = Some (len, s2) \<and> pdata s2 qs = pdata s1 qs
     \<and> map (bytes s2) [e..<e + unat len] = map (bytes s) [d..<d + unat len]"
proof -
  let ?vs = "map (bytes s) [d..<d + unat len]"
  let ?s1 = "s\<lparr>bytes := wr (take (unat len) (drop (unat off) (cells (pbufs s) qs))) ?vs (bytes s)\<rparr>"
  let ?s2 = "?s1\<lparr>bytes := wr [e..<e + unat len] ?vs (bytes ?s1)\<rparr>"
  have take: "pbuf_take_at p d len off s = Some (ERR_OK, ?s1)"
    using pbuf_take_at_ok [OF assms(1,2,4,5), of off] assms(7,8) by simp
  have p1: "packet ?s1 p qs" using assms(1) by simp
  have data: "pdata ?s1 qs = take (unat off) (pdata s qs) @ ?vs @ drop (unat off + unat len) (pdata s qs)"
    using assms(8) by (intro pdata_part [OF assms(4)]) simp_all
  have "take (unat len) (drop (unat off) (pdata ?s1 qs)) = ?vs" unfolding data using assms(7,8) by simp
  moreover have "linked (nexts ?s1) p qs" "qs \<noteq> []" using p1 assms(7) by (auto simp: packet_def)
  ultimately have copy: "pbuf_copy_partial p e len off ?s1 = Some (len, ?s2)"
    using pbuf_copy_partial_ok [of ?s1 p qs e len off] assms(3,6) by (simp add: Let_def)
  have "pdata ?s2 qs = pdata ?s1 qs" using assms(6) by (intro pdata_other) simp
  moreover have "map (bytes ?s2) [e..<e + unat len] = ?vs" by (simp add: map_wr_same del: map_map)
  ultimately show ?thesis using take p1 data copy by blast
qed

theorem pbuf_take_copy_round_trip_witness:
  "\<exists>s1 s2. pbuf_take_at 100 5000 4 4 demo_pb = Some (ERR_OK, s1) \<and> pbuf_copy_partial 100 6000 4 4 s1 = Some (4, s2)
     \<and> map (bytes s2) [6000..<6004] = map of_nat [5000, 5001, 5002, 5003]"
proof -
  obtain s1 s2 where s: "pbuf_take_at 100 5000 4 4 demo_pb = Some (ERR_OK, s1)"
    "pbuf_copy_partial 100 6000 4 4 s1 = Some (4, s2)"
    "map (bytes s2) [6000..<6000 + unat (4 :: u16)] = map (bytes demo_pb) [5000..<5000 + unat (4 :: u16)]"
    using pbuf_take_copy_round_trip [OF demo_chain(2), of 5000 6000 4 4] by (auto simp: demo_cells)
  have "map (bytes demo_pb) [5000..<5000 + unat (4 :: u16)] = map of_nat [5000, 5001, 5002, 5003]"
    by (simp add: demo_pb_def upt_rec_numeral)
  then show ?thesis using s by simp
qed

text \<open>
  Single bytes. \<open>pbuf_put_at\<close> changes exactly the byte of the packet at the offset,
  \<open>pbuf_get_at\<close> reads it, and beyond the end of the packet one does nothing and the other
  returns 0 (\<open>pbuf_try_get_at\<close>: -1).
\<close>

lemma pbuf_put_get_at:
  assumes "linked (nexts s) p qs" and "distinct (cells (pbufs s) qs)"
  shows "\<exists>s'. pbuf_put_at p off v s = Some s' \<and> pbufs s' = pbufs s \<and> pdata s' qs = (pdata s qs)[unat off := v]
     \<and> pbuf_try_get_at p k s' =
         Some (if unat k < sum_len (pbufs s) qs then uint ((pdata s qs)[unat off := v] ! unat k) else -1)
     \<and> pbuf_get_at p k s' =
         Some (if unat k < sum_len (pbufs s) qs then (pdata s qs)[unat off := v] ! unat k else 0)"
proof -
  let ?C = "cells (pbufs s) qs"
  let ?s = "if unat off < sum_len (pbufs s) qs then s\<lparr>bytes := (bytes s)(?C ! unat off := v)\<rparr> else s"
  have put: "pbuf_put_at p off v s = Some ?s" using pbuf_put_at_ok [OF assms(1)] by simp
  have d: "pdata ?s qs = (pdata s qs)[unat off := v]"
    using assms(2) by (auto simp: pdata_def list_eq_iff_nth_eq nth_list_update nth_eq_iff_index_eq)
  have pbs: "pbufs ?s = pbufs s" by simp
  then have "linked (nexts ?s) p qs" using assms(1) by simp
  from pbuf_try_get_at_ok [OF this, of k] pbuf_get_at_ok [OF this, of k] show ?thesis
    using put d pbs by (intro exI [of _ ?s]) (simp only: simp_thms)
qed

lemma pbuf_strstr_ok:
  assumes p: "packet s p qs" "qs \<noteq> []" and "sub \<noteq> NULL" and tot: "sum_len (pbufs s) qs < 0xFFFF"
    and str: "bytes s (sub + n) = 0" "\<forall>i < n. bytes s (sub + i) \<noteq> 0" "0 < n"
  shows "pbuf_strstr p sub s =
     Some (case find (match_at (pdata s qs) (map (bytes s) [sub..<sub + n])) [0..<sum_len (pbufs s) qs + 1 - n] of
       None \<Rightarrow> 0xFFFF | Some j \<Rightarrow> of_nat j)"
proof -
  obtain b where b: "getp p s = Some b" "unat (pb_tot_len b) = sum_len (pbufs s) qs" by (rule packet_tot [OF p])
  have ne: "pb_tot_len b \<noteq> 0xFFFF" using b(2) tot by auto
  have len: "strlen (bytes s) sub = Some n" by (rule strlen_ok [OF str(1,2)])
  have nz: "bytes s sub \<noteq> 0" using str(2,3) by (auto dest: spec [of _ 0])
  show ?thesis
  proof (cases "0xFFFF \<le> n")
    case True
    then show ?thesis using tot b ne len nz \<open>sub \<noteq> NULL\<close> by (simp add: pbuf_strstr_def)
  next
    case False
    then have "unat (of_nat n :: u16) = n" by (intro unat_of_nat_id) simp
    then show ?thesis
      using pbuf_memfind_ok [OF p, of sub "of_nat n" 0] False b ne len nz \<open>sub \<noteq> NULL\<close>
      by (simp add: pbuf_strstr_def del: upt_Suc)
  qed
qed

text \<open>
  Copying between chains. \<open>pbuf_copy_partial_pbuf\<close> accepts a copy exactly when it fits, and
  then writes the first bytes of the source packet at the offset into the destination packet,
  however both are divided into pbufs; the source keeps its data. The offset must lie in the
  first pbuf of the destination.
\<close>

lemma pbuf_copy_partial_pbuf_correct:
  assumes "packet s pt ts" "ts \<noteq> []" and "packet s pf fs" "fs \<noteq> []"
    and "solid (pbufs s) ts" "solid (pbufs s) fs" and "unat off \<le> blen (pbufs s) (hd ts)"
    and "distinct (cells (pbufs s) ts)" "set (cells (pbufs s) ts) \<inter> set (cells (pbufs s) fs) = {}"
  shows "\<exists>err s'. pbuf_copy_partial_pbuf pt pf n off s = Some (err, s')
     \<and> (err = ERR_OK \<longleftrightarrow> unat n \<le> sum_len (pbufs s) fs \<and> unat off + unat n \<le> sum_len (pbufs s) ts)
     \<and> (err \<noteq> ERR_OK \<longrightarrow> err = ERR_ARG \<and> s' = s)
     \<and> (err = ERR_OK \<longrightarrow> pdata s' ts = take (unat off) (pdata s ts) @ take (unat n) (pdata s fs)
          @ drop (unat off + unat n) (pdata s ts) \<and> pdata s' fs = pdata s fs \<and> pbufs s' = pbufs s)"
proof (cases "unat n \<le> sum_len (pbufs s) fs \<and> unat off + unat n \<le> sum_len (pbufs s) ts")
  case False
  then show ?thesis using pbuf_copy_partial_pbuf_ok [OF assms, of n] by (simp only:) simp
next
  case True
  let ?as = "take (unat n) (drop (unat off) (cells (pbufs s) ts))"
  let ?s = "s\<lparr>bytes := wr ?as (take (unat n) (pdata s fs)) (bytes s)\<rparr>"
  have "pdata ?s ts = take (unat off) (pdata s ts) @ take (unat n) (pdata s fs) @ drop (unat off + unat n) (pdata s ts)"
    using True by (intro pdata_part [OF assms(8)]) simp_all
  moreover have "set ?as \<subseteq> set (cells (pbufs s) ts)" by (meson set_drop_subset set_take_subset subset_trans)
  then have "pdata ?s fs = pdata s fs" using assms(9) by (intro pdata_other) blast
  ultimately show ?thesis using True pbuf_copy_partial_pbuf_ok [OF assms, of n] by simp
qed



text \<open>
  C30 Search. \<open>pbuf_memfind\<close> ends, and it is the reference search on the data of the packet: it
  returns the least offset, from the given one on, at which the pattern occurs, and \<open>0xFFFF\<close>
  when there is none.
\<close>

theorem pbuf_memfind_correct:
  assumes "packet s p qs" and "qs \<noteq> []"
  shows "pbuf_memfind p mem n start s =
     Some (case find (\<lambda>i. take (unat n) (drop i (pdata s qs)) = map (bytes s) [mem..<mem + unat n])
         [unat start..<sum_len (pbufs s) qs + 1 - unat n] of
       None \<Rightarrow> 0xFFFF | Some j \<Rightarrow> of_nat j)"
  using pbuf_memfind_ok [OF assms] by (simp add: match_at_def [abs_def])

theorem pbuf_memfind_correct_witness:
  "pbuf_memfind 100 1005 2 2 demo_pb = Some 0xFFFF \<and> pbuf_memfind 100 2000 2 3 demo_pb = Some 6"
  using pbuf_memfind_correct [OF demo_chain(2), of 1005 2 2] pbuf_memfind_correct [OF demo_chain(2), of 2000 2 3]
  by (simp add: demo_cells pdata_def upt_rec_numeral)

text \<open>
  Coalescing. On a packet whose data the heap cannot hand out, \<open>pbuf_coalesce\<close> returns either
  the packet itself or a single new pbuf with the same data; in the second case the caller's
  reference to the old chain is released exactly as \<open>pbuf_free\<close> does, and the store stays well formed.
\<close>

lemma pbuf_coalesce_correct:
  assumes "pb_inv dR dP s" and "packet s p qs" "qs \<noteq> []" and "solid (pbufs s) qs"
    and "\<forall>a \<in> set (cells (pbufs s) qs). settled s a" and "\<forall>q \<in> set qs. src_ok (pb s q)"
  shows "\<exists>q s'. pbuf_coalesce p layer s = Some (q, s') \<and> pb_inv dR dP s'
     \<and> (q = p \<and> packet s' p qs \<and> pdata s' qs = pdata s qs
        \<or> q \<noteq> p \<and> packet s' q [q] \<and> pdata s' [q] = pdata s qs
          \<and> (\<forall>a. a \<noteq> q \<longrightarrow> pbufs s' a = free_store (pbufs s) qs a))"
  by (rule pbuf_coalesce_ok [OF assms])

end
