(* ===== verification/Chksum.thy ===== *)
theory Chksum
  imports Lwip_Def
begin

text \<open>
  The Internet checksum over memory, \<open>lwip/src/core/inet_chksum.c\<close>, first part: the three
  versions of \<open>lwip_standard_chksum\<close>, of which the port selects version 3
  (\<open>LWIP_CHKSUM_ALGORITHM\<close>), and \<open>inet_chksum\<close>. The machine is little endian.

  The checksum is the one's complement sum of the 16-bit words. All versions are compared with
  a reference that adds the words one by one with end-around carry (RFC 1071). The proofs work
  with a relation \<open>ceq\<close> on numbers: equal modulo \<open>65535\<close>, and zero together.
\<close>

unbundle bit_operations_syntax

section \<open>The code\<close>

definition FOLD_U32T :: "u32 \<Rightarrow> u32" where
  "FOLD_U32T u = drop_bit 16 u + (u AND 0xFFFF)"

definition SWAP_BYTES_IN_WORD :: "u32 \<Rightarrow> u32" where
  "SWAP_BYTES_IN_WORD w = push_bit 8 (w AND 0xFF) OR drop_bit 8 (w AND 0xFF00)"

text \<open>Little-endian loads.\<close>

definition load16 :: "(addr \<Rightarrow> u8) \<Rightarrow> addr \<Rightarrow> u32" where
  "load16 m a = of_nat (unat (m a) + 256 * unat (m (a + 1)))"

definition load32 :: "(addr \<Rightarrow> u8) \<Rightarrow> addr \<Rightarrow> u32" where
  "load32 m a = of_nat (unat (m a) + 256 * unat (m (a + 1)) + 65536 * unat (m (a + 2)) + 16777216 * unat (m (a + 3)))"

text \<open>Setting a byte of the \<open>u16_t\<close> variable \<open>t\<close> through a pointer.\<close>

definition set_byte0 :: "u8 \<Rightarrow> u16 \<Rightarrow> u16" where "set_byte0 b t = (t AND 0xFF00) OR ucast b"
definition set_byte1 :: "u8 \<Rightarrow> u16 \<Rightarrow> u16" where "set_byte1 b t = push_bit 8 (ucast b) OR (t AND 0x00FF)"

text \<open>Version 1: big-endian words, octet by octet.\<close>

fun chksum1_loop :: "(addr \<Rightarrow> u8) \<Rightarrow> addr \<Rightarrow> nat \<Rightarrow> u32 \<Rightarrow> u32 \<times> addr \<times> nat" where
  "chksum1_loop m octetptr len acc =
     (if len > 1 then
        (let src = (push_bit 8 (ucast (m octetptr)) :: u16);
             src = src OR ucast (m (octetptr + 1)) in
         chksum1_loop m (octetptr + 2) (len - 2) (acc + ucast src))
      else (acc, octetptr, len))"

definition lwip_standard_chksum1 :: "(addr \<Rightarrow> u8) \<Rightarrow> addr \<Rightarrow> nat \<Rightarrow> u16" where
  "lwip_standard_chksum1 m dataptr len =
     (let (acc, octetptr, len) = chksum1_loop m dataptr len 0;
          acc = (if len > 0 then acc + ucast (push_bit 8 (ucast (m octetptr)) :: u16) else acc);
          acc = drop_bit 16 acc + (acc AND 0xFFFF);
          acc = (if acc AND 0xFFFF0000 \<noteq> 0 then drop_bit 16 acc + (acc AND 0xFFFF) else acc) in
      lwip_htons (ucast acc))"

text \<open>The summation of half words that versions 2 and 3 share.\<close>

fun sum16_loop :: "(addr \<Rightarrow> u8) \<Rightarrow> addr \<Rightarrow> nat \<Rightarrow> u32 \<Rightarrow> u32 \<times> addr \<times> nat" where
  "sum16_loop m ps len sm =
     (if len > 1 then sum16_loop m (ps + 2) (len - 2) (sm + load16 m ps) else (sm, ps, len))"

text \<open>The start of versions 2 and 3: a first byte at an odd address goes to the high half of \<open>t\<close>.\<close>

definition chksum_odd :: "(addr \<Rightarrow> u8) \<Rightarrow> addr \<Rightarrow> nat \<Rightarrow> u16 \<times> addr \<times> nat" where
  "chksum_odd m ptr len = (if odd ptr \<and> len > 0 then (set_byte1 (m ptr) 0, ptr + 1, len - 1) else (0, ptr, len))"

text \<open>The end of versions 2 and 3: the last byte, the folding and the byte swap.\<close>

definition chksum_finish :: "(addr \<Rightarrow> u8) \<Rightarrow> bool \<Rightarrow> u16 \<Rightarrow> u32 \<times> addr \<times> nat \<Rightarrow> u16" where
  "chksum_finish m is_odd t r =
     (let (sm, ps, len) = r;
          t = (if len > 0 then set_byte0 (m ps) t else t);
          sm = sm + ucast t;
          sm = FOLD_U32T sm;
          sm = FOLD_U32T sm;
          sm = (if is_odd then SWAP_BYTES_IN_WORD sm else sm) in
      ucast sm)"

definition lwip_standard_chksum2 :: "(addr \<Rightarrow> u8) \<Rightarrow> addr \<Rightarrow> nat \<Rightarrow> u16" where
  "lwip_standard_chksum2 m dataptr len =
     (let (t, ps, len) = chksum_odd m dataptr len in
      chksum_finish m (odd dataptr) t (sum16_loop m ps len 0))"

text \<open>Version 3: two words at a time with end-around carry.\<close>

fun sum32_loop :: "(addr \<Rightarrow> u8) \<Rightarrow> addr \<Rightarrow> nat \<Rightarrow> u32 \<Rightarrow> u32 \<times> addr \<times> nat" where
  "sum32_loop m pl len sm =
     (if len > 7 then
        (let tmp = sm + load32 m pl;
             tmp = (if tmp < sm then tmp + 1 else tmp);
             sm' = tmp + load32 m (pl + 4);
             sm' = (if sm' < tmp then sm' + 1 else sm') in
         sum32_loop m (pl + 8) (len - 8) sm')
      else (sm, pl, len))"

definition lwip_standard_chksum :: "(addr \<Rightarrow> u8) \<Rightarrow> addr \<Rightarrow> nat \<Rightarrow> u16" where
  "lwip_standard_chksum m dataptr len =
     (let (t, ps, len) = chksum_odd m dataptr len;
          (sm, pl, len) =
            (if ps mod 4 \<noteq> 0 \<and> len > 1 then (load16 m ps, ps + 2, len - 2) else (0, ps, len));
          (sm, ps, len) = sum32_loop m pl len sm;
          sm = FOLD_U32T sm in
      chksum_finish m (odd dataptr) t (sum16_loop m ps len sm))"

declare chksum1_loop.simps [simp del] sum16_loop.simps [simp del] sum32_loop.simps [simp del]

definition inet_chksum :: "(addr \<Rightarrow> u8) \<Rightarrow> addr \<Rightarrow> u16 \<Rightarrow> u16" where
  "inet_chksum m dataptr len = NOT (lwip_standard_chksum m dataptr (unat len))"

section \<open>Arithmetic modulo 65535\<close>

definition ceq :: "nat \<Rightarrow> nat \<Rightarrow> bool" where
  "ceq a b \<longleftrightarrow> a mod 65535 = b mod 65535 \<and> (a = 0 \<longleftrightarrow> b = 0)"

definition ones :: "nat \<Rightarrow> nat" where
  "ones a = (if a = 0 then 0 else (a - 1) mod 65535 + 1)"

lemma ceq_refl [simp]: "ceq a a"
  by (simp add: ceq_def)

lemma ceq_sym: "ceq a b \<Longrightarrow> ceq b a"
  by (auto simp: ceq_def)

lemma ceq_trans [trans]: "ceq a b \<Longrightarrow> ceq b c \<Longrightarrow> ceq a c"
  by (auto simp: ceq_def)

lemma ceq_add: "ceq a b \<Longrightarrow> ceq c d \<Longrightarrow> ceq (a + c) (b + d)"
  unfolding ceq_def by (metis add_is_0 mod_add_cong)

lemma ceq_mult: "ceq a b \<Longrightarrow> ceq (k * a) (k * b)"
  unfolding ceq_def by (metis mod_mult_cong mult_is_0)

lemma ceq_carry: "0 < a \<Longrightarrow> ceq (a + 65535 * k) a"
  by (simp add: ceq_def)

lemma ceq_65536: "ceq (65536 * a) a"
proof (cases "a = 0")
  case False
  then have "ceq (a + 65535 * a) a" by (intro ceq_carry) simp
  then show ?thesis by (simp add: algebra_simps)
qed simp

lemma ceq_256_256: "ceq (256 * (256 * a)) a"
  using ceq_65536 [of a] by simp

lemma ceq_pow: "ceq (256 ^ n * a) (if even n then a else 256 * a)"
proof (induction n)
  case (Suc n)
  have "ceq (256 ^ Suc n * a) (256 * (if even n then a else 256 * a))"
    using ceq_mult [OF Suc, of 256] by (simp add: mult.assoc)
  also have "ceq \<dots> (if even (Suc n) then a else 256 * a)" using ceq_256_256 [of a] by auto
  finally show ?case .
qed simp

lemma ones_le: "ones a \<le> 65535"
  using mod_less_divisor [of 65535 "a - 1"] by (simp add: ones_def del: mod_less_divisor)

lemma ones_zero [simp]: "ones a = 0 \<longleftrightarrow> a = 0"
  by (simp add: ones_def)

lemma ceq_ones: "ceq (ones a) a"
proof (cases "a = 0")
  case False
  then have "((a - 1) mod 65535 + 1) mod 65535 = a mod 65535"
    by (metis mod_add_left_eq One_nat_def Suc_eq_plus1 Suc_pred bot_nat_0.not_eq_extremum)
  then show ?thesis using False by (simp add: ceq_def ones_def)
qed (simp add: ones_def)

lemma ceq_le_eq: "ceq a b \<Longrightarrow> a \<le> 65535 \<Longrightarrow> b \<le> 65535 \<Longrightarrow> a = b"
  unfolding ceq_def by (metis le_neq_implies_less mod_less mod_self)

lemma ones_unique: "ceq a b \<Longrightarrow> a \<le> 65535 \<Longrightarrow> a = ones b"
  by (rule ceq_le_eq [OF ceq_trans [OF _ ceq_sym [OF ceq_ones]] _ ones_le])

lemma ones_cong: "ceq a b \<Longrightarrow> ones a = ones b"
  by (rule ones_unique [OF ceq_trans [OF ceq_ones] ones_le])

section \<open>The number that a list of bytes stands for\<close>

fun num :: "u8 list \<Rightarrow> nat" where
  "num [] = 0"
| "num (b # bs) = unat b + 256 * num bs"

lemma num_append: "num (xs @ ys) = num xs + 256 ^ length xs * num ys"
  by (induction xs) (simp_all add: algebra_simps)

lemma num_append_ceq: "ceq (num (xs @ ys)) (num xs + (if even (length xs) then num ys else 256 * num ys))"
  unfolding num_append by (intro ceq_add ceq_pow ceq_refl)

text \<open>The reference: the 16-bit words of the data are added with end-around carry.\<close>

fun words16 :: "u8 list \<Rightarrow> nat list" where
  "words16 [] = []"
| "words16 [a] = [unat a]"
| "words16 (a # b # bs) = (unat a + 256 * unat b) # words16 bs"

definition ocadd :: "nat \<Rightarrow> nat \<Rightarrow> nat" where
  "ocadd a b = (if a + b > 65535 then a + b - 65535 else a + b)"

definition chksum_ref :: "u8 list \<Rightarrow> nat" where
  "chksum_ref bs = foldl ocadd 0 (words16 bs)"

lemma ocadd_ceq: "ceq (ocadd a b) (a + b)"
proof (cases "a + b > 65535")
  case True
  then show ?thesis using ceq_sym [OF ceq_carry [of "a + b - 65535" 1]] by (simp add: ocadd_def ceq_sym)
qed (simp add: ocadd_def)

lemma ocadd_le: "a \<le> 65535 \<Longrightarrow> b \<le> 65535 \<Longrightarrow> ocadd a b \<le> 65535"
  unfolding ocadd_def by auto

lemma chksum_ref_fold:
  "acc \<le> 65535 \<Longrightarrow> foldl ocadd acc (words16 bs) \<le> 65535 \<and> ceq (foldl ocadd acc (words16 bs)) (acc + num bs)"
proof (induction bs arbitrary: acc rule: words16.induct)
  case (2 a)
  have "unat a \<le> 65535" using unat_u8_less [of a] by linarith
  then show ?case using 2 ocadd_le ocadd_ceq by simp
next
  case (3 a b bs)
  let ?w = "unat a + 256 * unat b"
  have "?w \<le> 65535" using unat_u8_less [of a] unat_u8_less [of b] by linarith
  then have "ocadd acc ?w \<le> 65535" using 3 ocadd_le by simp
  note IH = 3(1) [OF this]
  have "ceq (foldl ocadd acc (words16 (a # b # bs))) (ocadd acc ?w + num bs)" using IH by simp
  also have "ceq \<dots> (acc + ?w + num bs)" by (intro ceq_add ocadd_ceq ceq_refl)
  also have "ceq \<dots> (acc + ?w + 65536 * num bs)" by (intro ceq_add ceq_refl ceq_sym [OF ceq_65536])
  finally show ?case using IH by (simp add: algebra_simps)
qed simp

lemma chksum_ref_ones: "chksum_ref bs = ones (num bs)"
  using chksum_ref_fold [of 0 bs] by (auto simp: chksum_ref_def intro: ones_unique)


section \<open>The word operations\<close>

lemma unat_FOLD: "unat (FOLD_U32T x) = unat x div 65536 + unat x mod 65536"
proof -
  have u: "unat (drop_bit 16 x) = unat x div 65536" "unat (x AND 0xFFFF) = unat x mod 65536"
    by (simp_all add: unat_drop_bit mask_16 unat_and_mask)
  have "unat x div 65536 < 65536" using unat_u32_less [of x] by (simp add: less_mult_imp_div_less)
  moreover have "unat x mod 65536 < 65536" by simp
  ultimately have "unat (drop_bit 16 x) + unat (x AND 0xFFFF) < 2 ^ LENGTH(32)" unfolding u by simp
  from unat_add_no_wrap [OF this] show ?thesis unfolding FOLD_U32T_def u by simp
qed

lemma FOLD_ceq: "ceq (unat (FOLD_U32T x)) (unat x)"
proof -
  have "ceq (unat x mod 65536 + unat x div 65536) (unat x mod 65536 + 65536 * (unat x div 65536))"
    by (intro ceq_add ceq_refl ceq_sym [OF ceq_65536])
  then show ?thesis by (simp add: unat_FOLD add.commute)
qed

lemma FOLD_le: "unat x \<le> 131070 \<Longrightarrow> unat (FOLD_U32T x) \<le> 65535"
proof -
  assume "unat x \<le> 131070"
  then have "unat x div 65536 = 0 \<and> unat x mod 65536 \<le> 65535 \<or> unat x div 65536 = 1 \<and> unat x mod 65536 \<le> 65534"
    by (cases "unat x < 65536") (auto simp: mod_if div_if)
  then show ?thesis unfolding unat_FOLD by auto
qed

lemma FOLD_le2: "unat (FOLD_U32T (FOLD_U32T x)) \<le> 65535"
proof (rule FOLD_le)
  have "unat x div 65536 < 65536" using unat_u32_less [of x] by (simp add: less_mult_imp_div_less)
  moreover have "unat x mod 65536 < 65536" by simp
  ultimately show "unat (FOLD_U32T x) \<le> 131070" unfolding unat_FOLD by linarith
qed

lemma FOLD_FOLD_ones: "ceq (unat x) a \<Longrightarrow> unat (FOLD_U32T (FOLD_U32T x)) = ones a"
  by (rule ones_unique [OF _ FOLD_le2]) (blast intro: ceq_trans FOLD_ceq)

lemma SWAP_ceq:
  assumes "unat x \<le> 65535"
  shows "ceq (unat (SWAP_BYTES_IN_WORD x)) (256 * unat x)" and "unat (SWAP_BYTES_IN_WORD x) \<le> 65535"
proof -
  let ?h = "unat x div 256" and ?l = "unat x mod 256"
  have h: "?h < 256" using assms by (intro less_mult_imp_div_less) simp
  have u: "unat (SWAP_BYTES_IN_WORD x) = 256 * ?l + ?h"
    unfolding SWAP_BYTES_IN_WORD_def by (subst unat_swap) (use h in simp_all)
  have "z = 256 * h + l \<Longrightarrow> 256 * z = 256 * l + 65536 * h" for z h l :: nat by simp
  from this [OF mult_div_mod_eq [symmetric]] have e: "256 * unat x = 256 * ?l + 65536 * ?h" .
  show "ceq (unat (SWAP_BYTES_IN_WORD x)) (256 * unat x)"
    unfolding u e by (intro ceq_add ceq_refl ceq_sym [OF ceq_65536])
  have "?l < 256" by simp
  then show "unat (SWAP_BYTES_IN_WORD x) \<le> 65535" unfolding u using h by linarith
qed

lemma unat_load16: "unat (load16 m a) = num [m a, m (a + 1)]" "unat (load16 m a) \<le> 65535"
proof -
  have b: "unat (m a) + 256 * unat (m (a + 1)) \<le> 65535" using unat_u8_less [of "m a"] unat_u8_less [of "m (a + 1)"] by linarith
  then show u: "unat (load16 m a) = num [m a, m (a + 1)]" unfolding load16_def by (subst unat_of_nat_id) simp_all
  show "unat (load16 m a) \<le> 65535" using b unfolding u by simp
qed

lemma unat_load32: "unat (load32 m a) = num [m a, m (a + 1), m (a + 2), m (a + 3)]"
proof -
  have "unat (m a) + 256 * unat (m (a + 1)) + 65536 * unat (m (a + 2)) + 16777216 * unat (m (a + 3)) \<le> 4294967295"
    using unat_u8_less [of "m a"] unat_u8_less [of "m (a + 1)"] unat_u8_less [of "m (a + 2)"] unat_u8_less [of "m (a + 3)"]
    by linarith
  then show ?thesis unfolding load32_def by (subst unat_of_nat_id) simp_all
qed

text \<open>Addition with end-around carry.\<close>

lemma carry_ceq:
  fixes x y :: u32
  shows "ceq (unat (if x + y < x then x + y + 1 else x + y)) (unat x + unat y)"
proof (cases "unat x + unat y < 2 ^ 32")
  case True
  then have "\<not> x + y < x" using word_less_add_wrap [of x y] by simp
  moreover have "unat (x + y) = unat x + unat y" using True by (intro unat_add_no_wrap) simp
  ultimately show ?thesis by simp
next
  case False
  then have w: "x + y < x" using word_less_add_wrap [of x y] by simp
  have s: "unat (x + y) = unat x + unat y - 4294967296"
    using False unat_u32_less [of x] unat_u32_less [of y] by (simp add: unat_word_ariths mod_if del: unat_u32_less)
  have "unat (x + y + 1) = unat x + unat y - 4294967296 + 1"
  proof -
    have "unat (x + y) + unat (1 :: u32) < 2 ^ LENGTH(32)"
      using s False unat_u32_less [of x] unat_u32_less [of y] by (simp del: unat_u32_less)
    from unat_add_no_wrap [OF this] s show ?thesis by simp
  qed
  moreover have "unat x + unat y - 4294967296 + 1 + 65535 * 65537 = unat x + unat y" using False by simp
  ultimately have "ceq (unat x + unat y) (unat (x + y + 1))"
    using ceq_carry [of "unat (x + y + 1)" 65537] by (metis Suc_eq_plus1 zero_less_Suc)
  then show ?thesis using w ceq_sym by simp
qed

section \<open>The loops\<close>

text \<open>Even steps through the memory.\<close>

lemma num_step:
  assumes "even k" and "k \<le> n"
  shows "ceq (num (map m [a..<a + n])) (num (map m [a..<a + k]) + num (map m [a + k..<a + k + (n - k)]))"
proof -
  have "[a..<a + n] = [a..<a + k] @ [a + k..<a + k + (n - k)]"
    using upt_add_eq_append [of a "a + k" "n - k"] assms(2) by simp
  then show ?thesis using num_append_ceq [of "map m [a..<a + k]" "map m [a + k..<a + k + (n - k)]"] assms(1) by simp
qed

lemma upt_2: "[a..<a + 2] = [a, a + 1]" and upt_8: "[a..<a + 8] = [a, a + 1, a + 2, a + 3, a + 4, a + 5, a + 6, a + 7]" for a :: nat
  by (simp_all add: upt_conv_Cons numeral_eq_Suc)

lemma sum16_loop_ok:
  assumes "sum16_loop m ps len sm = (sm', ps', len')" and "unat sm + 65535 * (len div 2) < 2 ^ 32"
  shows "len' = len mod 2 \<and> ps' = ps + 2 * (len div 2) \<and> unat sm' \<le> unat sm + 65535 * (len div 2)
     \<and> ceq (unat sm') (unat sm + num (map m [ps..<ps + 2 * (len div 2)]))"
  using assms
proof (induction m ps len sm arbitrary: sm' ps' len' rule: sum16_loop.induct)
  case (1 m ps len sm)
  show ?case
  proof (cases "len > 1")
    case False
    then show ?thesis using 1(2) by (auto simp: sum16_loop.simps [of m ps len sm])
  next
    case True
    let ?k = "2 * (len div 2)"
    have d: "len div 2 = Suc ((len - 2) div 2)" using True by (simp add: le_div_geq)
    have w: "unat (sm + load16 m ps) = unat sm + unat (load16 m ps)"
      using 1(3) unat_load16(2) [of m ps] d by (intro unat_add_no_wrap) simp
    have run: "sum16_loop m (ps + 2) (len - 2) (sm + load16 m ps) = (sm', ps', len')"
      using 1(2) True by (simp add: sum16_loop.simps [of m ps len sm])
    have "unat (sm + load16 m ps) + 65535 * ((len - 2) div 2) < 2 ^ 32"
      using 1(3) w unat_load16(2) [of m ps] d by simp
    note IH = 1(1) [OF True run this]
    have "len mod 2 = (len - 2) mod 2" using True by (simp add: le_mod_geq)
    moreover have "ceq (unat sm') (unat sm + num (map m [ps..<ps + ?k]))"
    proof -
      have "ceq (unat sm') (unat sm + unat (load16 m ps) + num (map m [ps + 2..<ps + 2 + 2 * ((len - 2) div 2)]))"
        using IH unfolding w by blast
      also have "\<dots> = unat sm + (num (map m [ps..<ps + 2]) + num (map m [ps + 2..<ps + 2 + (?k - 2)]))"
        unfolding upt_2 d by (simp add: unat_load16(1))
      also have "ceq \<dots> (unat sm + num (map m [ps..<ps + ?k]))"
        by (intro ceq_add ceq_refl ceq_sym [OF num_step]) (use d in simp_all)
      finally show ?thesis .
    qed
    ultimately show ?thesis using IH w unat_load16(2) [of m ps] unfolding d by auto
  qed
qed

lemma sum32_loop_ok:
  assumes "sum32_loop m pl len sm = (sm', pl', len')"
  shows "len' = len mod 8 \<and> pl' = pl + 8 * (len div 8)
     \<and> ceq (unat sm') (unat sm + num (map m [pl..<pl + 8 * (len div 8)]))"
  using assms
proof (induction m pl len sm arbitrary: sm' pl' len' rule: sum32_loop.induct)
  case (1 m pl len sm)
  show ?case
  proof (cases "len > 7")
    case False
    then show ?thesis using 1(2) by (auto simp: sum32_loop.simps [of m pl len sm])
  next
    case True
    define t where "t = (if sm + load32 m pl < sm then sm + load32 m pl + 1 else sm + load32 m pl)"
    define u where "u = (if t + load32 m (pl + 4) < t then t + load32 m (pl + 4) + 1 else t + load32 m (pl + 4))"
    let ?k = "8 * (len div 8)"
    have d: "len div 8 = Suc ((len - 8) div 8)" using True by (simp add: le_div_geq)
    have run: "sum32_loop m (pl + 8) (len - 8) u = (sm', pl', len')"
      using 1(2) True by (simp add: sum32_loop.simps [of m pl len sm] t_def u_def Let_def cong: if_cong)
    have IH: "len' = (len - 8) mod 8 \<and> pl' = pl + 8 + 8 * ((len - 8) div 8)
       \<and> ceq (unat sm') (unat u + num (map m [pl + 8..<pl + 8 + 8 * ((len - 8) div 8)]))"
      using 1(1) [OF True refl t_def refl u_def run] by blast
    have "ceq (unat u) (unat t + unat (load32 m (pl + 4)))" unfolding u_def by (rule carry_ceq)
    also have "ceq \<dots> (unat sm + unat (load32 m pl) + unat (load32 m (pl + 4)))"
      unfolding t_def by (intro ceq_add carry_ceq ceq_refl)
    also have "ceq \<dots> (unat sm + num (map m [pl..<pl + 8]))"
    proof -
      let ?A = "[m pl, m (pl + 1), m (pl + 2), m (pl + 3)]" and ?B = "[m (pl + 4), m (pl + 5), m (pl + 6), m (pl + 7)]"
      have ab: "map m [pl..<pl + 8] = ?A @ ?B" unfolding upt_8 by simp
      have b: "unat (load32 m (pl + 4)) = num ?B" unfolding unat_load32 by (simp add: add.commute add.left_commute)
      have "ceq (num ?A + num ?B) (num (?A @ ?B))" using ceq_sym [OF num_append_ceq [of ?A ?B]] by simp
      then show ?thesis unfolding ab b unat_load32 [of m pl] add.assoc [of "unat sm"] by (rule ceq_add [OF ceq_refl])
    qed
    finally have u: "ceq (unat u) (unat sm + num (map m [pl..<pl + 8]))" .
    have "ceq (unat sm') (unat u + num (map m [pl + 8..<pl + 8 + (?k - 8)]))" using IH d by simp
    also have "ceq \<dots> (unat sm + num (map m [pl..<pl + 8]) + num (map m [pl + 8..<pl + 8 + (?k - 8)]))"
      by (intro ceq_add u ceq_refl)
    also have "ceq \<dots> (unat sm + num (map m [pl..<pl + ?k]))"
      unfolding add.assoc [of "unat sm"] by (intro ceq_add ceq_refl ceq_sym [OF num_step]) (use d in simp_all)
    finally show ?thesis using IH True d by (simp add: le_mod_geq)
  qed
qed


section \<open>The three versions\<close>

lemma unat_set_byte:
  "unat (set_byte1 b 0) = 256 * unat b" "unat (set_byte0 b 0) = unat b"
  "unat (set_byte0 c (set_byte1 b 0)) = 256 * unat b + unat c"
proof -
  have uc: "unat (ucast x :: u16) = unat x" for x :: u8
    by (rule unat_ucast_id) (rule less_trans [OF unat_u8_less], simp)
  have lt: "unat (ucast b :: u16) * 2 ^ 8 < 2 ^ LENGTH(16)" unfolding uc using unat_u8_less [of b] by simp
  show "unat (set_byte1 b 0) = 256 * unat b" using unat_push_or [OF lt, of 0] by (simp add: set_byte1_def uc)
  show "unat (set_byte0 b 0) = unat b" by (simp add: set_byte0_def uc)
  have keep: "push_bit 8 (ucast b :: u16) AND 0xFF00 = push_bit 8 (ucast b)"
  proof -
    have "(0xFF00 :: u16) = push_bit 8 (mask 8)" by (simp add: mask_eq_exp_minus_1 push_bit_eq_mult)
    moreover have "(ucast b :: u16) AND mask 8 = ucast b"
      unfolding take_bit_eq_mask [symmetric] by (simp add: word_unat_eq_iff unsigned_take_bit_eq uc take_bit_nat_eq_self)
    ultimately show ?thesis by (metis push_bit_and)
  qed
  show "unat (set_byte0 c (set_byte1 b 0)) = 256 * unat b + unat c"
    using unat_push_or [OF lt, of "ucast c"] unat_u8_less [of c] by (simp add: set_byte0_def set_byte1_def keep uc)
qed

text \<open>The end of versions 2 and 3.\<close>

lemma chksum_finish_ok:
  assumes t: "t = 0 \<and> h = 0 \<or> t = set_byte1 b 0 \<and> h = unat b" and l: "len \<le> 1" and s: "unat sm \<le> 4294836225"
    and X: "ceq (unat sm + 256 * h + (if len > 0 then unat (m ps) else 0)) X"
  shows "unat (chksum_finish m isodd t (sm, ps, len)) = ones (if isodd then 256 * X else X)"
proof -
  define t' where "t' = (if len > 0 then set_byte0 (m ps) t else t)"
  define S where "S = sm + ucast t'"
  define F where "F = FOLD_U32T (FOLD_U32T S)"
  have ut: "unat t' = 256 * h + (if len > 0 then unat (m ps) else 0)"
    using t unat_set_byte by (auto simp: t'_def)
  have uc: "unat (ucast t' :: u32) = unat t'" by (rule unat_ucast_id) (rule less_trans [OF unat_u16_less], simp)
  have "unat sm + unat (ucast t' :: u32) < 2 ^ LENGTH(32)" unfolding uc using s unat_u16_less [of t'] by (simp del: unat_u16_less)
  from unat_add_no_wrap [OF this] have S: "unat S = unat sm + unat t'" unfolding S_def uc .
  have "ceq (unat S) X" using X unfolding S ut by (simp add: add.assoc)
  then have F: "unat F = ones X" unfolding F_def by (rule FOLD_FOLD_ones)
  have Fle: "unat F \<le> 65535" unfolding F by (rule ones_le)
  have u16: "unat (ucast y :: u16) = unat y" if "unat y \<le> 65535" for y :: u32
    using that by (intro unat_ucast_id) simp
  have run: "chksum_finish m isodd t (sm, ps, len) = ucast (if isodd then SWAP_BYTES_IN_WORD F else F)"
    by (simp add: chksum_finish_def F_def S_def t'_def Let_def)
  show ?thesis
  proof (cases isodd)
    case True
    have "ceq (unat (SWAP_BYTES_IN_WORD F)) (256 * unat F)" "unat (SWAP_BYTES_IN_WORD F) \<le> 65535"
      using SWAP_ceq [OF Fle] by blast+
    moreover have "ceq (256 * unat F) (256 * X)" unfolding F by (rule ceq_mult [OF ceq_ones])
    ultimately have "unat (SWAP_BYTES_IN_WORD F) = ones (256 * X)" by (blast intro: ones_unique ceq_trans)
    then show ?thesis using True run u16 SWAP_ceq(2) [OF Fle] by simp
  next
    case False
    then show ?thesis using run u16 [OF Fle] F by simp
  qed
qed

text \<open>What the bytes from the second on contribute, when the first one is at an odd address.\<close>

lemma num_odd: "ceq (256 * (256 * unat b + num bs)) (num (b # bs))"
proof -
  have "ceq (65536 * unat b + 256 * num bs) (unat b + 256 * num bs)" by (intro ceq_add ceq_65536 ceq_refl)
  then show ?thesis by (simp add: algebra_simps)
qed

text \<open>An even part and at most one byte more.\<close>

lemma num_last:
  assumes "even k" and "n = k + l" and "l \<le> 1"
  shows "ceq (num (map m [a..<a + k]) + (if l > 0 then unat (m (a + k)) else 0)) (num (map m [a..<a + n]))"
proof -
  have "num (map m [a + k..<a + k + l]) = (if l > 0 then unat (m (a + k)) else 0)" using assms(3) by (cases l) auto
  then show ?thesis using ceq_sym [OF num_step [OF assms(1), of n m a]] assms(2) by simp
qed

text \<open>The rule that versions 2 and 3 share: the sum of the even part is right.\<close>

lemma chksum_rule:
  assumes odd: "chksum_odd m a len = (t, ps, n)"
    and sum: "ceq (unat sm) (num (map m [ps..<ps + k]))" "even k" "n = k + l" "l \<le> 1" "unat sm \<le> 4294836225"
  shows "unat (chksum_finish m (odd a) t (sm, ps + k, l)) = ones (num (map m [a..<a + len]))"
proof -
  let ?E = "num (map m [ps..<ps + n])" and ?c = "if l > 0 then unat (m (ps + k)) else 0"
  have E: "ceq (unat sm + ?c) ?E"
    by (rule ceq_trans [OF ceq_add [OF sum(1) ceq_refl] num_last [OF sum(2-4)]])
  show ?thesis
  proof (cases "odd a \<and> len > 0")
    case True
    then have o: "t = set_byte1 (m a) 0" "ps = a + 1" "n = len - 1" using odd by (auto simp: chksum_odd_def)
    have "ceq (256 * unat (m a) + (unat sm + ?c)) (256 * unat (m a) + ?E)" by (intro ceq_add ceq_refl E)
    then have "unat (chksum_finish m (odd a) t (sm, ps + k, l)) = ones (256 * (256 * unat (m a) + ?E))"
      using chksum_finish_ok [OF disjI2 sum(4,5), where t = t and h = "unat (m a)" and b = "m a" and m = m and ps = "ps + k"
          and X = "256 * unat (m a) + ?E" and isodd = "odd a"] o(1) True
      by (simp add: ac_simps)
    also have "\<dots> = ones (num (m a # map m [ps..<ps + n]))" by (rule ones_cong [OF num_odd])
    also have "m a # map m [ps..<ps + n] = map m [a..<a + len]" using True o(2,3) by (simp add: upt_conv_Cons)
    finally show ?thesis .
  next
    case False
    then have o: "t = 0" "ps = a" "n = len" using odd by (auto simp: chksum_odd_def)
    have zero: "odd a \<Longrightarrow> ?E = 0" using False o by simp
    have "unat (chksum_finish m (odd a) t (sm, ps + k, l)) = ones (if odd a then 256 * ?E else ?E)"
      using chksum_finish_ok [OF disjI1 sum(4,5), where t = t and h = 0 and m = m and ps = "ps + k" and X = ?E and isodd = "odd a"] o(1) E
      by simp
    then show ?thesis using zero o by (cases "odd a") auto
  qed
qed

lemma standard_chksum2_ok:
  assumes "len < 65536"
  shows "unat (lwip_standard_chksum2 m a len) = ones (num (map m [a..<a + len]))"
proof -
  obtain t ps n where o: "chksum_odd m a len = (t, ps, n)" by (metis prod_cases3)
  then have n: "n \<le> len" by (auto simp: chksum_odd_def split: if_splits)
  obtain sm ps' l where r: "sum16_loop m ps n 0 = (sm, ps', l)" by (metis prod_cases3)
  have b: "65535 * (n div 2) \<le> 2147385345" using div_le_mono [of n 65535 2] n assms by simp
  have s: "l = n mod 2 \<and> ps' = ps + 2 * (n div 2) \<and> unat sm \<le> 65535 * (n div 2)
     \<and> ceq (unat sm) (num (map m [ps..<ps + 2 * (n div 2)]))"
    using sum16_loop_ok [OF r] b by simp
  then have l: "l = n mod 2" "ps' = ps + 2 * (n div 2)" by blast+
  have "unat (chksum_finish m (odd a) t (sm, ps + 2 * (n div 2), l)) = ones (num (map m [a..<a + len]))"
    by (rule chksum_rule [OF o]) (use s b in \<open>auto\<close>)
  then show ?thesis by (simp add: lwip_standard_chksum2_def o r l(2))
qed

lemma standard_chksum_ok:
  assumes "len < 65536"
  shows "unat (lwip_standard_chksum m a len) = ones (num (map m [a..<a + len]))"
proof -
  obtain t ps n where o: "chksum_odd m a len = (t, ps, n)" by (metis prod_cases3)
  define h where "h = (if ps mod 4 \<noteq> 0 \<and> n > 1 then 2 else 0 :: nat)"
  define s0 where "s0 = (if ps mod 4 \<noteq> 0 \<and> n > 1 then load16 m ps else 0)"
  have h: "even h" "h \<le> n" by (auto simp: h_def)
  have s0: "unat s0 = num (map m [ps..<ps + h])" unfolding s0_def h_def using upt_2 [of ps] by (simp add: unat_load16(1))
  obtain s1 p1 n1 where r1: "sum32_loop m (ps + h) (n - h) s0 = (s1, p1, n1)" by (metis prod_cases3)
  have q1: "n1 = (n - h) mod 8" "p1 = ps + h + 8 * ((n - h) div 8)"
    "ceq (unat s1) (unat s0 + num (map m [ps + h..<ps + h + 8 * ((n - h) div 8)]))"
    using sum32_loop_ok [OF r1] by blast+
  let ?k1 = "h + 8 * ((n - h) div 8)"
  have k1: "n = ?k1 + n1" "n1 < 8" "even ?k1" using q1(1) h by simp_all
  have c1: "ceq (unat (FOLD_U32T s1)) (num (map m [ps..<ps + ?k1]))"
  proof -
    have "ceq (unat s1) (num (map m [ps..<ps + h]) + num (map m [ps + h..<ps + h + (?k1 - h)]))" using q1(3) s0 by simp
    also have "ceq \<dots> (num (map m [ps..<ps + ?k1]))" by (intro ceq_sym [OF num_step]) (use h in simp_all)
    finally show ?thesis using ceq_trans [OF FOLD_ceq] by blast
  qed
  obtain s2 p2 l where r2: "sum16_loop m p1 n1 (FOLD_U32T s1) = (s2, p2, l)" by (metis prod_cases3)
  have f: "unat (FOLD_U32T s1) \<le> 131070"
  proof -
    have "unat s1 div 65536 < 65536" using unat_u32_less [of s1] by (simp add: less_mult_imp_div_less)
    moreover have "unat s1 mod 65536 < 65536" by simp
    ultimately show ?thesis unfolding unat_FOLD by linarith
  qed
  have n3: "n1 div 2 \<le> 3" using k1(2) by simp
  have b: "unat (FOLD_U32T s1) + 65535 * (n1 div 2) \<le> 131070 + 65535 * 3" using f n3 by (intro add_mono) simp_all
  let ?k2 = "2 * (n1 div 2)"
  have q2: "l = n1 mod 2" "p2 = p1 + ?k2" "unat s2 \<le> unat (FOLD_U32T s1) + 65535 * (n1 div 2)"
    "ceq (unat s2) (unat (FOLD_U32T s1) + num (map m [p1..<p1 + ?k2]))"
    using sum16_loop_ok [OF r2] b by auto
  let ?k = "?k1 + ?k2"
  have c2: "ceq (unat s2) (num (map m [ps..<ps + ?k]))"
  proof -
    have "ceq (unat s2) (num (map m [ps..<ps + ?k1]) + num (map m [ps + ?k1..<ps + ?k1 + (?k - ?k1)]))"
      using ceq_trans [OF q2(4) ceq_add [OF c1 ceq_refl]] q1(2) by (simp add: add.assoc)
    also have "ceq \<dots> (num (map m [ps..<ps + ?k]))" by (intro ceq_sym [OF num_step]) (use k1(3) in simp_all)
    finally show ?thesis .
  qed
  have "unat (chksum_finish m (odd a) t (s2, ps + ?k, l)) = ones (num (map m [a..<a + len]))"
    by (rule chksum_rule [OF o c2]) (use k1 q2(1,3) b in auto)
  moreover have "p2 = ps + ?k" using q1(2) q2(2) by simp
  moreover have "lwip_standard_chksum m a len = chksum_finish m (odd a) t (s2, p2, l)"
  proof -
    have "(if ps mod 4 \<noteq> 0 \<and> n > 1 then (load16 m ps, ps + 2, n - 2) else (0, ps, n)) = (s0, ps + h, n - h)"
      by (simp add: h_def s0_def)
    then show ?thesis using o r1 r2 by (simp only: lwip_standard_chksum_def Let_def prod.case)
  qed
  ultimately show ?thesis by simp
qed



lemma htons_ceq: "ceq (unat (lwip_htons x)) (256 * unat x)"
proof -
  have "z = 256 * h + l \<Longrightarrow> 256 * z = 256 * l + 65536 * h" for z h l :: nat by simp
  from this [OF mult_div_mod_eq [symmetric]] have e: "256 * unat x = 256 * (unat x mod 256) + 65536 * (unat x div 256)" .
  show ?thesis unfolding unat_htons e by (intro ceq_add ceq_refl ceq_sym [OF ceq_65536])
qed

lemma chksum1_loop_ok:
  assumes "chksum1_loop m p len acc = (acc', p', len')" and "unat acc + 65535 * (len div 2) < 2 ^ 32"
  shows "len' = len mod 2 \<and> p' = p + 2 * (len div 2) \<and> unat acc' \<le> unat acc + 65535 * (len div 2)
     \<and> ceq (unat acc') (unat acc + 256 * num (map m [p..<p + 2 * (len div 2)]))"
  using assms
proof (induction m p len acc arbitrary: acc' p' len' rule: chksum1_loop.induct)
  case (1 m p len acc)
  show ?case
  proof (cases "len > 1")
    case False
    then show ?thesis using 1(2) by (auto simp: chksum1_loop.simps [of m p len acc])
  next
    case True
    let ?k = "2 * (len div 2)"
    define src where "src = push_bit 8 (ucast (m p) :: u16) OR ucast (m (p + 1))"
    have uc: "unat (ucast x :: u16) = unat x" for x :: u8
      by (rule unat_ucast_id) (rule less_trans [OF unat_u8_less], simp)
    have lt: "unat (ucast (m p) :: u16) * 2 ^ 8 < 2 ^ LENGTH(16)" unfolding uc using unat_u8_less [of "m p"] by simp
    have us: "unat src = 256 * unat (m p) + unat (m (p + 1))"
      using unat_push_or [OF lt, of "ucast (m (p + 1))"] unat_u8_less [of "m (p + 1)"] by (simp add: src_def uc)
    have uw: "unat (ucast src :: u32) = unat src" by (rule unat_ucast_id) (rule less_trans [OF unat_u16_less], simp)
    have sle: "unat src \<le> 65535" using unat_u16_less [of src] by (simp del: unat_u16_less)
    have d: "len div 2 = Suc ((len - 2) div 2)" using True by (simp add: le_div_geq)
    have w: "unat (acc + ucast src) = unat acc + unat src"
      using 1(3) sle d by (subst unat_add_no_wrap) (simp_all add: uw)
    have run: "chksum1_loop m (p + 2) (len - 2) (acc + ucast src) = (acc', p', len')"
      using 1(2) True by (simp add: chksum1_loop.simps [of m p len acc] src_def Let_def)
    have "unat (acc + ucast src) + 65535 * ((len - 2) div 2) < 2 ^ 32" using 1(3) w sle d by simp
    note IH = 1(1) [OF True refl src_def run this]
    have "len mod 2 = (len - 2) mod 2" using True by (simp add: le_mod_geq)
    moreover have "ceq (unat acc') (unat acc + 256 * num (map m [p..<p + ?k]))"
    proof -
      let ?R = "num (map m [p + 2..<p + 2 + (?k - 2)])"
      have "ceq (unat acc') (unat acc + unat src + 256 * ?R)" using IH d unfolding w by simp
      also have "ceq \<dots> (unat acc + 256 * num (map m [p..<p + 2]) + 256 * ?R)"
      proof -
        have "ceq (256 * unat (m p) + unat (m (p + 1))) (256 * unat (m p) + 65536 * unat (m (p + 1)))"
          by (intro ceq_add ceq_refl ceq_sym [OF ceq_65536])
        then have "ceq (unat src) (256 * num (map m [p..<p + 2]))" unfolding upt_2 us by (simp add: algebra_simps)
        then show ?thesis by (intro ceq_add ceq_refl)
      qed
      also have "\<dots> = unat acc + 256 * (num (map m [p..<p + 2]) + ?R)" by (simp add: algebra_simps)
      also have "ceq \<dots> (unat acc + 256 * num (map m [p..<p + ?k]))"
        by (intro ceq_add ceq_refl ceq_mult ceq_sym [OF num_step]) (use d in simp_all)
      finally show ?thesis .
    qed
    ultimately show ?thesis using IH w sle unfolding d by auto
  qed
qed

lemma and_high_zero: "x AND 0xFFFF0000 = 0 \<Longrightarrow> unat x \<le> 65535" for x :: u32
proof -
  assume z: "x AND 0xFFFF0000 = 0"
  have "(0xFFFF0000 :: u32) = NOT (mask 16)" by (simp add: mask_eq_exp_minus_1)
  then have "x = x AND mask 16" using z by (metis bit.conj_disj_distrib bit.disj_cancel_right bit.conj_one_right or.right_neutral)
  then have "unat x = unat x mod 65536" using unat_and_mask [of x 16] by simp
  then show ?thesis using mod_less_divisor [of 65536 "unat x"] by linarith
qed

lemma standard_chksum1_ok:
  assumes "len < 65536"
  shows "unat (lwip_standard_chksum1 m a len) = ones (num (map m [a..<a + len]))"
proof -
  let ?N = "num (map m [a..<a + len])" and ?k = "2 * (len div 2)"
  obtain s p l where r: "chksum1_loop m a len 0 = (s, p, l)" by (metis prod_cases3)
  have b: "65535 * (len div 2) \<le> 2147385345" using div_le_mono [of len 65535 2] assms by simp
  have q: "l = len mod 2" "p = a + ?k" "unat s \<le> 65535 * (len div 2)" "ceq (unat s) (256 * num (map m [a..<a + ?k]))"
    using chksum1_loop_ok [OF r] b by auto
  define c where "c = (if l > 0 then ucast (push_bit 8 (ucast (m p)) :: u16) else 0 :: u32)"
  have uc: "unat c = 256 * (if l > 0 then unat (m p) else 0)"
  proof -
    have u1: "unat (ucast (m p) :: u16) = unat (m p)" by (rule unat_ucast_id) (rule less_trans [OF unat_u8_less], simp)
    have "unat (push_bit 8 (ucast (m p)) :: u16) = unat (m p) * 2 ^ 8"
      using unat_push_bit [of "ucast (m p) :: u16" 8] unat_u8_less [of "m p"] by (simp add: u1)
    moreover have "unat (ucast y :: u32) = unat y" for y :: u16
      by (rule unat_ucast_id) (rule less_trans [OF unat_u16_less], simp)
    ultimately show ?thesis by (simp add: c_def)
  qed
  define t where "t = s + c"
  have cle: "unat c \<le> 65280" unfolding uc using unat_u8_less [of "m p"] by (auto simp del: unat_u8_less)
  have ut: "unat t = unat s + unat c" unfolding t_def using q(3) b cle by (intro unat_add_no_wrap) simp
  have "ceq (unat t) (256 * num (map m [a..<a + ?k]) + 256 * (if l > 0 then unat (m p) else 0))"
    unfolding ut uc by (intro ceq_add q(4) ceq_refl)
  also have "\<dots> = 256 * (num (map m [a..<a + ?k]) + (if l > 0 then unat (m (a + ?k)) else 0))"
    unfolding q(2) by (simp add: distrib_left)
  also have "ceq \<dots> (256 * ?N)" by (rule ceq_mult [OF num_last]) (use q(1) in simp_all)
  finally have T: "ceq (unat t) (256 * ?N)" .
  define f where "f = (if FOLD_U32T t AND 0xFFFF0000 \<noteq> 0 then FOLD_U32T (FOLD_U32T t) else FOLD_U32T t)"
  have fle: "unat f \<le> 65535" unfolding f_def using FOLD_le2 [of t] and_high_zero [of "FOLD_U32T t"] by auto
  have fc: "ceq (unat f) (256 * ?N)" unfolding f_def using T by (auto intro: ceq_trans [OF FOLD_ceq])
  have "lwip_standard_chksum1 m a len = lwip_htons (ucast f)"
    using r by (simp add: lwip_standard_chksum1_def f_def t_def c_def FOLD_U32T_def Let_def)
  moreover have "unat (ucast f :: u16) = unat f" using fle by (intro unat_ucast_id) simp
  ultimately have "ceq (unat (lwip_standard_chksum1 m a len)) (256 * unat f)" using htons_ceq [of "ucast f"] by simp
  also have "ceq \<dots> (256 * (256 * ?N))" by (rule ceq_mult [OF fc])
  also have "ceq \<dots> ?N" by (rule ceq_256_256)
  finally show ?thesis
    using unat_u16_less [of "lwip_standard_chksum1 m a len"] by (intro ones_unique) (simp_all del: unat_u16_less)
qed


section \<open>Properties\<close>

text \<open>
  C32 The three versions of \<open>lwip_standard_chksum\<close> agree. For every memory, address (odd, even or a
  multiple of four) and length up to \<open>65535\<close>, each of them returns the one's complement sum of
  the 16-bit words, the reference of RFC 1071.
\<close>

theorem chksum_versions_agree:
  assumes "len < 65536"
  shows "unat (lwip_standard_chksum m a len) = chksum_ref (map m [a..<a + len])
    \<and> unat (lwip_standard_chksum2 m a len) = chksum_ref (map m [a..<a + len])
    \<and> unat (lwip_standard_chksum1 m a len) = chksum_ref (map m [a..<a + len])"
  using standard_chksum_ok [OF assms] standard_chksum2_ok [OF assms] standard_chksum1_ok [OF assms]
  by (simp add: chksum_ref_ones)

theorem chksum_versions_agree_witness:
  "unat (lwip_standard_chksum (\<lambda>i. of_nat (200 * i)) 1 3) = 37152
   \<and> unat (lwip_standard_chksum2 (\<lambda>i. of_nat (200 * i)) 1 3) = 37152
   \<and> unat (lwip_standard_chksum1 (\<lambda>i. of_nat (200 * i)) 1 3) = 37152"
proof -
  have "map (\<lambda>i. of_nat (200 * i)) [1..<1 + 3] = [200, 144, 88 :: u8]" by (simp add: upt_conv_Cons)
  moreover have "chksum_ref [200, 144, 88] = 37152" by (simp add: chksum_ref_def ocadd_def)
  ultimately show ?thesis using chksum_versions_agree [of 3 "\<lambda>i. of_nat (200 * i)" 1] by simp
qed

text \<open>
  C33 Verification. A buffer in which a field of two zero bytes at an even distance from the start
  is replaced by the checksum of the buffer has the checksum 0: this is how receivers check it.
\<close>

theorem inet_chksum_verifies:
  assumes "even k" and "k + 2 \<le> unat len" and "m (a + k) = 0" and "m (a + k + 1) = 0"
    and "c = inet_chksum m a len"
  shows "inet_chksum (m(a + k := ucast c, a + k + 1 := ucast (drop_bit 8 c))) a len = 0"
proof -
  let ?m = "m(a + k := ucast c, a + k + 1 := ucast (drop_bit 8 c))" and ?n = "unat len"
  have n: "?n < 65536" by simp
  let ?N = "num (map m [a..<a + ?n])"
  have uc: "unat c = 65535 - ones ?N"
    unfolding assms(5) inet_chksum_def using standard_chksum_ok [OF n, of m a] by (simp add: unat_not)
  have split: "[a..<a + ?n] = [a..<a + k] @ [a + k, a + k + 1] @ [a + k + 2..<a + ?n]"
  proof -
    have "[a..<a + ?n] = [a..<a + k] @ [a + k..<a + ?n]" using assms(2) by (intro upt_split_at) simp_all
    moreover have "[a + k..<a + ?n] = [a + k..<a + k + 2] @ [a + k + 2..<a + ?n]"
      using assms(2) by (intro upt_split_at) simp_all
    ultimately show ?thesis unfolding upt_2 by simp
  qed
  have "unat (ucast c :: u8) + 256 * unat (ucast (drop_bit 8 c) :: u8) = unat c"
  proof -
    have "unat (ucast c :: u8) = unat c mod 256" "unat (ucast (drop_bit 8 c) :: u8) = unat c div 256 mod 256"
      by (simp_all add: unsigned_ucast_eq unat_drop_bit take_bit_eq_mod)
    moreover have "unat c div 256 < 256" using unat_u16_less [of c] by (simp add: less_mult_imp_div_less)
    ultimately show ?thesis by simp
  qed
  then have new: "num (map ?m [a..<a + ?n]) = ?N + 256 ^ k * unat c"
    unfolding split map_append num_append using assms(3,4) by (simp add: algebra_simps)
  have "ceq (num (map ?m [a..<a + ?n])) (ones ?N + (65535 - ones ?N))"
    unfolding new uc using ceq_pow [of k "65535 - ones ?N"] assms(1) by (intro ceq_add ceq_sym [OF ceq_ones]) simp
  also have "\<dots> = 65535" using ones_le [of ?N] by simp
  finally have "unat (lwip_standard_chksum ?m a ?n) = ones 65535"
    unfolding standard_chksum_ok [OF n] by (rule ones_cong)
  also have "\<dots> = 65535" by (simp add: ones_def)
  finally have "lwip_standard_chksum ?m a ?n = -1" by (simp add: word_unat_eq_iff unsigned_minus_1_eq_mask mask_eq_exp_minus_1)
  then show ?thesis by (simp add: inet_chksum_def)
qed

text \<open>A buffer with an empty field, for the witness.\<close>

definition field_mem :: "addr \<Rightarrow> u8" where
  "field_mem = (\<lambda>i. if i = 6 \<or> i = 7 then 0 else of_nat i)"

theorem inet_chksum_verifies_witness:
  "inet_chksum (field_mem(6 := ucast (inet_chksum field_mem 4 8), 7 := ucast (drop_bit 8 (inet_chksum field_mem 4 8)))) 4 8 = 0"
  using inet_chksum_verifies [of 2 8 field_mem 4, OF _ _ _ _ refl] by (simp add: field_mem_def)

text \<open>
  A single wrong byte is detected. Changing one byte of the data, to any other value, changes the
  checksum.
\<close>

lemma chksum_detects_byte:
  assumes "len < 65536" and "k < len" and "v \<noteq> m (a + k)"
  shows "lwip_standard_chksum (m(a + k := v)) a len \<noteq> lwip_standard_chksum m a len"
proof
  let ?m = "m(a + k := v)"
  assume "lwip_standard_chksum ?m a len = lwip_standard_chksum m a len"
  then have "ones (num (map ?m [a..<a + len])) = ones (num (map m [a..<a + len]))"
    using standard_chksum_ok [OF assms(1)] by metis
  then have eq: "ceq (num (map ?m [a..<a + len])) (num (map m [a..<a + len]))"
    by (metis ceq_ones ceq_sym ceq_trans)
  have "[a..<a + len] = [a..<a + k] @ (a + k) # [a + k + 1..<a + len]"
    using assms(2) upt_split_at [of a "a + k" "a + len"] by (simp add: upt_conv_Cons)
  then have "\<exists>R. num (map m [a..<a + len]) = R + 256 ^ k * unat (m (a + k)) \<and> num (map ?m [a..<a + len]) = R + 256 ^ k * unat v"
    by (auto simp: num_append algebra_simps intro!: exI [of _ "num (map m [a..<a + k]) + 256 ^ (k + 1) * num (map m [a + k + 1..<a + len])"])
  then obtain R where R: "num (map m [a..<a + len]) = R + 256 ^ k * unat (m (a + k))"
    "num (map ?m [a..<a + len]) = R + 256 ^ k * unat v" by blast
  have "(R + 256 ^ k * unat v) mod 65535 = (R + 256 ^ k * unat (m (a + k))) mod 65535"
    using eq unfolding R ceq_def by blast
  then have "(256 ^ k * unat v) mod 65535 = (256 ^ k * unat (m (a + k))) mod 65535"
    by (rule mod_add_cancel)
  moreover have "(256 ^ k * unat x) mod 65535 = (if even k then unat x else 256 * unat x)" for x :: u8
    using ceq_pow [of k "unat x"] unat_u8_less [of x] by (auto simp: ceq_def)
  ultimately have "unat v = unat (m (a + k))" by (simp split: if_splits)
  then show False using assms(3) by (simp add: word_unat_eq_iff)
qed


end
