(* ===== verification/Inet_Chksum.thy ===== *)
theory Inet_Chksum
  imports Pbuf_Data Chksum
begin

text \<open>
  The Internet checksum over packets, \<open>lwip/src/core/inet_chksum.c\<close>, second part: checksums
  over pbuf chains, with and without the pseudo headers of IPv4 and IPv6.
\<close>

unbundle bit_operations_syntax

section \<open>Checksums over chains and pseudo headers\<close>

text \<open>The loop over the pbufs of a chain, with \<open>swapped\<close>: the data so far has odd length.\<close>

partial_function (option) chksum_loop :: "addr \<Rightarrow> bool \<Rightarrow> u32 \<Rightarrow> pb_state \<Rightarrow> (bool \<times> u32) option" where
  "chksum_loop q swapped acc s =
     (if q \<noteq> NULL then do {
        b \<leftarrow> getp q s;
        let acc = acc + ucast (lwip_standard_chksum (bytes s) (pb_payload b) (unat (pb_len b)));
        let acc = FOLD_U32T acc;
        if odd (unat (pb_len b)) then chksum_loop (pb_next b) (\<not> swapped) (SWAP_BYTES_IN_WORD acc) s
        else chksum_loop (pb_next b) swapped acc s
      } else Some (swapped, acc))"

text \<open>The end of the checksums with a pseudo header.\<close>

definition pseudo_finish :: "u8 \<Rightarrow> u16 \<Rightarrow> bool \<Rightarrow> u32 \<Rightarrow> u16" where
  "pseudo_finish proto proto_len swapped acc =
     (let acc = (if swapped then SWAP_BYTES_IN_WORD acc else acc);
          acc = acc + ucast (lwip_htons (ucast proto));
          acc = acc + ucast (lwip_htons proto_len);
          acc = FOLD_U32T acc;
          acc = FOLD_U32T acc in
      ucast (NOT (acc AND 0xFFFF)))"

definition inet_cksum_pseudo_base :: "addr \<Rightarrow> u8 \<Rightarrow> u16 \<Rightarrow> u32 \<Rightarrow> pb_state \<Rightarrow> u16 option" where
  "inet_cksum_pseudo_base p proto proto_len acc s =
     do { (swapped, acc) \<leftarrow> chksum_loop p False acc s; Some (pseudo_finish proto proto_len swapped acc) }"

text \<open>The two halves of an address word are added one after the other.\<close>

definition add_halves :: "u32 \<Rightarrow> u32 \<Rightarrow> u32" where
  "add_halves acc addr = (acc + (addr AND 0xFFFF)) + (drop_bit 16 addr AND 0xFFFF)"

definition inet_chksum_pseudo :: "addr \<Rightarrow> u8 \<Rightarrow> u16 \<Rightarrow> u32 \<Rightarrow> u32 \<Rightarrow> pb_state \<Rightarrow> u16 option" where
  "inet_chksum_pseudo p proto proto_len src dest s =
     (let acc = add_halves (add_halves 0 src) dest;
          acc = FOLD_U32T acc;
          acc = FOLD_U32T acc in
      inet_cksum_pseudo_base p proto proto_len acc s)"

text \<open>An IPv6 address is its four words.\<close>

definition add_parts :: "u32 list \<Rightarrow> u32 list \<Rightarrow> u32" where
  "add_parts src dest = foldl (\<lambda>acc (a, b). add_halves (add_halves acc a) b) 0 (zip src dest)"

definition ip6_chksum_pseudo :: "addr \<Rightarrow> u8 \<Rightarrow> u16 \<Rightarrow> u32 list \<Rightarrow> u32 list \<Rightarrow> pb_state \<Rightarrow> u16 option" where
  "ip6_chksum_pseudo p proto proto_len src dest s =
     (let acc = add_parts src dest;
          acc = FOLD_U32T acc;
          acc = FOLD_U32T acc in
      inet_cksum_pseudo_base p proto proto_len acc s)"

text \<open>\<open>ip_addr_t\<close>: a union of the four words of an IPv6 address and an IPv4 address, and a type.\<close>

record ip_addr =
  u_addr :: "u32 list"
  ip_type :: u8

definition IP_IS_V6 :: "ip_addr \<Rightarrow> bool" where "IP_IS_V6 a \<longleftrightarrow> ip_type a = 6"

definition ip_chksum_pseudo :: "addr \<Rightarrow> u8 \<Rightarrow> u16 \<Rightarrow> ip_addr \<Rightarrow> ip_addr \<Rightarrow> pb_state \<Rightarrow> u16 option" where
  "ip_chksum_pseudo p proto proto_len src dest s =
     (if IP_IS_V6 dest then ip6_chksum_pseudo p proto proto_len (u_addr src) (u_addr dest) s
      else inet_chksum_pseudo p proto proto_len (u_addr src ! 0) (u_addr dest ! 0) s)"

text \<open>The variants that cover only the first \<open>chksum_len\<close> bytes of the packet.\<close>

partial_function (option) chksum_partial_loop ::
  "addr \<Rightarrow> u16 \<Rightarrow> bool \<Rightarrow> u32 \<Rightarrow> pb_state \<Rightarrow> (bool \<times> u32) option" where
  "chksum_partial_loop q chksum_len swapped acc s =
     (if q \<noteq> NULL \<and> chksum_len > 0 then do {
        b \<leftarrow> getp q s;
        let chklen = (if pb_len b > chksum_len then chksum_len else pb_len b);
        let acc = acc + ucast (lwip_standard_chksum (bytes s) (pb_payload b) (unat chklen));
        let chksum_len = chksum_len - chklen;
        let acc = FOLD_U32T acc;
        if odd (unat (pb_len b)) then chksum_partial_loop (pb_next b) chksum_len (\<not> swapped) (SWAP_BYTES_IN_WORD acc) s
        else chksum_partial_loop (pb_next b) chksum_len swapped acc s
      } else Some (swapped, acc))"

definition inet_cksum_pseudo_partial_base :: "addr \<Rightarrow> u8 \<Rightarrow> u16 \<Rightarrow> u16 \<Rightarrow> u32 \<Rightarrow> pb_state \<Rightarrow> u16 option" where
  "inet_cksum_pseudo_partial_base p proto proto_len chksum_len acc s =
     do { (swapped, acc) \<leftarrow> chksum_partial_loop p chksum_len False acc s; Some (pseudo_finish proto proto_len swapped acc) }"

definition inet_chksum_pseudo_partial ::
  "addr \<Rightarrow> u8 \<Rightarrow> u16 \<Rightarrow> u16 \<Rightarrow> u32 \<Rightarrow> u32 \<Rightarrow> pb_state \<Rightarrow> u16 option" where
  "inet_chksum_pseudo_partial p proto proto_len chksum_len src dest s =
     (let acc = add_halves (add_halves 0 src) dest;
          acc = FOLD_U32T acc;
          acc = FOLD_U32T acc in
      inet_cksum_pseudo_partial_base p proto proto_len chksum_len acc s)"

definition ip6_chksum_pseudo_partial ::
  "addr \<Rightarrow> u8 \<Rightarrow> u16 \<Rightarrow> u16 \<Rightarrow> u32 list \<Rightarrow> u32 list \<Rightarrow> pb_state \<Rightarrow> u16 option" where
  "ip6_chksum_pseudo_partial p proto proto_len chksum_len src dest s =
     (let acc = add_parts src dest;
          acc = FOLD_U32T acc;
          acc = FOLD_U32T acc in
      inet_cksum_pseudo_partial_base p proto proto_len chksum_len acc s)"

definition ip_chksum_pseudo_partial ::
  "addr \<Rightarrow> u8 \<Rightarrow> u16 \<Rightarrow> u16 \<Rightarrow> ip_addr \<Rightarrow> ip_addr \<Rightarrow> pb_state \<Rightarrow> u16 option" where
  "ip_chksum_pseudo_partial p proto proto_len chksum_len src dest s =
     (if IP_IS_V6 dest then ip6_chksum_pseudo_partial p proto proto_len chksum_len (u_addr src) (u_addr dest) s
      else inet_chksum_pseudo_partial p proto proto_len chksum_len (u_addr src ! 0) (u_addr dest ! 0) s)"

definition inet_chksum_pbuf :: "addr \<Rightarrow> pb_state \<Rightarrow> u16 option" where
  "inet_chksum_pbuf p s =
     do {
       (swapped, acc) \<leftarrow> chksum_loop p False 0 s;
       let acc = (if swapped then SWAP_BYTES_IN_WORD acc else acc);
       Some (ucast (NOT (acc AND 0xFFFF)))
     }"

text \<open>\<open>lwip_chksum_copy\<close> (\<open>LWIP_CHKSUM_COPY_ALGORITHM\<close> 1): copy, then sm the copy.\<close>

definition lwip_chksum_copy :: "addr \<Rightarrow> addr \<Rightarrow> u16 \<Rightarrow> pb_state \<Rightarrow> u16 \<times> pb_state" where
  "lwip_chksum_copy dst src len s =
     (let s = memcpy dst src (unat len) s in (lwip_standard_chksum (bytes s) dst (unat len), s))"

section \<open>The loop over a chain\<close>

text \<open>
  \<open>rep sw acc V\<close>: the accumulator stands for the number \<open>V\<close>, with its bytes swapped when \<open>sw\<close>.
\<close>

definition rep :: "bool \<Rightarrow> u32 \<Rightarrow> nat \<Rightarrow> bool" where
  "rep sw acc V \<longleftrightarrow> unat acc \<le> 65535 \<and> ceq (unat acc) (if sw then 256 * V else V)"

lemma rep_cong: "rep sw acc V \<Longrightarrow> ceq V W \<Longrightarrow> rep sw acc W"
  unfolding rep_def by (auto intro: ceq_trans ceq_mult)

lemma rep_swap:
  assumes "rep sw acc V"
  shows "rep (\<not> sw) (SWAP_BYTES_IN_WORD acc) V"
proof -
  have le: "unat acc \<le> 65535" and c: "ceq (unat acc) (if sw then 256 * V else V)" using assms by (auto simp: rep_def)
  have "ceq (unat (SWAP_BYTES_IN_WORD acc)) (256 * (if sw then 256 * V else V))"
    by (rule ceq_trans [OF SWAP_ceq(1) [OF le] ceq_mult [OF c]])
  then show ?thesis using SWAP_ceq(2) [OF le] ceq_256_256 [of V] by (auto simp: rep_def intro: ceq_trans)
qed

lemma unat_ucast_u16_u32 [simp]: "unat (ucast (x :: u16) :: u32) = unat x"
  by (rule unat_ucast_id) (rule less_trans [OF unat_u16_less], simp)

text \<open>Adding the checksum of a segment.\<close>

lemma rep_add:
  assumes "rep sw acc V" and "n < 65536"
  shows "rep sw (FOLD_U32T (acc + ucast (lwip_standard_chksum m a n))) (V + (if sw then 256 else 1) * num (map m [a..<a + n]))"
proof -
  let ?c = "lwip_standard_chksum m a n" and ?N = "num (map m [a..<a + n])"
  have le: "unat acc \<le> 65535" and c: "ceq (unat acc) (if sw then 256 * V else V)" using assms(1) by (auto simp: rep_def)
  have cle: "unat ?c \<le> 65535" using unat_u16_less [of ?c] by linarith
  have u: "unat (acc + ucast ?c) = unat acc + unat ?c" using le cle by (subst unat_add_no_wrap) simp_all
  have "ceq (unat ?c) ?N" unfolding standard_chksum_ok [OF assms(2)] by (rule ceq_ones)
  then have "ceq (unat acc + unat ?c) ((if sw then 256 * V else V) + ?N)" by (intro ceq_add c)
  moreover have "ceq ((if sw then 256 * V else V) + ?N) (if sw then 256 * (V + 256 * ?N) else V + ?N)"
  proof (cases sw)
    case True
    have "ceq (256 * V + ?N) (256 * V + 256 * (256 * ?N))" by (intro ceq_add ceq_refl ceq_sym [OF ceq_256_256])
    then show ?thesis using True by (simp add: distrib_left)
  qed simp
  ultimately have "ceq (unat (acc + ucast ?c)) (if sw then 256 * (V + 256 * ?N) else V + ?N)"
    unfolding u by (rule ceq_trans)
  then have "ceq (unat (FOLD_U32T (acc + ucast ?c))) (if sw then 256 * (V + 256 * ?N) else V + ?N)"
    by (rule ceq_trans [OF FOLD_ceq])
  moreover have "unat (FOLD_U32T (acc + ucast ?c)) \<le> 65535" using le cle u by (intro FOLD_le) simp
  ultimately show ?thesis by (cases sw) (simp_all add: rep_def)
qed

lemma pdata_Cons:
  "pbufs s q = Some b \<Longrightarrow> pdata s (q # qs) = map (bytes s) [pb_payload b..<pb_payload b + unat (pb_len b)] @ pdata s qs"
  by (simp add: pdata_def blen_def)

lemma chksum_loop_ok:
  assumes "linked (nexts s) p qs" and "rep sw acc V"
  shows "\<exists>sw' acc'. chksum_loop p sw acc s = Some (sw', acc')
     \<and> rep sw' acc' (V + (if sw then 256 else 1) * num (pdata s qs))"
  using assms
proof (induction qs arbitrary: p sw acc V)
  case Nil
  then show ?case by (simp add: chksum_loop.simps pdata_def)
next
  case (Cons q qs)
  from Cons.prems(1) obtain b where b: "p = q" "q \<noteq> NULL" "getp q s = Some b" "pbufs s q = Some b"
    "linked (nexts s) (pb_next b) qs" by (rule linked_ConsD)
  let ?n = "unat (pb_len b)"
  let ?xs = "map (bytes s) [pb_payload b..<pb_payload b + ?n]"
  define acc1 where "acc1 = FOLD_U32T (acc + ucast (lwip_standard_chksum (bytes s) (pb_payload b) ?n))"
  define V1 where "V1 = V + (if sw then 256 else 1) * num ?xs"
  have r1: "rep sw acc1 V1" unfolding acc1_def V1_def by (rule rep_add [OF Cons.prems(2)]) simp
  define sw2 where "sw2 = (sw \<noteq> odd ?n)"
  define acc2 where "acc2 = (if odd ?n then SWAP_BYTES_IN_WORD acc1 else acc1)"
  have "rep sw2 acc2 V1" unfolding sw2_def acc2_def using r1 rep_swap [OF r1] by auto
  from Cons.IH [OF b(5) this] obtain sw' acc' where IH: "chksum_loop (pb_next b) sw2 acc2 s = Some (sw', acc')"
    "rep sw' acc' (V1 + (if sw2 then 256 else 1) * num (pdata s qs))" by blast
  have run: "chksum_loop p sw acc s = Some (sw', acc')"
    using IH(1) b(1-3) by (subst chksum_loop.simps) (simp add: Let_def acc1_def [symmetric] acc2_def sw2_def split: if_splits)
  have "ceq (V1 + (if sw2 then 256 else 1) * num (pdata s qs)) (V + (if sw then 256 else 1) * num (pdata s (q # qs)))"
  proof -
    have ap: "ceq (num (?xs @ pdata s qs)) (num ?xs + (if even ?n then num (pdata s qs) else 256 * num (pdata s qs)))"
      using num_append_ceq [of ?xs "pdata s qs"] by simp
    have "ceq ((if sw2 then 256 else 1) * num (pdata s qs)) ((if sw then 256 else 1) * (if even ?n then num (pdata s qs) else 256 * num (pdata s qs)))"
      using ceq_sym [OF ceq_256_256 [of "num (pdata s qs)"]] by (auto simp: sw2_def)
    then have "ceq (V1 + (if sw2 then 256 else 1) * num (pdata s qs))
        (V + (if sw then 256 else 1) * (num ?xs + (if even ?n then num (pdata s qs) else 256 * num (pdata s qs))))"
      unfolding V1_def distrib_left add.assoc by (intro ceq_add ceq_refl)
    also have "ceq \<dots> (V + (if sw then 256 else 1) * num (pdata s (q # qs)))"
      unfolding pdata_Cons [OF b(4)] by (intro ceq_add ceq_refl ceq_mult) (rule ceq_sym [OF ap])
    finally show ?thesis .
  qed
  from rep_cong [OF IH(2) this] run show ?case by blast
qed

text \<open>The variant for a part of the packet: only the last segment is cut.\<close>

lemma chksum_partial_loop_ok:
  assumes "linked (nexts s) p qs" and "rep sw acc V"
  shows "\<exists>sw' acc'. chksum_partial_loop p n sw acc s = Some (sw', acc')
     \<and> rep sw' acc' (V + (if sw then 256 else 1) * num (take (unat n) (pdata s qs)))"
  using assms
proof (induction qs arbitrary: p n sw acc V)
  case Nil
  then show ?case by (simp add: chksum_partial_loop.simps pdata_def)
next
  case (Cons q qs)
  from Cons.prems(1) obtain b where b: "p = q" "q \<noteq> NULL" "getp q s = Some b" "pbufs s q = Some b"
    "linked (nexts s) (pb_next b) qs" by (rule linked_ConsD)
  show ?case
  proof (cases "n = 0")
    case True
    then show ?thesis using Cons.prems(2) by (simp add: chksum_partial_loop.simps)
  next
    case False
    then have n0: "n > 0" by (simp add: word_neq_0_conv)
    define l where "l = (if pb_len b > n then n else pb_len b)"
    let ?n = "unat (pb_len b)"
    have ul: "unat l = min ?n (unat n)" by (auto simp: l_def word_less_nat_alt min_def)
    have rem: "unat (n - l) = unat n - ?n" using ul by (subst unat_sub_le) (auto simp: l_def not_less)
    let ?xs = "map (bytes s) [pb_payload b..<pb_payload b + unat l]"
    define acc1 where "acc1 = FOLD_U32T (acc + ucast (lwip_standard_chksum (bytes s) (pb_payload b) (unat l)))"
    define V1 where "V1 = V + (if sw then 256 else 1) * num ?xs"
    have r1: "rep sw acc1 V1" unfolding acc1_def V1_def by (rule rep_add [OF Cons.prems(2)]) simp
    define sw2 where "sw2 = (sw \<noteq> odd ?n)"
    define acc2 where "acc2 = (if odd ?n then SWAP_BYTES_IN_WORD acc1 else acc1)"
    have "rep sw2 acc2 V1" unfolding sw2_def acc2_def using r1 rep_swap [OF r1] by auto
    from Cons.IH [OF b(5) this] obtain sw' acc' where IH: "chksum_partial_loop (pb_next b) (n - l) sw2 acc2 s = Some (sw', acc')"
      "rep sw' acc' (V1 + (if sw2 then 256 else 1) * num (take (unat (n - l)) (pdata s qs)))" by blast
    have run: "chksum_partial_loop p n sw acc s = Some (sw', acc')"
      using IH(1) b(1-3) n0
      by (subst chksum_partial_loop.simps) (simp add: Let_def l_def [symmetric] acc1_def [symmetric] acc2_def sw2_def split: if_splits)
    let ?R = "take (unat n - ?n) (pdata s qs)"
    have data: "take (unat n) (pdata s (q # qs)) = ?xs @ ?R"
      unfolding pdata_Cons [OF b(4)] take_append take_map length_map length_upt ul by (simp add: take_upt min_def)
    have ap: "ceq (num (?xs @ ?R)) (num ?xs + (if even (unat l) then num ?R else 256 * num ?R))"
      using num_append_ceq [of ?xs ?R] by simp
    have "ceq ((if sw2 then 256 else 1) * num ?R) ((if sw then 256 else 1) * (if even (unat l) then num ?R else 256 * num ?R))"
    proof (cases "?n \<le> unat n")
      case True
      then show ?thesis using ul ceq_sym [OF ceq_256_256 [of "num ?R"]] by (auto simp: sw2_def min_def)
    next
      case False
      then show ?thesis by simp
    qed
    then have "ceq (V1 + (if sw2 then 256 else 1) * num ?R)
        (V + (if sw then 256 else 1) * (num ?xs + (if even (unat l) then num ?R else 256 * num ?R)))"
      unfolding V1_def distrib_left add.assoc by (intro ceq_add ceq_refl)
    also have "ceq \<dots> (V + (if sw then 256 else 1) * num (take (unat n) (pdata s (q # qs))))"
      unfolding data by (intro ceq_add ceq_refl ceq_mult) (rule ceq_sym [OF ap])
    finally show ?thesis using run rep_cong [OF IH(2)] unfolding rem by blast
  qed
qed

section \<open>Results\<close>

lemma ucast_not_u16:
  fixes acc :: u32
  assumes "unat acc \<le> 65535"
  shows "ucast (NOT (acc AND 0xFFFF)) = (NOT (of_nat (unat acc)) :: u16)"
proof -
  have "unat (acc AND 0xFFFF) = unat acc" using assms by (simp add: mask_16 unat_and_mask)
  then have "acc AND 0xFFFF = acc" by (simp add: word_unat_eq_iff)
  moreover have "ucast (NOT acc) = (NOT (ucast acc) :: u16)" by (auto intro!: bit_word_eqI simp: bit_ucast_iff bit_not_iff)
  moreover have "(ucast acc :: u16) = of_nat (unat acc)" by simp
  ultimately show ?thesis by (simp only:)
qed

lemma rep_final: "rep sw acc V \<Longrightarrow> unat (if sw then SWAP_BYTES_IN_WORD acc else acc) = ones V"
  using rep_swap [of sw acc V] by (auto simp: rep_def intro: ones_unique split: if_splits)

lemma inet_chksum_pbuf_ok:
  assumes "linked (nexts s) p qs"
  shows "inet_chksum_pbuf p s = Some (NOT (of_nat (ones (num (pdata s qs)))))"
proof -
  have "rep False 0 0" by (simp add: rep_def)
  from chksum_loop_ok [OF assms this] obtain sw acc where r: "chksum_loop p False 0 s = Some (sw, acc)"
    "rep sw acc (num (pdata s qs))" by auto
  let ?a = "if sw then SWAP_BYTES_IN_WORD acc else acc"
  have u: "unat ?a = ones (num (pdata s qs))" by (rule rep_final [OF r(2)])
  have "unat ?a \<le> 65535" unfolding u by (rule ones_le)
  from ucast_not_u16 [OF this] show ?thesis unfolding u by (simp add: inet_chksum_pbuf_def r(1) Let_def)
qed

lemma pseudo_finish_ok:
  assumes "rep sw acc V"
  shows "pseudo_finish proto proto_len sw acc =
     NOT (of_nat (ones (V + unat (lwip_htons (ucast proto)) + unat (lwip_htons proto_len))))"
proof -
  define a where "a = (if sw then SWAP_BYTES_IN_WORD acc else acc)"
  let ?p = "lwip_htons (ucast proto)" and ?l = "lwip_htons proto_len"
  define t where "t = a + ucast ?p + ucast ?l"
  have a: "unat a = ones V" unfolding a_def by (rule rep_final [OF assms])
  have b: "unat a \<le> 65535" "unat ?p \<le> 65535" "unat ?l \<le> 65535"
    using a ones_le [of V] unat_u16_less [of ?p] unat_u16_less [of ?l] by linarith+
  have u1: "unat (a + ucast ?p) = unat a + unat ?p" using b by (subst unat_add_no_wrap) simp_all
  have u: "unat t = unat a + unat ?p + unat ?l" unfolding t_def using b u1 by (subst unat_add_no_wrap) simp_all
  have "ceq (unat t) (V + unat ?p + unat ?l)" unfolding u a by (intro ceq_add ceq_ones ceq_refl)
  then have f: "unat (FOLD_U32T (FOLD_U32T t)) = ones (V + unat ?p + unat ?l)" by (rule FOLD_FOLD_ones)
  have "unat (FOLD_U32T (FOLD_U32T t)) \<le> 65535" unfolding f by (rule ones_le)
  from ucast_not_u16 [OF this] show ?thesis
    unfolding f by (simp add: pseudo_finish_def Let_def a_def [symmetric] t_def [symmetric])
qed

text \<open>The sum of the halves of the address words.\<close>

definition halves :: "u32 \<Rightarrow> nat" where "halves a = unat a mod 65536 + unat a div 65536"

lemma halves_le: "halves a \<le> 131070"
proof -
  have "unat a div 65536 < 65536" using unat_u32_less [of a] by (simp add: less_mult_imp_div_less)
  moreover have "unat a mod 65536 < 65536" by simp
  ultimately show ?thesis unfolding halves_def by linarith
qed

lemma add_halves_ok:
  assumes "unat acc + 131070 < 2 ^ 32"
  shows "unat (add_halves acc a) = unat acc + halves a"
proof -
  have h: "unat a div 65536 < 65536" using unat_u32_less [of a] by (simp add: less_mult_imp_div_less)
  have u: "unat (a AND 0xFFFF) = unat a mod 65536" "unat (drop_bit 16 a AND 0xFFFF) = unat a div 65536"
    using h by (simp_all add: mask_16 unat_and_mask unat_drop_bit)
  have l: "unat a mod 65536 < 65536" by simp
  have 1: "unat (acc + (a AND 0xFFFF)) = unat acc + unat a mod 65536"
    using assms l by (subst unat_add_no_wrap) (simp_all only: u, simp)
  show ?thesis unfolding add_halves_def halves_def
    using assms l h by (subst unat_add_no_wrap) (simp_all only: 1 u, simp_all)
qed


lemma add_parts_ok:
  assumes "length src = 4" and "length dest = 4"
  shows "unat (add_parts src dest) = sum_list (map halves (src @ dest))"
proof -
  have len: "\<exists>a b c d. xs = [a, b, c, d]" if "length xs = 4" for xs :: "u32 list"
    using that by (auto simp: numeral_eq_Suc length_Suc_conv)
  obtain a b c d where s: "src = [a, b, c, d]" using len [OF assms(1)] by blast
  obtain e f g h where t: "dest = [e, f, g, h]" using len [OF assms(2)] by blast
  note B = halves_le [of a] halves_le [of b] halves_le [of c] halves_le [of d]
    halves_le [of e] halves_le [of f] halves_le [of g] halves_le [of h]
  have 1: "unat (add_halves (add_halves 0 a) e) = halves a + halves e" using B by (simp add: add_halves_ok)
  have 2: "unat (add_halves (add_halves (add_halves (add_halves 0 a) e) b) f) = halves a + halves e + halves b + halves f"
    using B 1 by (simp add: add_halves_ok)
  have 3: "unat (add_halves (add_halves (add_halves (add_halves (add_halves (add_halves 0 a) e) b) f) c) g)
      = halves a + halves e + halves b + halves f + halves c + halves g"
    using B 2 by (simp add: add_halves_ok)
  show ?thesis using B 3 by (simp add: add_parts_def s t add_halves_ok)
qed

text \<open>The words of the pseudo header of a packet, as numbers.\<close>

definition pseudo4 :: "u32 \<Rightarrow> u32 \<Rightarrow> u8 \<Rightarrow> u16 \<Rightarrow> nat" where
  "pseudo4 src dest proto len = halves src + halves dest + unat (lwip_htons (ucast proto)) + unat (lwip_htons len)"

definition pseudo6 :: "u32 list \<Rightarrow> u32 list \<Rightarrow> u8 \<Rightarrow> u16 \<Rightarrow> nat" where
  "pseudo6 src dest proto len =
     sum_list (map halves (src @ dest)) + unat (lwip_htons (ucast proto)) + unat (lwip_htons len)"

lemma rep_start: "unat t = V \<Longrightarrow> rep False (FOLD_U32T (FOLD_U32T t)) V"
  using FOLD_FOLD_ones [OF ceq_refl, of t] ceq_ones [of V] FOLD_le2 [of t] by (auto simp: rep_def)

lemma pseudo_base_ok:
  assumes "linked (nexts s) p qs" and "unat t = V"
  shows "inet_cksum_pseudo_base p proto len (FOLD_U32T (FOLD_U32T t)) s =
      Some (NOT (of_nat (ones (V + num (pdata s qs) + unat (lwip_htons (ucast proto)) + unat (lwip_htons len)))))"
    and "inet_cksum_pseudo_partial_base p proto len n (FOLD_U32T (FOLD_U32T t)) s =
      Some (NOT (of_nat (ones (V + num (take (unat n) (pdata s qs)) + unat (lwip_htons (ucast proto)) + unat (lwip_htons len)))))"
proof -
  from chksum_loop_ok [OF assms(1) rep_start [OF assms(2)]] obtain sw acc where
    "chksum_loop p False (FOLD_U32T (FOLD_U32T t)) s = Some (sw, acc)" "rep sw acc (V + num (pdata s qs))" by auto
  then show "inet_cksum_pseudo_base p proto len (FOLD_U32T (FOLD_U32T t)) s =
      Some (NOT (of_nat (ones (V + num (pdata s qs) + unat (lwip_htons (ucast proto)) + unat (lwip_htons len)))))"
    by (simp add: inet_cksum_pseudo_base_def pseudo_finish_ok del: of_nat_add)
  from chksum_partial_loop_ok [OF assms(1) rep_start [OF assms(2)]] obtain sw acc where
    "chksum_partial_loop p n False (FOLD_U32T (FOLD_U32T t)) s = Some (sw, acc)" "rep sw acc (V + num (take (unat n) (pdata s qs)))"
    by fastforce
  then show "inet_cksum_pseudo_partial_base p proto len n (FOLD_U32T (FOLD_U32T t)) s =
      Some (NOT (of_nat (ones (V + num (take (unat n) (pdata s qs)) + unat (lwip_htons (ucast proto)) + unat (lwip_htons len)))))"
    by (simp add: inet_cksum_pseudo_partial_base_def pseudo_finish_ok del: of_nat_add)
qed

section \<open>Properties\<close>

text \<open>
  C34 The checksum of a packet does not depend on its division into pbufs: \<open>inet_chksum_pbuf\<close> ends on
  every chain, with segments of any length and alignment, and returns the complement of the one's
  complement sum of the 16-bit words of the data.
\<close>

theorem inet_chksum_pbuf_correct:
  assumes "linked (nexts s) p qs"
  shows "inet_chksum_pbuf p s = Some (NOT (of_nat (chksum_ref (pdata s qs))))"
  using inet_chksum_pbuf_ok [OF assms] by (simp add: chksum_ref_ones)

theorem inet_chksum_pbuf_correct_witness:
  "inet_chksum_pbuf 100 demo_pb = Some (NOT (of_nat (chksum_ref [232, 233, 234, 235, 236, 237, 208, 209, 210, 211])))"
proof -
  have "pdata demo_pb [100, 200] = [232, 233, 234, 235, 236, 237, 208, 209, 210, 211]"
    by (simp add: pdata_def demo_cells upt_rec_numeral)
  then show ?thesis using inet_chksum_pbuf_correct [OF demo_chain(1)] by simp
qed

text \<open>
  C35 Checksums with pseudo headers. \<open>ip_chksum_pseudo\<close> and \<open>ip_chksum_pseudo_partial\<close> return, for
  IPv4 and IPv6, the complement of the one's complement sum of the words of the pseudo header and
  of the data, all of it or its first bytes.
\<close>

theorem ip_chksum_pseudo_correct:
  assumes "linked (nexts s) p qs" and "length (u_addr src) = 4" and "length (u_addr dest) = 4"
  shows "ip_chksum_pseudo p proto len src dest s = Some (NOT (of_nat (ones (num (pdata s qs) +
      (if IP_IS_V6 dest then pseudo6 (u_addr src) (u_addr dest) proto len
       else pseudo4 (u_addr src ! 0) (u_addr dest ! 0) proto len)))))
    \<and> ip_chksum_pseudo_partial p proto len n src dest s = Some (NOT (of_nat (ones (num (take (unat n) (pdata s qs)) +
      (if IP_IS_V6 dest then pseudo6 (u_addr src) (u_addr dest) proto len
       else pseudo4 (u_addr src ! 0) (u_addr dest ! 0) proto len)))))"
proof -
  let ?a = "u_addr src ! 0" and ?b = "u_addr dest ! 0"
  have 4: "unat (add_halves (add_halves 0 ?a) ?b) = halves ?a + halves ?b"
    using halves_le [of ?a] halves_le [of ?b] by (simp add: add_halves_ok)
  have 6: "unat (add_parts (u_addr src) (u_addr dest)) = sum_list (map halves (u_addr src @ u_addr dest))"
    by (rule add_parts_ok [OF assms(2,3)])
  show ?thesis
  proof (cases "IP_IS_V6 dest")
    case True
    then show ?thesis using pseudo_base_ok [OF assms(1) 6, of proto len]
      by (simp add: ip_chksum_pseudo_def ip_chksum_pseudo_partial_def ip6_chksum_pseudo_def ip6_chksum_pseudo_partial_def
          Let_def pseudo6_def ac_simps del: of_nat_add)
  next
    case False
    then show ?thesis using pseudo_base_ok [OF assms(1) 4, of proto len]
      by (simp add: ip_chksum_pseudo_def ip_chksum_pseudo_partial_def inet_chksum_pseudo_def inet_chksum_pseudo_partial_def
          Let_def pseudo4_def ac_simps del: of_nat_add)
  qed
qed

definition demo_ip :: ip_addr where "demo_ip = \<lparr>u_addr = [0x0A000001, 0, 0, 0], ip_type = 0\<rparr>"

theorem ip_chksum_pseudo_correct_witness:
  "\<exists>c. ip_chksum_pseudo 100 17 10 demo_ip demo_ip demo_pb = Some c
     \<and> c = NOT (of_nat (ones (num (pdata demo_pb [100, 200]) + pseudo4 0x0A000001 0x0A000001 17 10)))"
  using ip_chksum_pseudo_correct [OF demo_chain(1), of demo_ip demo_ip 17 10 0]
  by (simp add: demo_ip_def IP_IS_V6_def)

end
