(* ===== verification/Timeouts.thy ===== *)
theory Timeouts
  imports Memp "HOL-Library.Multiset"
begin

text \<open>
  The timers of the stack, \<open>lwip/src/core/timeouts.c\<close>: a list of \<open>struct sys_timeo\<close> objects taken
  from the pool \<open>MEMP_SYS_TIMEOUT\<close>, ordered by due time in 32-bit arithmetic that wraps. The pool
  is the one of \<open>Memp\<close>. Code outside the file that a timer calls (\<open>tcp_tmr\<close>, the handlers in the
  table of cyclic timers, the handlers of applications) is a parameter, a record \<open>callbacks\<close> of
  functions that may change the state, call the functions of this file and let time pass.
  \<open>sys_now\<close> reads the milliseconds since the start, reduced to 32 bits.
\<close>

section \<open>Data\<close>

datatype sys_timeout_handler = no_handler | lwip_cyclic_timer_h | tcpip_tcp_timer_h | user_handler nat

record sys_timeo =
  tm_next :: addr
  tm_time :: u32
  tm_h :: sys_timeout_handler
  tm_arg :: nat

text \<open>
  The variables of the file, the pool and what the timers need of the rest of the system: the clock
  and whether \<open>tcp_active_pcbs\<close> or \<open>tcp_tw_pcbs\<close> is not empty.
\<close>

record timeouts =
  next_timeout :: addr
  timeo :: "addr \<Rightarrow> sys_timeo option"
  current_timeout_due_time :: u32
  tcpip_tcp_timer_active :: bool
  to_pool :: memp_pool
  clock_ms :: nat
  tcp_pcbs :: bool


definition LWIP_MAX_TIMEOUT :: u32 where [const_defs]: "LWIP_MAX_TIMEOUT = 0x7FFFFFFF"
definition SYS_TIMEOUTS_SLEEPTIME_INFINITE :: u32 where [const_defs]: "SYS_TIMEOUTS_SLEEPTIME_INFINITE = 0xFFFFFFFF"
definition TCP_TMR_INTERVAL :: u32 where [const_defs]: "TCP_TMR_INTERVAL = 250"

definition TIME_LESS_THAN :: "u32 \<Rightarrow> u32 \<Rightarrow> bool" where
  "TIME_LESS_THAN t compare_to \<longleftrightarrow> t - compare_to > LWIP_MAX_TIMEOUT"

text \<open>
  The intervals of the table \<open>lwip_cyclic_timers\<close> in the configuration of the port: TCP, IP
  reassembly, ARP, DHCP coarse and fine, ACD, DNS, ND6, IPv6 reassembly, MLD6. The argument of a
  cyclic timer, a pointer to its entry, is the index.
\<close>

definition lwip_cyclic_timers :: "u32 list" where
  "lwip_cyclic_timers = [TCP_TMR_INTERVAL, 1000, 1000, 60000, 500, 100, 1000, 1000, 1000, 100]"

definition sys_now :: "timeouts \<Rightarrow> u32" where
  "sys_now s = of_nat (clock_ms s)"

section \<open>Operations\<close>

text \<open>The loop of \<open>sys_timeout_abs\<close>: insertion behind the last timer that is not later.\<close>

partial_function (option) insert_loop :: "addr \<Rightarrow> addr \<Rightarrow> timeouts \<Rightarrow> timeouts option" where
  "insert_loop timeout t s =
     (if t \<noteq> NULL then do {
        tn \<leftarrow> timeo s t;
        new \<leftarrow> timeo s timeout;
        ins \<leftarrow> (if tm_next tn = NULL then Some True
                 else do { nx \<leftarrow> timeo s (tm_next tn); Some (TIME_LESS_THAN (tm_time new) (tm_time nx)) });
        if ins then
          Some (s\<lparr>timeo := (timeo s)(timeout \<mapsto> new\<lparr>tm_next := tm_next tn\<rparr>, t \<mapsto> tn\<lparr>tm_next := timeout\<rparr>)\<rparr>)
        else insert_loop timeout (tm_next tn) s
      } else Some s)"

definition sys_timeout_abs :: "u32 \<Rightarrow> sys_timeout_handler \<Rightarrow> nat \<Rightarrow> timeouts \<Rightarrow> timeouts option" where
  "sys_timeout_abs abs_time handler arg s =
     (let (timeout, pool) = do_memp_malloc_pool (to_pool s);
          s = s\<lparr>to_pool := pool\<rparr> in
      if timeout = NULL then Some s
      else
        (let new = \<lparr>tm_next = NULL, tm_time = abs_time, tm_h = handler, tm_arg = arg\<rparr>;
             s = s\<lparr>timeo := (timeo s)(timeout \<mapsto> new)\<rparr> in
         if next_timeout s = NULL then Some (s\<lparr>next_timeout := timeout\<rparr>)
         else do {
           first \<leftarrow> timeo s (next_timeout s);
           if TIME_LESS_THAN (tm_time new) (tm_time first) then
             Some (s\<lparr>timeo := (timeo s)(timeout \<mapsto> new\<lparr>tm_next := next_timeout s\<rparr>), next_timeout := timeout\<rparr>)
           else insert_loop timeout (next_timeout s) s
         }))"

definition sys_timeout :: "u32 \<Rightarrow> sys_timeout_handler \<Rightarrow> nat \<Rightarrow> timeouts \<Rightarrow> timeouts option" where
  "sys_timeout msecs handler arg s =
     (let next_timeout_time = sys_now s + msecs in sys_timeout_abs next_timeout_time handler arg s)"


definition tcp_timer_needed :: "timeouts \<Rightarrow> timeouts option" where
  "tcp_timer_needed s =
     (if \<not> tcpip_tcp_timer_active s \<and> tcp_pcbs s
      then sys_timeout TCP_TMR_INTERVAL tcpip_tcp_timer_h 0 (s\<lparr>tcpip_tcp_timer_active := True\<rparr>)
      else Some s)"




text \<open>\<open>memp_free(MEMP_SYS_TIMEOUT, t)\<close>; the object is not there any more.\<close>

definition free_timeo :: "addr \<Rightarrow> timeouts \<Rightarrow> timeouts" where
  "free_timeo t s = s\<lparr>timeo := (timeo s)(t := None), to_pool := do_memp_free_pool t (to_pool s)\<rparr>"

partial_function (option) untimeout_loop ::
  "sys_timeout_handler \<Rightarrow> nat \<Rightarrow> addr \<Rightarrow> addr \<Rightarrow> timeouts \<Rightarrow> timeouts option" where
  "untimeout_loop handler arg prev_t t s =
     (if t \<noteq> NULL then do {
        tn \<leftarrow> timeo s t;
        if tm_h tn = handler \<and> tm_arg tn = arg then do {
          s \<leftarrow> (if prev_t = NULL then Some (s\<lparr>next_timeout := tm_next tn\<rparr>)
                else do { pn \<leftarrow> timeo s prev_t; Some (s\<lparr>timeo := (timeo s)(prev_t \<mapsto> pn\<lparr>tm_next := tm_next tn\<rparr>)\<rparr>) });
          Some (free_timeo t s)
        } else untimeout_loop handler arg t (tm_next tn) s
      } else Some s)"

definition sys_untimeout :: "sys_timeout_handler \<Rightarrow> nat \<Rightarrow> timeouts \<Rightarrow> timeouts option" where
  "sys_untimeout handler arg s =
     (if next_timeout s = NULL then Some s else untimeout_loop handler arg NULL (next_timeout s) s)"




partial_function (option) restart_loop :: "u32 \<Rightarrow> u32 \<Rightarrow> addr \<Rightarrow> timeouts \<Rightarrow> timeouts option" where
  "restart_loop now base t s =
     (if t \<noteq> NULL then do {
        tn \<leftarrow> timeo s t;
        restart_loop now base (tm_next tn) (s\<lparr>timeo := (timeo s)(t \<mapsto> tn\<lparr>tm_time := (tm_time tn - base) + now\<rparr>)\<rparr>)
      } else Some s)"

definition sys_restart_timeouts :: "timeouts \<Rightarrow> timeouts option" where
  "sys_restart_timeouts s =
     (if next_timeout s = NULL then Some s
      else do {
        let now = sys_now s;
        first \<leftarrow> timeo s (next_timeout s);
        restart_loop now (tm_time first) (next_timeout s) s
      })"

definition sys_timeouts_sleeptime :: "timeouts \<Rightarrow> u32 option" where
  "sys_timeouts_sleeptime s =
     (if next_timeout s = NULL then Some SYS_TIMEOUTS_SLEEPTIME_INFINITE
      else do {
        let now = sys_now s;
        first \<leftarrow> timeo s (next_timeout s);
        Some (if TIME_LESS_THAN (tm_time first) now then 0 else tm_time first - now)
      })"

section \<open>Timers as a list with unbounded time\<close>

text \<open>
  The abstract view: a list of due time, handler and argument, where time does not wrap. \<open>tins\<close>
  inserts behind the timers that are not later, so that timers with the same due time stay in the
  order in which they were started.
\<close>

type_synonym entry = "nat \<times> sys_timeout_handler \<times> nat"

fun tins :: "entry \<Rightarrow> entry list \<Rightarrow> entry list" where
  "tins e [] = [e]"
| "tins e (x # xs) = (if fst e < fst x then e # x # xs else x # tins e xs)"

lemma tins_set [simp]: "set (tins e L) = insert e (set L)"
  by (induction L) auto


lemma tins_sorted: "sorted (map fst L) \<Longrightarrow> sorted (map fst (tins e L))"
  by (induction L) auto

lemma tins_not_empty [simp]: "tins e L \<noteq> []"
  by (cases L) auto

abbreviation tnexts :: "timeouts \<Rightarrow> addr \<Rightarrow> addr option" where
  "tnexts s \<equiv> \<lambda>a. map_option tm_next (timeo s a)"

definition entry_at :: "timeouts \<Rightarrow> addr \<Rightarrow> entry \<Rightarrow> bool" where
  "entry_at s a e \<longleftrightarrow> (\<exists>tn. timeo s a = Some tn \<and> tm_time tn = of_nat (fst e) \<and> tm_h tn = fst (snd e) \<and> tm_arg tn = snd (snd e))"

abbreviation entries_at :: "timeouts \<Rightarrow> addr list \<Rightarrow> entry list \<Rightarrow> bool" where
  "entries_at s \<equiv> list_all2 (entry_at s)"

text \<open>The window of \<open>2 ^ 31\<close> ms from a base time in which comparison modulo \<open>2 ^ 32\<close> is right.\<close>

definition window :: "nat \<Rightarrow> nat \<Rightarrow> bool" where
  "window B t \<longleftrightarrow> B \<le> t \<and> t < B + 2 ^ 31"

text \<open>The argument of a cyclic timer is an entry of the table.\<close>

definition handler_arg_ok :: "sys_timeout_handler \<times> nat \<Rightarrow> bool" where
  "handler_arg_ok ha \<longleftrightarrow> (fst ha = lwip_cyclic_timer_h \<longrightarrow> snd ha < length lwip_cyclic_timers)"

definition timers_inv :: "memp_desc \<Rightarrow> nat \<Rightarrow> timeouts \<Rightarrow> entry list \<Rightarrow> bool" where
  "timers_inv d B s L \<longleftrightarrow>
     (\<exists>as. linked (tnexts s) (next_timeout s) as \<and> entries_at s as L \<and> pool_inv d (to_pool s) (set as)) \<and>
     sorted (map fst L) \<and> (\<forall>e\<in>set L. window B (fst e) \<and> handler_arg_ok (snd e)) \<and> window B (clock_ms s)"

lemma time_less:
  assumes "window B x" and "window B y"
  shows "TIME_LESS_THAN (of_nat x) (of_nat y) \<longleftrightarrow> x < y"
proof (cases "x < y")
  case True
  then have n: "y - x < 2 ^ 31" "0 < y - x" using assms by (auto simp: window_def)
  have "(of_nat (2 ^ 32 - (y - x)) :: u32) = of_nat (2 ^ 32) - of_nat (y - x)" using n by (intro of_nat_diff) simp
  also have "(of_nat (2 ^ 32) :: u32) = 0" by simp
  finally have "(of_nat x - of_nat y :: u32) = of_nat (2 ^ 32 - (y - x))" using True by simp
  moreover have "unat (of_nat (2 ^ 32 - (y - x)) :: u32) = 2 ^ 32 - (y - x)"
    using n by (intro unat_of_nat_id) simp
  ultimately have "unat (of_nat x - of_nat y :: u32) = 2 ^ 32 - (y - x)" by (simp only:)
  then show ?thesis using True n by (simp add: TIME_LESS_THAN_def LWIP_MAX_TIMEOUT_def word_less_nat_alt)
next
  case False
  then have "x - y < 2 ^ 31" using assms by (auto simp: window_def)
  then have u: "unat (of_nat (x - y) :: u32) = x - y" by (intro unat_of_nat_id) simp
  moreover have "(of_nat x - of_nat y :: u32) = of_nat (x - y)" using False by simp
  ultimately have "unat (of_nat x - of_nat y :: u32) = x - y" by (simp only:)
  then show ?thesis using False \<open>x - y < 2 ^ 31\<close> by (simp add: TIME_LESS_THAN_def LWIP_MAX_TIMEOUT_def word_less_nat_alt)
qed

lemma entries_cong: "\<forall>a \<in> set as. timeo s a = timeo s' a \<Longrightarrow> entries_at s as L = entries_at s' as L"
  by (auto simp: list_all2_conv_all_nth entry_at_def)

lemma tnexts_cong: "\<forall>a \<in> set as. timeo s a = timeo s' a \<Longrightarrow> linked (tnexts s) p as = linked (tnexts s') p as"
  by (rule linked_cong) simp

section \<open>Insertion\<close>

lemma insert_loop_ok:
  assumes "linked (tnexts s) t (t # as)" and "entries_at s (t # as) (x # L)"
    and "entry_at s n e" and "n \<notin> set (t # as)" and "n \<noteq> NULL"
    and "fst x \<le> fst e" and "window B (fst e)" and "\<forall>y\<in>set L. window B (fst y)"
  shows "\<exists>s' as'. insert_loop n t s = Some s' \<and> s' = s\<lparr>timeo := timeo s'\<rparr> \<and> linked (tnexts s') t (t # as')
    \<and> entries_at s' (t # as') (x # tins e L) \<and> set as' = insert n (set as)
    \<and> (\<forall>a. a \<notin> insert n (set (t # as)) \<longrightarrow> timeo s' a = timeo s a)"
  using assms
proof (induction as arbitrary: t x L)
  case Nil
  then have L: "L = []" by simp
  obtain tn where t: "timeo s t = Some tn" "tm_next tn = NULL" "t \<noteq> NULL" using Nil.prems(1) by auto
  obtain nn where n: "timeo s n = Some nn" using Nil.prems(3) by (auto simp: entry_at_def)
  have tn: "t \<noteq> n" using Nil.prems(4) by auto
  let ?s = "s\<lparr>timeo := (timeo s)(n \<mapsto> nn\<lparr>tm_next := NULL\<rparr>, t \<mapsto> tn\<lparr>tm_next := n\<rparr>)\<rparr>"
  have "insert_loop n t s = Some ?s" using t n by (subst insert_loop.simps) simp
  moreover have "linked (tnexts ?s) t (t # [n])" using t tn Nil.prems(5) by simp
  moreover have "entries_at ?s (t # [n]) (x # tins e L)"
    using Nil.prems(2,3) t n tn by (auto simp: L entry_at_def)
  ultimately show ?case by (intro exI [of _ ?s] exI [of _ "[n]"]) (auto simp: fun_upd_def)
next
  case (Cons u as)
  then obtain y M where L: "L = y # M" by (cases L) auto
  obtain tn where t: "timeo s t = Some tn" "tm_next tn = u" "t \<noteq> NULL" "linked (tnexts s) u (u # as)" "u \<noteq> NULL"
    using Cons.prems(1) by auto
  obtain nn where n: "timeo s n = Some nn" "tm_time nn = of_nat (fst e)" using Cons.prems(3) by (auto simp: entry_at_def)
  obtain un where u: "timeo s u = Some un" "tm_time un = of_nat (fst y)" using Cons.prems(2) by (auto simp: entry_at_def L)
  have ds: "t \<notin> set (u # as)" using linked_distinct [OF Cons.prems(1)] by simp
  have cmp: "TIME_LESS_THAN (tm_time nn) (tm_time un) \<longleftrightarrow> fst e < fst y"
    using time_less [of B "fst e" "fst y"] Cons.prems(7,8) n u by (simp add: L)
  show ?case
  proof (cases "fst e < fst y")
    case True
    let ?s = "s\<lparr>timeo := (timeo s)(n \<mapsto> nn\<lparr>tm_next := u\<rparr>, t \<mapsto> tn\<lparr>tm_next := n\<rparr>)\<rparr>"
    have "insert_loop n t s = Some ?s" using t n u cmp True by (subst insert_loop.simps) simp
    moreover have eq: "\<forall>a \<in> set (u # as). timeo s a = timeo ?s a" using ds Cons.prems(4) by auto
    have "linked (tnexts ?s) u (u # as)" using t(4) tnexts_cong [OF eq] by blast
    then have "linked (tnexts ?s) t (t # n # u # as)" using t ds Cons.prems(4,5) by simp
    moreover have "entries_at ?s (t # n # u # as) (x # tins e L)"
      using Cons.prems(2,3) t n entries_cong [OF eq, of L] True Cons.prems(4) by (simp add: L) (auto simp: entry_at_def)
    ultimately show ?thesis by (intro exI [of _ ?s] exI [of _ "n # u # as"]) (auto simp: fun_upd_def)
  next
    case False
    have 1: "entries_at s (u # as) (y # M)" "n \<notin> set (u # as)" "\<forall>z\<in>set M. window B (fst z)" using Cons.prems(2,4,8) by (auto simp: L)
    obtain s' as' where r: "insert_loop n u s = Some s'" "s' = s\<lparr>timeo := timeo s'\<rparr>" "linked (tnexts s') u (u # as')"
      "entries_at s' (u # as') (y # tins e M)" "set as' = insert n (set as)"
      "\<forall>a. a \<notin> insert n (set (u # as)) \<longrightarrow> timeo s' a = timeo s a"
      using Cons.IH [OF t(4) 1(1) Cons.prems(3) 1(2) Cons.prems(5) _ Cons.prems(7) 1(3)] False by auto
    have i: "insert_loop n t s = Some s'" using r(1) t n u cmp False by (subst insert_loop.simps) simp
    have "t \<noteq> n" using Cons.prems(4) by auto
    then have tt: "timeo s' t = timeo s t" using r(6) ds by auto
    have l: "linked (tnexts s') t (t # u # as')" using r(3) t tt by simp
    have en: "entries_at s' (t # u # as') (x # tins e L)"
      using r(4) Cons.prems(2) False tt by (auto simp: L entry_at_def)
    show ?thesis
    proof (intro exI conjI)
      show "insert_loop n t s = Some s'" by (rule i)
      show "s' = s\<lparr>timeo := timeo s'\<rparr>" by (rule r(2))
      show "linked (tnexts s') t (t # u # as')" by (rule l)
      show "entries_at s' (t # u # as') (x # tins e L)" by (rule en)
      show "set (u # as') = insert n (set (u # as))" using r(5) by auto
      show "\<forall>a. a \<notin> insert n (set (t # u # as)) \<longrightarrow> timeo s' a = timeo s a" using r(6) by auto
    qed
  qed
qed

lemma entries_lenD: "entries_at s as L \<Longrightarrow> as = [] \<longleftrightarrow> L = []"
  by (auto dest: list_all2_lengthD)

text \<open>Insertion of an entry into the timers, when the pool gives an object.\<close>

lemma sys_timeout_abs_ok:
  assumes inv: "timers_inv d B s L" and w: "window B t" and ha: "handler_arg_ok (h, arg)"
  shows "\<exists>s'. sys_timeout_abs (of_nat t) h arg s = Some s' \<and>
    timers_inv d B s' (if length L < md_num d then tins (t, h, arg) L else L) \<and>
    clock_ms s' = clock_ms s \<and> tcp_pcbs s' = tcp_pcbs s \<and> tcpip_tcp_timer_active s' = tcpip_tcp_timer_active s \<and>
    current_timeout_due_time s' = current_timeout_due_time s"
proof -
  obtain as where as: "linked (tnexts s) (next_timeout s) as" "entries_at s as L" "pool_inv d (to_pool s) (set as)"
    and so: "sorted (map fst L)" and wL: "\<forall>e\<in>set L. window B (fst e) \<and> handler_arg_ok (snd e)" and wc: "window B (clock_ms s)"
    using inv by (auto simp: timers_inv_def)
  have len: "length L = card (set as)"
    using list_all2_lengthD [OF as(2)] distinct_card [OF linked_distinct [OF as(1)]] by simp
  have wf: "wf_desc d" using as(3) by (simp add: pool_inv_def)
  obtain n pool where m: "do_memp_malloc_pool (to_pool s) = (n, pool)" by (cases "do_memp_malloc_pool (to_pool s)")
  show ?thesis
  proof (cases "n = NULL")
    case True
    then have "set as = pool_elems d" "pool_inv d pool (set as)" using memp.alloc_fail [OF as(3)] m by auto
    then have "timers_inv d B (s\<lparr>to_pool := pool\<rparr>) L" "\<not> length L < md_num d"
      using as so wL wc len card_pool_elems [OF wf] unfolding timers_inv_def by (auto simp: entry_at_def [abs_def])
    then show ?thesis using True m by (simp add: sys_timeout_abs_def)
  next
    case False
    then have n: "n \<in> pool_elems d" "n \<notin> set as" "pool_inv d pool (insert n (set as))" using memp.alloc_ok [OF as(3) m] by auto
    have "card (insert n (set as)) \<le> md_num d" using pool_inv_card [OF n(3)] .
    then have room: "length L < md_num d" using n(2) len by simp
    let ?new = "\<lparr>tm_next = NULL, tm_time = of_nat t, tm_h = h, tm_arg = arg\<rparr>"
    let ?s = "s\<lparr>to_pool := pool, timeo := (timeo s)(n \<mapsto> ?new)\<rparr>"
    let ?L = "tins (t, h, arg) L"
    have eq: "\<forall>a\<in>set as. timeo s a = timeo ?s a" using n(2) by auto
    have l: "linked (tnexts ?s) (next_timeout ?s) as" using as(1) tnexts_cong [OF eq] by simp
    have e: "entries_at ?s as L" using as(2) entries_cong [OF eq] by simp
    have en: "entry_at ?s n (t, h, arg)" by (simp add: entry_at_def)
    have fin: "\<exists>s'. sys_timeout_abs (of_nat t) h arg s = Some s' \<and> (\<exists>as'. linked (tnexts s') (next_timeout s') as' \<and>
        entries_at s' as' ?L \<and> set as' = insert n (set as)) \<and> s' = ?s\<lparr>timeo := timeo s', next_timeout := next_timeout s'\<rparr>"
    proof (cases L)
      case Nil
      then have "next_timeout s = NULL" "as = []" using as entries_lenD [OF as(2)] by auto
      then show ?thesis using m False Nil en by (auto simp: sys_timeout_abs_def Let_def entry_at_def intro!: exI [of _ "[n]"])
    next
      case (Cons x M)
      then obtain u us where us: "as = u # us" "next_timeout s = u" "u \<noteq> NULL" using as entries_lenD [OF as(2)] by (cases as) auto
      obtain un where un: "timeo s u = Some un" "tm_time un = of_nat (fst x)" using as(2) us Cons by (auto simp: entry_at_def)
      have cmp: "TIME_LESS_THAN (of_nat t) (tm_time un) \<longleftrightarrow> t < fst x" using time_less [OF w, of "fst x"] wL Cons un by simp
      have nu: "u \<noteq> n" using n(2) us by auto
      show ?thesis
      proof (cases "t < fst x")
        case True
        let ?t = "?s\<lparr>timeo := (timeo ?s)(n \<mapsto> ?new\<lparr>tm_next := u\<rparr>), next_timeout := n\<rparr>"
        have eq': "\<forall>a\<in>set as. timeo s a = timeo ?t a" using n(2) by auto
        have "sys_timeout_abs (of_nat t) h arg s = Some ?t" using m False us un cmp True nu by (simp add: sys_timeout_abs_def Let_def)
        moreover have "linked (tnexts ?t) n (n # as)" using as(1) tnexts_cong [OF eq', of u] us False by simp
        moreover have "entries_at ?t (n # as) ?L" using as(2) entries_cong [OF eq', of L] True Cons by (simp add: entry_at_def)
        ultimately show ?thesis by (intro exI [of _ ?t]) (auto intro!: exI [of _ "n # as"])
      next
        case False
        have "sys_timeout_abs (of_nat t) h arg s = insert_loop n u ?s"
          using m \<open>n \<noteq> NULL\<close> us un cmp False nu by (simp add: sys_timeout_abs_def Let_def)
        moreover obtain s' as' where r: "insert_loop n u ?s = Some s'" "linked (tnexts s') u (u # as')"
          "entries_at s' (u # as') (x # tins (t, h, arg) M)" "set as' = insert n (set us)" and s': "s' = ?s\<lparr>timeo := timeo s'\<rparr>"
          using insert_loop_ok [of ?s u us x M n "(t, h, arg)" B] l e en n(2) \<open>n \<noteq> NULL\<close> False w wL unfolding us Cons by auto
        moreover have "next_timeout s' = u" using arg_cong [OF s', of next_timeout] us by simp
        moreover have "s' = ?s\<lparr>timeo := timeo s', next_timeout := next_timeout s'\<rparr>"
          using s' calculation(6) us(2) by (metis timeouts.surjective timeouts.update_convs(1,2))
        ultimately show ?thesis using False us(1) Cons
          by (intro exI [of _ s'] conjI exI [of _ "u # as'"]) (simp_all (no_asm_simp), auto)
      qed
    qed
    then obtain s' as' where r: "sys_timeout_abs (of_nat t) h arg s = Some s'" "linked (tnexts s') (next_timeout s') as'"
      "entries_at s' as' ?L" "set as' = insert n (set as)" and s': "s' = ?s\<lparr>timeo := timeo s', next_timeout := next_timeout s'\<rparr>" by auto
    have fr: "to_pool s' = pool" "clock_ms s' = clock_ms s" "tcp_pcbs s' = tcp_pcbs s"
      "tcpip_tcp_timer_active s' = tcpip_tcp_timer_active s" "current_timeout_due_time s' = current_timeout_due_time s"
      using arg_cong [OF s', of to_pool] arg_cong [OF s', of clock_ms] arg_cong [OF s', of tcp_pcbs]
        arg_cong [OF s', of tcpip_tcp_timer_active] arg_cong [OF s', of current_timeout_due_time] by simp_all
    have "timers_inv d B s' ?L"
      unfolding timers_inv_def using r n(3) tins_sorted [OF so] wL w ha wc fr by auto
    then show ?thesis using r(1) room fr by auto
  qed
qed

lemma sys_timeout_ok:
  assumes "timers_inv d B s L" and "window B (clock_ms s + unat msecs)" and "handler_arg_ok (h, arg)"
  shows "\<exists>s'. sys_timeout msecs h arg s = Some s' \<and>
    timers_inv d B s' (if length L < md_num d then tins (clock_ms s + unat msecs, h, arg) L else L) \<and>
    clock_ms s' = clock_ms s \<and> tcp_pcbs s' = tcp_pcbs s \<and> tcpip_tcp_timer_active s' = tcpip_tcp_timer_active s \<and>
    current_timeout_due_time s' = current_timeout_due_time s"
  using sys_timeout_abs_ok [OF assms] by (simp add: sys_timeout_def sys_now_def)

section \<open>Removal\<close>

text \<open>The first timer with a handler and argument is taken out.\<close>

fun trem :: "sys_timeout_handler \<Rightarrow> nat \<Rightarrow> entry list \<Rightarrow> entry list" where
  "trem h arg [] = []"
| "trem h arg (x # xs) = (if snd x = (h, arg) then xs else x # trem h arg xs)"

lemma trem_set: "set (trem h arg L) \<subseteq> set L"
  by (induction L) auto

lemma trem_sorted: "sorted (map fst L) \<Longrightarrow> sorted (map fst (trem h arg L))"
  using trem_set by (induction L) fastforce+

lemma untimeout_loop_ok:
  assumes "linked (tnexts s) p (p # as)" and "entries_at s (p # as) (x # L)"
    and "pool_inv d (to_pool s) A" and "set (p # as) \<subseteq> A" and "tnexts s p = Some t"
  shows "\<exists>s' as'. untimeout_loop h arg p t s = Some s' \<and> linked (tnexts s') p (p # as') \<and>
    entries_at s' (p # as') (x # trem h arg L) \<and> set as' \<subseteq> set as \<and>
    pool_inv d (to_pool s') (A - (set as - set as')) \<and> (\<forall>a. a \<notin> set (p # as) \<longrightarrow> timeo s' a = timeo s a) \<and>
    next_timeout s' = next_timeout s \<and> clock_ms s' = clock_ms s"
  using assms
proof (induction as arbitrary: p x L t)
  case Nil
  then have "L = []" "t = NULL" by auto
  then show ?case using Nil by (intro exI [of _ s] exI [of _ "[]"]) (simp add: untimeout_loop.simps)
next
  case (Cons u as)
  then obtain y M where L: "L = y # M" by (cases L) auto
  obtain pn where pn: "timeo s p = Some pn" "tm_next pn = u" "t = u" "linked (tnexts s) u (u # as)" "u \<noteq> NULL" "p \<noteq> NULL"
    using Cons.prems(1,5) by auto
  obtain un where u: "timeo s u = Some un" "tm_h un = fst (snd y)" "tm_arg un = snd (snd y)"
    using Cons.prems(2) by (auto simp: entry_at_def L)
  have ds: "p \<notin> set (u # as)" "u \<notin> set as" using linked_distinct [OF Cons.prems(1)] by auto
  show ?case
  proof (cases "snd y = (h, arg)")
    case True
    let ?s = "free_timeo u (s\<lparr>timeo := (timeo s)(p \<mapsto> pn\<lparr>tm_next := tm_next un\<rparr>)\<rparr>)"
    have 1: "untimeout_loop h arg p t s = Some ?s" using pn u True by (subst untimeout_loop.simps) auto
    have eq: "\<forall>a\<in>set as. timeo s a = timeo ?s a" using ds by (auto simp: free_timeo_def)
    have "linked (tnexts s) (tm_next un) as" using pn(4) u by auto
    then have 2: "linked (tnexts ?s) p (p # as)" using tnexts_cong [OF eq, of "tm_next un"] ds pn by (auto simp: free_timeo_def)
    have "entries_at ?s as M" using Cons.prems(2) entries_cong [OF eq, of M] by (simp add: L)
    moreover have "entry_at ?s p x" using Cons.prems(2) ds pn by (auto simp: entry_at_def free_timeo_def)
    ultimately have 3: "entries_at ?s (p # as) (x # trem h arg L)" using True by (simp add: L)
    have "set (u # as) - set as = {u}" using ds by auto
    then have 4: "pool_inv d (to_pool ?s) (A - (set (u # as) - set as))"
      using memp.release_ok [OF Cons.prems(3), of u] Cons.prems(4) by (simp add: free_timeo_def)
    show ?thesis
      by (intro exI [of _ ?s] exI [of _ as] conjI) (use 1 2 3 4 in \<open>auto simp: free_timeo_def\<close>)
  next
    case False
    have n: "tnexts s u = Some (tm_next un)" using u by simp
    have e: "entries_at s (u # as) (y # M)" "set (u # as) \<subseteq> A" using Cons.prems(2,4) by (auto simp: L)
    from Cons.IH [OF pn(4) e(1) Cons.prems(3) e(2) n] obtain s' as' where r: "untimeout_loop h arg u (tm_next un) s = Some s'"
      "linked (tnexts s') u (u # as')" "entries_at s' (u # as') (y # trem h arg M)" "set as' \<subseteq> set as"
      "pool_inv d (to_pool s') (A - (set as - set as'))" "\<forall>a. a \<notin> set (u # as) \<longrightarrow> timeo s' a = timeo s a"
      "next_timeout s' = next_timeout s" "clock_ms s' = clock_ms s" by blast
    have pp: "timeo s' p = timeo s p" using r(6) ds by auto
    have 1: "untimeout_loop h arg p t s = Some s'" using pn u False r(1) by (subst untimeout_loop.simps) auto
    have 2: "linked (tnexts s') p (p # u # as')" using r(2) pn pp by simp
    have 3: "entries_at s' (p # u # as') (x # trem h arg L)" using r(3) Cons.prems(2) False pp by (auto simp: L entry_at_def)
    have "set (u # as) - set (u # as') = set as - set as'" using ds by auto
    then have 4: "pool_inv d (to_pool s') (A - (set (u # as) - set (u # as')))" using r(5) by simp
    have 5: "set (u # as') \<subseteq> set (u # as)" "\<forall>a. a \<notin> set (p # u # as) \<longrightarrow> timeo s' a = timeo s a" using r(4,6) by auto
    show ?thesis using 1 2 3 4 5 r(7,8) by blast
  qed
qed

text \<open>Taking the first timer out of the list.\<close>

lemma timers_head:
  assumes "timers_inv d B s (e # L)"
  shows "\<exists>tn. next_timeout s \<noteq> NULL \<and> timeo s (next_timeout s) = Some tn \<and> tm_time tn = of_nat (fst e) \<and> tm_h tn = fst (snd e)
    \<and> tm_arg tn = snd (snd e) \<and> window B (fst e) \<and> handler_arg_ok (snd e)
    \<and> timers_inv d B (free_timeo (next_timeout s) (s\<lparr>next_timeout := tm_next tn, current_timeout_due_time := w\<rparr>)) L
    \<and> timers_inv d B (free_timeo (next_timeout s) (s\<lparr>next_timeout := tm_next tn\<rparr>)) L"
proof -
  obtain as where as: "linked (tnexts s) (next_timeout s) as" "entries_at s as (e # L)" "pool_inv d (to_pool s) (set as)"
    and so: "sorted (map fst (e # L))" and wL: "\<forall>e\<in>set (e # L). window B (fst e) \<and> handler_arg_ok (snd e)" and wc: "window B (clock_ms s)"
    using assms unfolding timers_inv_def by blast
  obtain u us where us: "as = u # us" using as(2) by (cases as) auto
  obtain tn where tn: "timeo s u = Some tn" "tm_time tn = of_nat (fst e)" "tm_h tn = fst (snd e)" "tm_arg tn = snd (snd e)"
    using as(2) us by (auto simp: entry_at_def)
  have u: "next_timeout s = u" "u \<noteq> NULL" "linked (tnexts s) (tm_next tn) us" "u \<notin> set us"
    using as(1) tn linked_distinct [OF as(1)] by (auto simp: us)
  have p: "pool_inv d (do_memp_free_pool u (to_pool s)) (set us)" using memp.release_ok [OF as(3), of u] us u(4) by simp
  have *: "timers_inv d B s' L" if "timeo s' = (timeo s)(u := None)" "to_pool s' = do_memp_free_pool u (to_pool s)"
    "next_timeout s' = tm_next tn" "clock_ms s' = clock_ms s" for s'
  proof -
    have eq: "\<forall>a\<in>set us. timeo s a = timeo s' a" using u(4) that by auto
    have "linked (tnexts s') (next_timeout s') us" using u(3) tnexts_cong [OF eq, of "tm_next tn"] that(3) by simp
    moreover have "entries_at s' us L" using as(2) entries_cong [OF eq, of L] by (simp add: us)
    ultimately show ?thesis using p so wL wc that unfolding timers_inv_def by auto
  qed
  show ?thesis using tn u wL by (auto simp: free_timeo_def intro!: *)
qed

lemma timers_empty: "timers_inv d B s [] \<Longrightarrow> next_timeout s = NULL"
  by (auto simp: timers_inv_def)

lemma sys_untimeout_ok:
  assumes "timers_inv d B s L"
  shows "\<exists>s'. sys_untimeout h arg s = Some s' \<and> timers_inv d B s' (trem h arg L) \<and> clock_ms s' = clock_ms s"
proof (cases L)
  case Nil
  then show ?thesis using assms timers_empty by (auto simp: sys_untimeout_def)
next
  case (Cons e M)
  from timers_head [OF assms [unfolded Cons]] obtain tn where tn: "next_timeout s \<noteq> NULL" "timeo s (next_timeout s) = Some tn"
    "tm_h tn = fst (snd e)" "tm_arg tn = snd (snd e)" "timers_inv d B (free_timeo (next_timeout s) (s\<lparr>next_timeout := tm_next tn\<rparr>)) M" by blast
  show ?thesis
  proof (cases "snd e = (h, arg)")
    case True
    then have "sys_untimeout h arg s = Some (free_timeo (next_timeout s) (s\<lparr>next_timeout := tm_next tn\<rparr>))"
      using tn by (simp add: sys_untimeout_def untimeout_loop.simps [of h arg])
    then show ?thesis using tn(5) True Cons by (simp add: free_timeo_def)
  next
    case False
    then have 1: "sys_untimeout h arg s = untimeout_loop h arg (next_timeout s) (tm_next tn) s"
      using tn by (auto simp: sys_untimeout_def untimeout_loop.simps [of h arg NULL])
    obtain as where as: "linked (tnexts s) (next_timeout s) as" "entries_at s as L" "pool_inv d (to_pool s) (set as)"
      and so: "sorted (map fst L)" and wL: "\<forall>e\<in>set L. window B (fst e) \<and> handler_arg_ok (snd e)" and wc: "window B (clock_ms s)"
      using assms by (auto simp: timers_inv_def)
    then obtain us where us: "as = next_timeout s # us" using Cons by (cases as) auto
    obtain s' as' where r: "untimeout_loop h arg (next_timeout s) (tm_next tn) s = Some s'" "linked (tnexts s') (next_timeout s) (next_timeout s # as')"
      "entries_at s' (next_timeout s # as') (e # trem h arg M)" "set as' \<subseteq> set us" "pool_inv d (to_pool s') (set as - (set us - set as'))"
      "next_timeout s' = next_timeout s" "clock_ms s' = clock_ms s"
      using untimeout_loop_ok [OF as(1) [unfolded us] as(2) [unfolded us Cons] as(3), of "tm_next tn" h arg] tn us by auto
    have "next_timeout s \<notin> set us" using linked_distinct [OF as(1)] us by simp
    then have "set as - (set us - set as') = set (next_timeout s # as')" using r(4) us by auto
    then have "timers_inv d B s' (e # trem h arg M)"
      unfolding timers_inv_def using r so wL wc trem_sorted [of M h arg] trem_set [of h arg M] Cons by fastforce
    then show ?thesis using 1 r False Cons by auto
  qed
qed
section \<open>Running the timers\<close>

text \<open>
  How much of the list is due at the time \<open>now\<close>: every entry that is due counts with how late it is.
  A handler that starts its timer again for a later time leaves less to do than there was.
\<close>

definition debt :: "nat \<Rightarrow> entry list \<Rightarrow> nat" where
  "debt now L = (\<Sum>e\<leftarrow>L. now + 1 - fst e)"

lemma debt_Nil [simp]: "debt now [] = 0"
  and debt_Cons [simp]: "debt now (e # L) = (now + 1 - fst e) + debt now L"
  by (simp_all add: debt_def)

lemma debt_tins [simp]: "debt now (tins e L) = (now + 1 - fst e) + debt now L"
  by (induction L) auto

lemma debt_zero: "debt now L = 0 \<longleftrightarrow> (\<forall>e\<in>set L. now < fst e)"
  by (induction L) auto





lemma timers_inv_frame:
  "timers_inv d B s L \<Longrightarrow> window B c \<Longrightarrow> timers_inv d B (s\<lparr>clock_ms := c\<rparr>) L"
  "timers_inv d B s L \<Longrightarrow> timers_inv d B (s\<lparr>tcpip_tcp_timer_active := b\<rparr>) L"
  "timers_inv d B s L \<Longrightarrow> timers_inv d B (s\<lparr>tcp_pcbs := b\<rparr>) L"
  "timers_inv d B s L \<Longrightarrow> timers_inv d B (s\<lparr>current_timeout_due_time := w\<rparr>) L"
  by (auto simp: timers_inv_def entry_at_def [abs_def])





section \<open>Restart and sleep time\<close>

lemma restart_loop_ok:
  assumes "linked (tnexts s) t as" and "entries_at s as L" and "\<forall>e\<in>set L. base \<le> fst e"
  shows "\<exists>s'. restart_loop (of_nat now) (of_nat base) t s = Some s' \<and> linked (tnexts s') t as \<and>
    entries_at s' as (map (\<lambda>e. (fst e - base + now, snd e)) L) \<and> (\<forall>a. a \<notin> set as \<longrightarrow> timeo s' a = timeo s a) \<and>
    next_timeout s' = next_timeout s \<and> to_pool s' = to_pool s \<and> clock_ms s' = clock_ms s"
  using assms
proof (induction as arbitrary: t s L)
  case Nil
  then show ?case by (auto simp: restart_loop.simps)
next
  case (Cons u as)
  then obtain y M where L: "L = y # M" by (cases L) auto
  obtain un where u: "t = u" "u \<noteq> NULL" "timeo s u = Some un" "linked (tnexts s) (tm_next un) as" "entry_at s u y" "entries_at s as M"
    using Cons.prems(1,2) by (auto simp: L)
  have nu: "u \<notin> set as" using linked_distinct [OF Cons.prems(1)] by simp
  let ?s = "s\<lparr>timeo := (timeo s)(u \<mapsto> un\<lparr>tm_time := (tm_time un - of_nat base) + of_nat now\<rparr>)\<rparr>"
  have eq: "\<forall>a\<in>set as. timeo s a = timeo ?s a" using nu by auto
  obtain s' where r: "restart_loop (of_nat now) (of_nat base) (tm_next un) ?s = Some s'" "linked (tnexts s') (tm_next un) as"
    "entries_at s' as (map (\<lambda>e. (fst e - base + now, snd e)) M)" "\<forall>a. a \<notin> set as \<longrightarrow> timeo s' a = timeo ?s a"
    "next_timeout s' = next_timeout ?s" "to_pool s' = to_pool ?s" "clock_ms s' = clock_ms ?s"
    using Cons.IH [of ?s "tm_next un" M] u(4,6) tnexts_cong [OF eq, of "tm_next un"] entries_cong [OF eq, of M] Cons.prems(3) L by auto
  have uu: "timeo s' u = Some (un\<lparr>tm_time := (tm_time un - of_nat base) + of_nat now\<rparr>)" using r(4) nu by simp
  have "restart_loop (of_nat now) (of_nat base) t s = Some s'" using u r(1) by (subst restart_loop.simps) simp
  moreover have "linked (tnexts s') t (u # as)" using u r(2) uu by simp
  moreover have "entry_at s' u (fst y - base + now, snd y)"
    using u(3,5) uu Cons.prems(3) by (auto simp: entry_at_def L of_nat_diff)
  ultimately show ?case using r L by auto
qed

lemma sys_restart_ok:
  assumes inv: "timers_inv d B s L"
  shows "\<exists>s'. sys_restart_timeouts s = Some s' \<and>
    timers_inv d (clock_ms s) s' (map (\<lambda>e. (fst e - fst (hd L) + clock_ms s, snd e)) L) \<and> clock_ms s' = clock_ms s"
proof (cases L)
  case Nil
  then have "timers_inv d (clock_ms s) s []" using inv unfolding timers_inv_def window_def by simp
  then show ?thesis using Nil inv timers_empty [of d B s] by (simp add: sys_restart_timeouts_def)
next
  case (Cons e M)
  obtain as where as: "linked (tnexts s) (next_timeout s) as" "entries_at s as L" "pool_inv d (to_pool s) (set as)"
    and so: "sorted (map fst L)" and wL: "\<forall>e\<in>set L. window B (fst e) \<and> handler_arg_ok (snd e)"
    using inv by (auto simp: timers_inv_def)
  have base: "\<forall>x\<in>set L. fst e \<le> fst x" using so Cons by auto
  from timers_head [OF inv [unfolded Cons]] obtain tn where tn: "next_timeout s \<noteq> NULL" "timeo s (next_timeout s) = Some tn"
    "tm_time tn = of_nat (fst e)" by blast
  from restart_loop_ok [OF as(1,2) base, of "clock_ms s"] obtain s' where r:
    "restart_loop (of_nat (clock_ms s)) (of_nat (fst e)) (next_timeout s) s = Some s'" "linked (tnexts s') (next_timeout s) as"
    "entries_at s' as (map (\<lambda>x. (fst x - fst e + clock_ms s, snd x)) L)" "next_timeout s' = next_timeout s" "to_pool s' = to_pool s"
    "clock_ms s' = clock_ms s" by blast
  have "sorted (map fst (map (\<lambda>x. (fst x - fst e + clock_ms s, snd x)) L))"
    unfolding sorted_map list.map_comp
    by (rule sorted_wrt_mono_rel [OF _ so [unfolded sorted_map]]) (simp add: diff_le_mono)
  moreover have "\<forall>x\<in>set L. fst x - fst e < 2 ^ 31" using wL base Cons by (fastforce simp: window_def)
  ultimately have "timers_inv d (clock_ms s) s' (map (\<lambda>x. (fst x - fst e + clock_ms s, snd x)) L)"
    unfolding timers_inv_def using r as(3) wL by (auto simp: window_def)
  then show ?thesis using r tn Cons by (auto simp: sys_restart_timeouts_def sys_now_def)
qed

lemma sys_sleeptime_ok:
  assumes inv: "timers_inv d B s L"
  shows "sys_timeouts_sleeptime s = Some (case L of [] \<Rightarrow> SYS_TIMEOUTS_SLEEPTIME_INFINITE | e # _ \<Rightarrow> of_nat (fst e - clock_ms s))"
    and "L = e # M \<Longrightarrow> fst e - clock_ms s \<le> unat LWIP_MAX_TIMEOUT"
proof -
  show "L = e # M \<Longrightarrow> fst e - clock_ms s \<le> unat LWIP_MAX_TIMEOUT"
    using inv by (auto simp: timers_inv_def window_def LWIP_MAX_TIMEOUT_def)
  show "sys_timeouts_sleeptime s = Some (case L of [] \<Rightarrow> SYS_TIMEOUTS_SLEEPTIME_INFINITE | e # _ \<Rightarrow> of_nat (fst e - clock_ms s))"
  proof (cases L)
    case Nil
    then show ?thesis using inv timers_empty [of d B s] by (auto simp: sys_timeouts_sleeptime_def)
  next
    case (Cons e M)
    from timers_head [OF inv [unfolded Cons]] obtain tn where tn: "next_timeout s \<noteq> NULL" "timeo s (next_timeout s) = Some tn"
      "tm_time tn = of_nat (fst e)" "window B (fst e)" by blast
    have w: "window B (clock_ms s)" using inv by (simp add: timers_inv_def)
    have "TIME_LESS_THAN (of_nat (fst e)) (of_nat (clock_ms s)) \<longleftrightarrow> fst e < clock_ms s" by (rule time_less [OF tn(4) w])
    then show ?thesis using tn w Cons
      by (auto simp: sys_timeouts_sleeptime_def sys_now_def of_nat_diff)
  qed
qed

section \<open>Start\<close>


text \<open>The state before the start: an initialised pool and no timers.\<close>

definition timeouts_start :: "memp_desc \<Rightarrow> nat \<Rightarrow> timeouts" where
  "timeouts_start d t = \<lparr>next_timeout = NULL, timeo = (\<lambda>_. None), current_timeout_due_time = 0,
     tcpip_tcp_timer_active = False, to_pool = memp_init_pool d memp_pool_zero, clock_ms = t, tcp_pcbs = False\<rparr>"

lemma timeouts_start_inv: "wf_desc d \<Longrightarrow> window B t \<Longrightarrow> timers_inv d B (timeouts_start d t) []"
  using memp_init_pool_inv [of d memp_pool_zero]
  by (simp add: timers_inv_def timeouts_start_def memp_pool_zero_def)

section \<open>Properties\<close>

text \<open>
  C38 Starting and stopping timers. With all times in a window of \<open>2 ^ 31\<close> ms the list in memory, kept in
  32-bit time that wraps, refines the list with unbounded time: \<open>sys_timeout\<close> inserts behind all timers that
  are not later (timers due at the same time keep their order) unless the pool is exhausted, when it
  changes nothing, and \<open>sys_untimeout\<close> takes out the first timer with the handler and argument and
  gives its object back. Neither dereferences a pointer to an object that is not there.
\<close>

theorem sys_timeout_refines:
  assumes "timers_inv d B s L" and "window B (clock_ms s + unat msecs)" and "handler_arg_ok (h, arg)"
  shows "(\<exists>s'. sys_timeout msecs h arg s = Some s' \<and>
      timers_inv d B s' (if length L < md_num d then tins (clock_ms s + unat msecs, h, arg) L else L))
    \<and> (\<exists>s'. sys_untimeout h arg s = Some s' \<and> timers_inv d B s' (trem h arg L))"
  using sys_timeout_ok [OF assms] sys_untimeout_ok [OF assms(1), of h arg] by blast

definition demo_timers :: memp_desc where
  "demo_timers = \<lparr>md_size = 16, md_num = 10, md_base = 100\<rparr>"

lemma demo_timers_inv: "timers_inv demo_timers 4294967000 (timeouts_start demo_timers 4294967200) []"
  by (rule timeouts_start_inv) (simp_all add: demo_timers_def wf_desc_def window_def)

theorem sys_timeout_refines_witness:
  "\<exists>s'. sys_timeout 250 (user_handler 1) 7 (timeouts_start demo_timers 4294967200) = Some s' \<and>
     timers_inv demo_timers 4294967000 s' [(4294967450, user_handler 1, 7)]"
  using sys_timeout_refines [OF demo_timers_inv, of 250 "user_handler 1" 7]
  by (simp add: timeouts_start_def window_def handler_arg_ok_def demo_timers_def)





text \<open>
  Time to sleep and restart. \<open>sys_timeouts_sleeptime\<close> returns exactly the time until the first timer is
  due, \<open>0\<close> when it is late, at most \<open>LWIP_MAX_TIMEOUT\<close>, and the special value when there is none.
  After \<open>sys_restart_timeouts\<close> the first timer is due now and the others as much later as before.
\<close>

lemma sys_sleeptime_restart_correct:
  assumes "timers_inv d B s L"
  shows "sys_timeouts_sleeptime s = Some (case L of [] \<Rightarrow> SYS_TIMEOUTS_SLEEPTIME_INFINITE | e # _ \<Rightarrow> of_nat (fst e - clock_ms s))
    \<and> (L \<noteq> [] \<longrightarrow> fst (hd L) - clock_ms s \<le> unat LWIP_MAX_TIMEOUT)
    \<and> (\<exists>s'. sys_restart_timeouts s = Some s' \<and>
        timers_inv d (clock_ms s) s' (map (\<lambda>e. (fst e - fst (hd L) + clock_ms s, snd e)) L))"
  using sys_sleeptime_ok [OF assms] sys_restart_ok [OF assms] by (cases L) auto

text \<open>
  The TCP timer. When the first connection appears \<open>tcp_timer_needed\<close> marks the TCP timer as running and
  starts it. If the pool is exhausted, the timer is not started but marked as running all the same, and from then
  on \<open>tcp_timer_needed\<close> does nothing: the TCP timer is lost.
\<close>

lemma tcp_timer_needed_correct:
  assumes "timers_inv d B s L" and "window B (clock_ms s + 250)" and "\<not> tcpip_tcp_timer_active s" and "tcp_pcbs s"
  shows "\<exists>s'. tcp_timer_needed s = Some s' \<and> tcpip_tcp_timer_active s' \<and>
    timers_inv d B s' (if length L < md_num d then tins (clock_ms s + 250, tcpip_tcp_timer_h, 0) L else L) \<and>
    tcp_timer_needed s' = Some s'"
proof -
  let ?s = "s\<lparr>tcpip_tcp_timer_active := True\<rparr>"
  have i: "unat TCP_TMR_INTERVAL = 250" by (simp add: TCP_TMR_INTERVAL_def)
  have w: "window B (clock_ms ?s + unat TCP_TMR_INTERVAL)" using assms(2) by (simp add: i)
  have h: "handler_arg_ok (tcpip_tcp_timer_h, 0)" by (simp add: handler_arg_ok_def)
  from sys_timeout_ok [OF timers_inv_frame(2) [OF assms(1)] w h] show ?thesis
    using assms(3,4) unfolding i by (auto simp: tcp_timer_needed_def)
qed

definition tiny_timers :: memp_desc where
  "tiny_timers = \<lparr>md_size = 16, md_num = 1, md_base = 100\<rparr>"

end
