(* ===== verification/Lan8742.thy ===== *)
theory Lan8742
  imports Prelude
begin

text \<open>
  The driver of the Ethernet PHY, \<open>rtemslwip/stm32h7/stm32h7_lan8742.c\<close>. The driver reaches the
  PHY only through the function pointers of \<open>lan8742_IOCtx_t\<close>, which the board code provides;
  they are parameters here, functions on a state \<open>'w\<close> of the world (the PHY, the bus, the
  clock). A missing function pointer is \<open>None\<close>, and calling it gives \<open>None\<close>, like a polling
  loop that never ends.
\<close>

unbundle bit_operations_syntax

section \<open>Data\<close>

text \<open>\<open>ReadReg\<close> takes the old contents of the output variable and returns the new ones.\<close>

record 'w lan8742_IOCtx =
  io_Init :: "('w \<Rightarrow> int \<times> 'w) option"
  io_DeInit :: "('w \<Rightarrow> int \<times> 'w) option"
  io_WriteReg :: "(u32 \<Rightarrow> u32 \<Rightarrow> u32 \<Rightarrow> 'w \<Rightarrow> int \<times> 'w) option"
  io_ReadReg :: "(u32 \<Rightarrow> u32 \<Rightarrow> u32 \<Rightarrow> 'w \<Rightarrow> int \<times> u32 \<times> 'w) option"
  io_GetTick :: "('w \<Rightarrow> u32 \<times> 'w) option"

record 'w lan8742_Object =
  DevAddr :: u32
  Is_Initialized :: u32
  IO :: "'w lan8742_IOCtx"

text \<open>Registers, their bits, and the status codes (stm32h7_lan8742.h).\<close>

definition LAN8742_BCR :: u32 where [const_defs]: "LAN8742_BCR = 0x00"
definition LAN8742_BSR :: u32 where [const_defs]: "LAN8742_BSR = 0x01"
definition LAN8742_SMR :: u32 where [const_defs]: "LAN8742_SMR = 0x12"
definition LAN8742_ISFR :: u32 where [const_defs]: "LAN8742_ISFR = 0x1D"
definition LAN8742_IMR :: u32 where [const_defs]: "LAN8742_IMR = 0x1E"
definition LAN8742_PHYSCSR :: u32 where [const_defs]: "LAN8742_PHYSCSR = 0x1F"

definition LAN8742_BCR_SOFT_RESET :: u32 where [const_defs]: "LAN8742_BCR_SOFT_RESET = 0x8000"
definition LAN8742_BCR_LOOPBACK :: u32 where [const_defs]: "LAN8742_BCR_LOOPBACK = 0x4000"
definition LAN8742_BCR_SPEED_SELECT :: u32 where [const_defs]: "LAN8742_BCR_SPEED_SELECT = 0x2000"
definition LAN8742_BCR_AUTONEGO_EN :: u32 where [const_defs]: "LAN8742_BCR_AUTONEGO_EN = 0x1000"
definition LAN8742_BCR_POWER_DOWN :: u32 where [const_defs]: "LAN8742_BCR_POWER_DOWN = 0x0800"
definition LAN8742_BCR_DUPLEX_MODE :: u32 where [const_defs]: "LAN8742_BCR_DUPLEX_MODE = 0x0100"
definition LAN8742_BSR_LINK_STATUS :: u32 where [const_defs]: "LAN8742_BSR_LINK_STATUS = 0x0004"
definition LAN8742_SMR_PHY_ADDR :: u32 where [const_defs]: "LAN8742_SMR_PHY_ADDR = 0x001F"
definition LAN8742_PHYSCSR_AUTONEGO_DONE :: u32 where [const_defs]: "LAN8742_PHYSCSR_AUTONEGO_DONE = 0x1000"
definition LAN8742_PHYSCSR_HCDSPEEDMASK :: u32 where [const_defs]: "LAN8742_PHYSCSR_HCDSPEEDMASK = 0x001C"
definition LAN8742_PHYSCSR_10BT_FD :: u32 where [const_defs]: "LAN8742_PHYSCSR_10BT_FD = 0x0014"
definition LAN8742_PHYSCSR_100BTX_HD :: u32 where [const_defs]: "LAN8742_PHYSCSR_100BTX_HD = 0x0008"
definition LAN8742_PHYSCSR_100BTX_FD :: u32 where [const_defs]: "LAN8742_PHYSCSR_100BTX_FD = 0x0018"

definition LAN8742_SW_RESET_TO :: u32 where [const_defs]: "LAN8742_SW_RESET_TO = 500"
definition LAN8742_INIT_TO :: u32 where [const_defs]: "LAN8742_INIT_TO = 2000"
definition LAN8742_MAX_DEV_ADDR :: u32 where [const_defs]: "LAN8742_MAX_DEV_ADDR = 31"

definition STATUS_READ_ERROR :: int where [const_defs]: "STATUS_READ_ERROR = -5"
definition STATUS_WRITE_ERROR :: int where [const_defs]: "STATUS_WRITE_ERROR = -4"
definition STATUS_ADDRESS_ERROR :: int where [const_defs]: "STATUS_ADDRESS_ERROR = -3"
definition STATUS_RESET_TIMEOUT :: int where [const_defs]: "STATUS_RESET_TIMEOUT = -2"
definition STATUS_ERROR :: int where [const_defs]: "STATUS_ERROR = -1"
definition STATUS_OK :: int where [const_defs]: "STATUS_OK = 0"
definition STATUS_LINK_DOWN :: int where [const_defs]: "STATUS_LINK_DOWN = 1"
definition STATUS_100MBITS_FULLDUPLEX :: int where [const_defs]: "STATUS_100MBITS_FULLDUPLEX = 2"
definition STATUS_100MBITS_HALFDUPLEX :: int where [const_defs]: "STATUS_100MBITS_HALFDUPLEX = 3"
definition STATUS_10MBITS_FULLDUPLEX :: int where [const_defs]: "STATUS_10MBITS_FULLDUPLEX = 4"
definition STATUS_10MBITS_HALFDUPLEX :: int where [const_defs]: "STATUS_10MBITS_HALFDUPLEX = 5"
definition STATUS_AUTONEGO_NOTDONE :: int where [const_defs]: "STATUS_AUTONEGO_NOTDONE = 6"

section \<open>Operations\<close>

text \<open>Calls through the function pointers of an object.\<close>

definition read_reg :: "'w lan8742_Object \<Rightarrow> u32 \<Rightarrow> u32 \<Rightarrow> 'w \<Rightarrow> (int \<times> u32 \<times> 'w) option" where
  "read_reg pObj reg old w = do { f \<leftarrow> io_ReadReg (IO pObj); Some (f (DevAddr pObj) reg old w) }"

definition write_reg :: "'w lan8742_Object \<Rightarrow> u32 \<Rightarrow> u32 \<Rightarrow> 'w \<Rightarrow> (int \<times> 'w) option" where
  "write_reg pObj reg val w = do { f \<leftarrow> io_WriteReg (IO pObj); Some (f (DevAddr pObj) reg val w) }"

definition get_tick :: "'w lan8742_Object \<Rightarrow> 'w \<Rightarrow> (u32 \<times> 'w) option" where
  "get_tick pObj w = do { f \<leftarrow> io_GetTick (IO pObj); Some (f w) }"

text \<open>\<open>pObj\<close> is \<open>None\<close> for a null pointer; \<open>ioctx\<close> is dereferenced unconditionally.\<close>

definition LAN8742_RegisterBusIO ::
  "'w lan8742_Object option \<Rightarrow> 'w lan8742_IOCtx \<Rightarrow> int \<times> 'w lan8742_Object option" where
  "LAN8742_RegisterBusIO pObj ioctx =
     (if pObj = None \<or> io_ReadReg ioctx = None \<or> io_WriteReg ioctx = None \<or> io_GetTick ioctx = None
      then (STATUS_ERROR, pObj)
      else (STATUS_OK, map_option (\<lambda>obj. obj\<lparr>IO := ioctx\<rparr>) pObj))"

text \<open>The scan for the PHY address: the value read last, the status, the address found.\<close>

fun scan_addr ::
  "(u32 \<Rightarrow> u32 \<Rightarrow> u32 \<Rightarrow> 'w \<Rightarrow> int \<times> u32 \<times> 'w) \<Rightarrow> nat list \<Rightarrow> u32 \<Rightarrow> int \<Rightarrow> u32 \<Rightarrow> 'w \<Rightarrow>
     u32 \<times> int \<times> u32 \<times> 'w" where
  "scan_addr rd [] regvalue status dev w = (regvalue, status, dev, w)"
| "scan_addr rd (a # as) regvalue status dev w =
     (let (rc, regvalue, w) = rd (of_nat a) LAN8742_SMR regvalue w in
      if rc < 0 then scan_addr rd as regvalue STATUS_READ_ERROR dev w
      else if regvalue AND LAN8742_SMR_PHY_ADDR = of_nat a then (regvalue, STATUS_OK, of_nat a, w)
      else scan_addr rd as regvalue status dev w)"

partial_function (option) reset_wait ::
  "'w lan8742_Object \<Rightarrow> u32 \<Rightarrow> u32 \<Rightarrow> 'w \<Rightarrow> (int \<times> 'w) option" where
  "reset_wait pObj tickstart regvalue w =
     (if regvalue AND LAN8742_BCR_SOFT_RESET \<noteq> 0 then do {
        (t, w) \<leftarrow> get_tick pObj w;
        if t - tickstart \<le> LAN8742_SW_RESET_TO then do {
          (rc, regvalue, w) \<leftarrow> read_reg pObj LAN8742_BCR regvalue w;
          if rc < 0 then Some (STATUS_READ_ERROR, w) else reset_wait pObj tickstart regvalue w
        } else Some (STATUS_RESET_TIMEOUT, w)
      } else Some (STATUS_OK, w))"

partial_function (option) init_wait :: "'w lan8742_Object \<Rightarrow> u32 \<Rightarrow> 'w \<Rightarrow> 'w option" where
  "init_wait pObj tickstart w =
     do {
       (t, w) \<leftarrow> get_tick pObj w;
       if t - tickstart \<le> LAN8742_INIT_TO then init_wait pObj tickstart w else Some w
     }"

text \<open>The part of \<open>LAN8742_Init\<close> that runs once the address is known.\<close>

definition soft_reset :: "'w lan8742_Object \<Rightarrow> u32 \<Rightarrow> 'w \<Rightarrow> (int \<times> 'w) option" where
  "soft_reset pObj regvalue w =
     do {
       (rc, w) \<leftarrow> write_reg pObj LAN8742_BCR LAN8742_BCR_SOFT_RESET w;
       if rc \<ge> 0 then do {
         (rc, regvalue, w) \<leftarrow> read_reg pObj LAN8742_BCR regvalue w;
         if rc \<ge> 0 then do {
           (tickstart, w) \<leftarrow> get_tick pObj w;
           reset_wait pObj tickstart regvalue w
         } else Some (STATUS_READ_ERROR, w)
       } else Some (STATUS_WRITE_ERROR, w)
     }"

definition LAN8742_Init :: "'w lan8742_Object \<Rightarrow> 'w \<Rightarrow> (int \<times> 'w lan8742_Object \<times> 'w) option" where
  "LAN8742_Init pObj w =
     do {
       (status, pObj, w) \<leftarrow>
         (if Is_Initialized pObj = 0 then do {
            let w = (case io_Init (IO pObj) of None \<Rightarrow> w | Some f \<Rightarrow> snd (f w));
            rd \<leftarrow> io_ReadReg (IO pObj);
            let (regvalue, status, dev, w) = scan_addr rd [0..<32] 0 STATUS_OK (LAN8742_MAX_DEV_ADDR + 1) w;
            let pObj = pObj\<lparr>DevAddr := dev\<rparr>;
            let status = (if dev > LAN8742_MAX_DEV_ADDR then STATUS_ADDRESS_ERROR else status);
            if status = STATUS_OK then do {
              (status, w) \<leftarrow> soft_reset pObj regvalue w;
              Some (status, pObj, w)
            } else Some (status, pObj, w)
          } else Some (STATUS_OK, pObj, w));
       if status = STATUS_OK then do {
         (tickstart, w) \<leftarrow> get_tick pObj w;
         w \<leftarrow> init_wait pObj tickstart w;
         Some (status, pObj\<lparr>Is_Initialized := 1\<rparr>, w)
       } else Some (status, pObj, w)
     }"

definition LAN8742_DeInit :: "'w lan8742_Object \<Rightarrow> 'w \<Rightarrow> int \<times> 'w lan8742_Object \<times> 'w" where
  "LAN8742_DeInit pObj w =
     (if Is_Initialized pObj \<noteq> 0 then
        (case io_DeInit (IO pObj) of
           None \<Rightarrow> (STATUS_OK, pObj\<lparr>Is_Initialized := 0\<rparr>, w)
         | Some f \<Rightarrow>
             (let (rc, w) = f w in
              if rc < 0 then (STATUS_ERROR, pObj, w)
              else (STATUS_OK, pObj\<lparr>Is_Initialized := 0\<rparr>, w)))
      else (STATUS_OK, pObj, w))"

text \<open>The read-modify-write that most operations make.\<close>

definition rmw_reg :: "u32 \<Rightarrow> (u32 \<Rightarrow> u32) \<Rightarrow> 'w lan8742_Object \<Rightarrow> 'w \<Rightarrow> (int \<times> 'w) option" where
  "rmw_reg reg f pObj w =
     do {
       (rc, readval, w) \<leftarrow> read_reg pObj reg 0 w;
       if rc \<ge> 0 then do {
         (rc, w) \<leftarrow> write_reg pObj reg (f readval) w;
         Some (if rc < 0 then STATUS_WRITE_ERROR else STATUS_OK, w)
       } else Some (STATUS_READ_ERROR, w)
     }"

definition LAN8742_DisablePowerDownMode :: "'w lan8742_Object \<Rightarrow> 'w \<Rightarrow> (int \<times> 'w) option" where
  "LAN8742_DisablePowerDownMode = rmw_reg LAN8742_BCR (\<lambda>v. v AND NOT LAN8742_BCR_POWER_DOWN)"

definition LAN8742_EnablePowerDownMode :: "'w lan8742_Object \<Rightarrow> 'w \<Rightarrow> (int \<times> 'w) option" where
  "LAN8742_EnablePowerDownMode = rmw_reg LAN8742_BCR (\<lambda>v. v OR LAN8742_BCR_POWER_DOWN)"

definition LAN8742_StartAutoNego :: "'w lan8742_Object \<Rightarrow> 'w \<Rightarrow> (int \<times> 'w) option" where
  "LAN8742_StartAutoNego = rmw_reg LAN8742_BCR (\<lambda>v. v OR LAN8742_BCR_AUTONEGO_EN)"

definition LAN8742_GetLinkState :: "'w lan8742_Object \<Rightarrow> 'w \<Rightarrow> (int \<times> 'w) option" where
  "LAN8742_GetLinkState pObj w =
     do {
       (rc, readval, w) \<leftarrow> read_reg pObj LAN8742_BSR 0 w;
       if rc < 0 then Some (STATUS_READ_ERROR, w)
       else do {
         (rc, readval, w) \<leftarrow> read_reg pObj LAN8742_BSR readval w;
         if rc < 0 then Some (STATUS_READ_ERROR, w)
         else if readval AND LAN8742_BSR_LINK_STATUS = 0 then Some (STATUS_LINK_DOWN, w)
         else do {
           (rc, readval, w) \<leftarrow> read_reg pObj LAN8742_BCR readval w;
           if rc < 0 then Some (STATUS_READ_ERROR, w)
           else if readval AND LAN8742_BCR_AUTONEGO_EN \<noteq> LAN8742_BCR_AUTONEGO_EN then
             Some (if readval AND LAN8742_BCR_SPEED_SELECT = LAN8742_BCR_SPEED_SELECT
                      \<and> readval AND LAN8742_BCR_DUPLEX_MODE = LAN8742_BCR_DUPLEX_MODE
                   then STATUS_100MBITS_FULLDUPLEX
                   else if readval AND LAN8742_BCR_SPEED_SELECT = LAN8742_BCR_SPEED_SELECT
                   then STATUS_100MBITS_HALFDUPLEX
                   else if readval AND LAN8742_BCR_DUPLEX_MODE = LAN8742_BCR_DUPLEX_MODE
                   then STATUS_10MBITS_FULLDUPLEX
                   else STATUS_10MBITS_HALFDUPLEX, w)
           else do {
             (rc, readval, w) \<leftarrow> read_reg pObj LAN8742_PHYSCSR readval w;
             Some (if rc < 0 then STATUS_READ_ERROR
                   else if readval AND LAN8742_PHYSCSR_AUTONEGO_DONE = 0 then STATUS_AUTONEGO_NOTDONE
                   else if readval AND LAN8742_PHYSCSR_HCDSPEEDMASK = LAN8742_PHYSCSR_100BTX_FD
                   then STATUS_100MBITS_FULLDUPLEX
                   else if readval AND LAN8742_PHYSCSR_HCDSPEEDMASK = LAN8742_PHYSCSR_100BTX_HD
                   then STATUS_100MBITS_HALFDUPLEX
                   else if readval AND LAN8742_PHYSCSR_HCDSPEEDMASK = LAN8742_PHYSCSR_10BT_FD
                   then STATUS_10MBITS_FULLDUPLEX
                   else STATUS_10MBITS_HALFDUPLEX, w)
           }
         }
       }
     }"

definition LAN8742_SetLinkState :: "'w lan8742_Object \<Rightarrow> int \<Rightarrow> 'w \<Rightarrow> (int \<times> 'w) option" where
  "LAN8742_SetLinkState pObj LinkState w =
     do {
       (rc, bcrvalue, w) \<leftarrow> read_reg pObj LAN8742_BCR 0 w;
       let (status, bcrvalue) =
         (if rc \<ge> 0 then
            (let v = bcrvalue AND NOT (LAN8742_BCR_AUTONEGO_EN OR LAN8742_BCR_SPEED_SELECT OR LAN8742_BCR_DUPLEX_MODE) in
             if LinkState = STATUS_100MBITS_FULLDUPLEX
             then (STATUS_OK, v OR (LAN8742_BCR_SPEED_SELECT OR LAN8742_BCR_DUPLEX_MODE))
             else if LinkState = STATUS_100MBITS_HALFDUPLEX then (STATUS_OK, v OR LAN8742_BCR_SPEED_SELECT)
             else if LinkState = STATUS_10MBITS_FULLDUPLEX then (STATUS_OK, v OR LAN8742_BCR_DUPLEX_MODE)
             else (STATUS_ERROR, v))
          else (STATUS_READ_ERROR, bcrvalue));
       if status = STATUS_OK then do {
         (rc, w) \<leftarrow> write_reg pObj LAN8742_BCR bcrvalue w;
         Some (if rc < 0 then STATUS_WRITE_ERROR else status, w)
       } else Some (status, w)
     }"

definition LAN8742_EnableLoopbackMode :: "'w lan8742_Object \<Rightarrow> 'w \<Rightarrow> (int \<times> 'w) option" where
  "LAN8742_EnableLoopbackMode = rmw_reg LAN8742_BCR (\<lambda>v. v OR LAN8742_BCR_LOOPBACK)"

definition LAN8742_DisableLoopbackMode :: "'w lan8742_Object \<Rightarrow> 'w \<Rightarrow> (int \<times> 'w) option" where
  "LAN8742_DisableLoopbackMode = rmw_reg LAN8742_BCR (\<lambda>v. v AND NOT LAN8742_BCR_LOOPBACK)"

definition LAN8742_EnableIT :: "'w lan8742_Object \<Rightarrow> u32 \<Rightarrow> 'w \<Rightarrow> (int \<times> 'w) option" where
  "LAN8742_EnableIT pObj Interrupt w = rmw_reg LAN8742_IMR (\<lambda>v. v OR Interrupt) pObj w"

definition LAN8742_DisableIT :: "'w lan8742_Object \<Rightarrow> u32 \<Rightarrow> 'w \<Rightarrow> (int \<times> 'w) option" where
  "LAN8742_DisableIT pObj Interrupt w = rmw_reg LAN8742_IMR (\<lambda>v. v AND NOT Interrupt) pObj w"

definition LAN8742_ClearIT :: "'w lan8742_Object \<Rightarrow> u32 \<Rightarrow> 'w \<Rightarrow> (int \<times> 'w) option" where
  "LAN8742_ClearIT pObj Interrupt w =
     do {
       (rc, readval, w) \<leftarrow> read_reg pObj LAN8742_ISFR 0 w;
       Some (if rc < 0 then STATUS_READ_ERROR else STATUS_OK, w)
     }"

definition LAN8742_GetITStatus :: "'w lan8742_Object \<Rightarrow> u32 \<Rightarrow> 'w \<Rightarrow> (int \<times> 'w) option" where
  "LAN8742_GetITStatus pObj Interrupt w =
     do {
       (rc, readval, w) \<leftarrow> read_reg pObj LAN8742_ISFR 0 w;
       Some (if rc \<ge> 0 then (if readval AND Interrupt = Interrupt then 1 else 0) else STATUS_READ_ERROR, w)
     }"

section \<open>The environment\<close>

text \<open>
  What the theorems assume of the function pointers. \<open>phy_ok pObj reg\<close>: bus accesses succeed,
  reading returns the register, and writing the control or the interrupt mask register changes
  that register only. \<open>clocked pObj time\<close>: \<open>GetTick\<close> is a millisecond counter of a clock \<open>time\<close>
  that advances with every call, and no call takes longer than a second.
\<close>

definition phy_ok :: "'w lan8742_Object \<Rightarrow> ('w \<Rightarrow> u32 \<Rightarrow> u32) \<Rightarrow> bool" where
  "phy_ok pObj reg \<longleftrightarrow>
     (\<forall>r old w. \<exists>w'. read_reg pObj r old w = Some (0, reg w r, w') \<and> reg w' = reg w)
     \<and> (\<forall>r \<in> {LAN8742_BCR, LAN8742_IMR}. \<forall>v w. \<exists>w'. write_reg pObj r v w = Some (0, w') \<and> reg w' = (reg w)(r := v))"

definition clocked :: "'w lan8742_Object \<Rightarrow> ('w \<Rightarrow> nat) \<Rightarrow> bool" where
  "clocked pObj time \<longleftrightarrow>
     (\<forall>w. \<exists>w'. get_tick pObj w = Some (of_nat (time w div 1000), w') \<and> time w < time w' \<and> time w' \<le> time w + 1000000)
     \<and> (\<forall>r old w. \<exists>rc v w'. read_reg pObj r old w = Some (rc, v, w') \<and> time w \<le> time w' \<and> time w' \<le> time w + 1000000)
     \<and> (\<forall>r v w. \<exists>rc w'. write_reg pObj r v w = Some (rc, w') \<and> time w \<le> time w' \<and> time w' \<le> time w + 1000000)"

lemma clockedD:
  assumes "clocked pObj time"
  obtains w' where "get_tick pObj w = Some (of_nat (time w div 1000), w')" "time w < time w'" "time w' \<le> time w + 1000000"
  using assms unfolding clocked_def by blast

lemma clocked_read:
  assumes "clocked pObj time"
  obtains rc v w' where "read_reg pObj r old w = Some (rc, v, w')" "time w \<le> time w'" "time w' \<le> time w + 1000000"
  using assms unfolding clocked_def by blast

lemma clocked_write:
  assumes "clocked pObj time"
  obtains rc w' where "write_reg pObj r v w = Some (rc, w')" "time w \<le> time w'" "time w' \<le> time w + 1000000"
  using assms unfolding clocked_def by blast

section \<open>Polling ends\<close>

text \<open>Elapsed milliseconds, computed modulo \<open>2 ^ 32\<close>, are exact over short intervals.\<close>

lemma elapsed:
  assumes "a \<le> b" and "b \<le> a + 4000000"
  shows "unat (of_nat (b div 1000) - of_nat (a div 1000) :: u32) = b div 1000 - a div 1000"
proof -
  have le: "a div 1000 \<le> b div 1000" using assms(1) by (rule div_le_mono)
  then have "(of_nat (b div 1000) - of_nat (a div 1000) :: u32) = of_nat (b div 1000 - a div 1000)"
    by (simp add: of_nat_diff)
  moreover have "b div 1000 - a div 1000 < 2 ^ 32" using assms by simp
  ultimately show ?thesis by (simp only: unat_of_nat_id len_num1 len_bit0) (simp add: unat_of_nat_id)
qed

lemma init_wait_ends:
  assumes c: "clocked pObj time" and "time w0 \<le> time w" "time w \<le> time w0 + 3002000"
  shows "\<exists>w'. init_wait pObj (of_nat (time w0 div 1000)) w = Some w' \<and> time w0 + 2000000 \<le> time w'"
  using assms(2,3)
proof (induction "time w0 + 2002000 - time w" arbitrary: w rule: less_induct)
  case less
  obtain w1 where w1: "get_tick pObj w = Some (of_nat (time w div 1000), w1)" "time w < time w1" "time w1 \<le> time w + 1000000"
    by (rule clockedD [OF c])
  have el: "unat (of_nat (time w div 1000) - of_nat (time w0 div 1000) :: u32) = time w div 1000 - time w0 div 1000"
    by (rule elapsed) (use less.prems in auto)
  have step: "init_wait pObj (of_nat (time w0 div 1000)) w =
      (if time w div 1000 - time w0 div 1000 \<le> 2000 then init_wait pObj (of_nat (time w0 div 1000)) w1 else Some w1)"
    using w1(1) el by (subst init_wait.simps) (simp add: word_le_nat_alt const_defs)
  show ?case
  proof (cases "time w div 1000 - time w0 div 1000 \<le> 2000")
    case True
    then have lt: "time w < time w0 + 2002000" by linarith
    have "time w0 + 2002000 - time w1 < time w0 + 2002000 - time w" using lt w1(2) by simp
    from less.hyps [OF this] show ?thesis using step True w1 lt less.prems by simp
  next
    case False
    then have "time w0 + 2000000 \<le> time w" by linarith
    then show ?thesis using step False w1(2) by auto
  qed
qed

lemma reset_wait_ends:
  assumes c: "clocked pObj time" and "time w0 \<le> time w" "time w \<le> time w0 + 3000000"
  shows "\<exists>st w'. reset_wait pObj (of_nat (time w0 div 1000)) v w = Some (st, w')
     \<and> st \<in> {STATUS_OK, STATUS_READ_ERROR, STATUS_RESET_TIMEOUT}"
  using assms(2,3)
proof (induction "time w0 + 502000 - time w" arbitrary: v w rule: less_induct)
  case less
  obtain w1 where w1: "get_tick pObj w = Some (of_nat (time w div 1000), w1)" "time w < time w1" "time w1 \<le> time w + 1000000"
    by (rule clockedD [OF c])
  obtain rc v2 w2 where w2: "read_reg pObj LAN8742_BCR v w1 = Some (rc, v2, w2)" "time w1 \<le> time w2" "time w2 \<le> time w1 + 1000000"
    by (rule clocked_read [OF c])
  have el: "unat (of_nat (time w div 1000) - of_nat (time w0 div 1000) :: u32) = time w div 1000 - time w0 div 1000"
    by (rule elapsed) (use less.prems in auto)
  have step: "reset_wait pObj (of_nat (time w0 div 1000)) v w =
      (if v AND LAN8742_BCR_SOFT_RESET \<noteq> 0 then
         (if time w div 1000 - time w0 div 1000 \<le> 500 then
            (if rc < 0 then Some (STATUS_READ_ERROR, w2) else reset_wait pObj (of_nat (time w0 div 1000)) v2 w2)
          else Some (STATUS_RESET_TIMEOUT, w1))
       else Some (STATUS_OK, w))"
    using w1(1) w2(1) el by (subst reset_wait.simps) (simp add: word_le_nat_alt LAN8742_SW_RESET_TO_def)
  show ?case
  proof (cases "v AND LAN8742_BCR_SOFT_RESET \<noteq> 0 \<and> time w div 1000 - time w0 div 1000 \<le> 500 \<and> \<not> rc < 0")
    case True
    then have lt: "time w < time w0 + 502000" by linarith
    have "time w0 + 502000 - time w2 < time w0 + 502000 - time w" using lt w1(2) w2(2) by simp
    from less.hyps [OF this] show ?thesis using step True w1 w2 lt less.prems by simp
  next
    case False
    then show ?thesis using step by auto
  qed
qed

text \<open>What the scan finds.\<close>

lemma scan_addr_result:
  assumes "scan_addr rd as v st dev w = (v', st', dev', w')" and "\<forall>a \<in> set as. a < 32"
  shows "(st' = STATUS_OK \<and> unat dev' \<in> set as) \<or> (dev' = dev \<and> st' \<in> {st, STATUS_READ_ERROR})"
  using assms
proof (induction as arbitrary: v st w)
  case Nil
  then show ?case by simp
next
  case (Cons a as)
  obtain rc v1 w1 where r: "rd (of_nat a) LAN8742_SMR v w = (rc, v1, w1)" by (cases "rd (of_nat a) LAN8742_SMR v w") auto
  have u: "unat (of_nat a :: u32) = a" using Cons.prems(2) by (simp add: unat_of_nat_id)
  show ?case
    using Cons.IH [of v1 "if rc < 0 then STATUS_READ_ERROR else st" w1] Cons.prems r u
    by (auto split: if_splits)
qed

section \<open>Properties\<close>

lemma phy_ok_read:
  assumes "phy_ok pObj reg"
  obtains w' where "read_reg pObj r old w = Some (0, reg w r, w')" "reg w' = reg w"
  using assms unfolding phy_ok_def by blast

lemma phy_ok_write:
  assumes "phy_ok pObj reg" and "r \<in> {LAN8742_BCR, LAN8742_IMR}"
  obtains w' where "write_reg pObj r v w = Some (0, w')" "reg w' = (reg w)(r := v)"
  using assms unfolding phy_ok_def by blast

lemma rmw_reg_ok:
  assumes "phy_ok pObj reg" and "r \<in> {LAN8742_BCR, LAN8742_IMR}"
  shows "\<exists>w'. rmw_reg r f pObj w = Some (STATUS_OK, w') \<and> reg w' = (reg w)(r := f (reg w r))"
proof -
  obtain w1 where w1: "read_reg pObj r 0 w = Some (0, reg w r, w1)" "reg w1 = reg w" by (rule phy_ok_read [OF assms(1)])
  obtain w2 where w2: "write_reg pObj r (f (reg w r)) w1 = Some (0, w2)" "reg w2 = (reg w1)(r := f (reg w r))"
    by (rule phy_ok_write [OF assms])
  show ?thesis using w1 w2 by (simp add: rmw_reg_def)
qed

text \<open>The speed and duplex bits that \<open>LAN8742_SetLinkState\<close> writes.\<close>

definition link_bits :: "int \<Rightarrow> u32" where
  "link_bits ls = (if ls = STATUS_100MBITS_FULLDUPLEX then 0x2100 else if ls = STATUS_100MBITS_HALFDUPLEX then 0x2000
     else 0x0100)"

lemma link_bits_read:
  assumes "ls \<in> {2, 3, 4}"
  shows "((v AND NOT 0x3100) OR link_bits ls) AND 0x1000 = 0"
    and "((v AND NOT 0x3100) OR link_bits ls) AND 0x2000 = (if ls = 4 then 0 else 0x2000)"
    and "((v AND NOT 0x3100) OR link_bits ls) AND 0x0100 = (if ls = 3 then 0 else 0x0100)"
    and "((v AND NOT 0x3100) OR link_bits ls) AND NOT 0x3100 = v AND NOT 0x3100"
  using assms by (auto simp: link_bits_def const_defs bit.conj_disj_distrib2 and.assoc)

lemma SetLinkState_ok:
  assumes ok: "phy_ok pObj reg" and ls: "ls \<in> {2, 3, 4}"
  shows "\<exists>w'. LAN8742_SetLinkState pObj ls w = Some (STATUS_OK, w')
     \<and> reg w' = (reg w)(LAN8742_BCR := (reg w LAN8742_BCR AND NOT 0x3100) OR link_bits ls)"
proof -
  obtain w1 where w1: "read_reg pObj LAN8742_BCR 0 w = Some (0, reg w LAN8742_BCR, w1)" "reg w1 = reg w"
    by (rule phy_ok_read [OF ok])
  obtain w2 where w2: "write_reg pObj LAN8742_BCR ((reg w LAN8742_BCR AND NOT 0x3100) OR link_bits ls) w1 = Some (0, w2)"
    "reg w2 = (reg w1)(LAN8742_BCR := (reg w LAN8742_BCR AND NOT 0x3100) OR link_bits ls)"
    by (rule phy_ok_write [OF ok insertI1])
  have m: "LAN8742_BCR_AUTONEGO_EN OR 0x2100 = 0x3100"
    "LAN8742_BCR_SPEED_SELECT OR LAN8742_BCR_DUPLEX_MODE = 0x2100"
    by (simp_all add: const_defs)
  show ?thesis
    using w1 w2 ls unfolding LAN8742_SetLinkState_def m
    by (auto simp: Let_def link_bits_def STATUS_100MBITS_FULLDUPLEX_def STATUS_100MBITS_HALFDUPLEX_def
        STATUS_10MBITS_FULLDUPLEX_def LAN8742_BCR_SPEED_SELECT_def LAN8742_BCR_DUPLEX_MODE_def STATUS_OK_def)
qed

text \<open>
  Forcing a link mode and reading it back. On a PHY whose link is up, setting one of the three
  modes that \<open>LAN8742_SetLinkState\<close> supports succeeds, \<open>LAN8742_GetLinkState\<close> then reports that
  mode, and the other bits of the control register are unchanged.
\<close>

lemma set_get_link_state:
  assumes "phy_ok pObj reg" and "reg w LAN8742_BSR AND LAN8742_BSR_LINK_STATUS \<noteq> 0"
    and "ls \<in> {STATUS_100MBITS_FULLDUPLEX, STATUS_100MBITS_HALFDUPLEX, STATUS_10MBITS_FULLDUPLEX}"
  shows "\<exists>w' w''. LAN8742_SetLinkState pObj ls w = Some (STATUS_OK, w')
     \<and> LAN8742_GetLinkState pObj w' = Some (ls, w'')
     \<and> reg w' LAN8742_BCR AND NOT 0x3100 = reg w LAN8742_BCR AND NOT 0x3100"
proof -
  have ls: "ls \<in> {2, 3, 4}" using assms(3) by (simp add: const_defs)
  obtain w1 where w1: "LAN8742_SetLinkState pObj ls w = Some (STATUS_OK, w1)"
    "reg w1 = (reg w)(LAN8742_BCR := (reg w LAN8742_BCR AND NOT 0x3100) OR link_bits ls)"
    using SetLinkState_ok [OF assms(1) ls] by blast
  obtain w2 where w2: "read_reg pObj LAN8742_BSR 0 w1 = Some (0, reg w1 LAN8742_BSR, w2)" "reg w2 = reg w1"
    by (rule phy_ok_read [OF assms(1)])
  obtain w3 where w3: "read_reg pObj LAN8742_BSR (reg w1 LAN8742_BSR) w2 = Some (0, reg w2 LAN8742_BSR, w3)" "reg w3 = reg w2"
    by (rule phy_ok_read [OF assms(1)])
  obtain w4 where w4: "read_reg pObj LAN8742_BCR (reg w1 LAN8742_BSR) w3 = Some (0, reg w3 LAN8742_BCR, w4)"
    by (rule phy_ok_read [OF assms(1)])
  have bsr: "reg w1 LAN8742_BSR = reg w LAN8742_BSR" using w1(2) by (simp add: const_defs)
  have bcr: "reg w3 LAN8742_BCR = (reg w LAN8742_BCR AND NOT 0x3100) OR link_bits ls" using w1(2) w2(2) w3(2) by simp
  note bits = link_bits_read [OF ls, of "reg w LAN8742_BCR"]
  have "LAN8742_GetLinkState pObj w1 = Some (ls, w4)"
    using w2 w3 w4 assms(2) bsr ls bits(1-3) unfolding LAN8742_GetLinkState_def bcr
    by (auto simp: LAN8742_BCR_AUTONEGO_EN_def LAN8742_BCR_SPEED_SELECT_def LAN8742_BCR_DUPLEX_MODE_def
        STATUS_100MBITS_FULLDUPLEX_def STATUS_100MBITS_HALFDUPLEX_def STATUS_10MBITS_FULLDUPLEX_def)
  then show ?thesis using w1 bits(4) by auto
qed

text \<open>A register file as the PHY, for the witnesses.\<close>

definition regfile_io :: "(u32 \<Rightarrow> u32) lan8742_IOCtx" where
  "regfile_io = \<lparr>io_Init = None, io_DeInit = None, io_WriteReg = Some (\<lambda>a r v w. (0, w(r := v))),
     io_ReadReg = Some (\<lambda>a r old w. (0, w r, w)), io_GetTick = Some (\<lambda>w. (0, w))\<rparr>"

definition regfile_obj :: "(u32 \<Rightarrow> u32) lan8742_Object" where
  "regfile_obj = \<lparr>DevAddr = 0, Is_Initialized = 1, IO = regfile_io\<rparr>"

lemma regfile_ok: "phy_ok regfile_obj id"
  by (simp add: phy_ok_def read_reg_def write_reg_def regfile_obj_def regfile_io_def)

text \<open>
  10 Mbit/s half duplex is refused. The documentation of \<open>LAN8742_SetLinkState\<close> lists
  \<open>LAN8742_STATUS_10MBITS_HALFDUPLEX\<close> among the link states it sets; whenever the control
  register can be read, the code returns \<open>LAN8742_STATUS_ERROR\<close> for it and writes nothing.
\<close>

lemma set_10_half_refused:
  assumes "read_reg pObj LAN8742_BCR 0 w = Some (rc, v, w')" and "rc \<ge> 0"
  shows "LAN8742_SetLinkState pObj STATUS_10MBITS_HALFDUPLEX w = Some (STATUS_ERROR, w')"
  using assms by (simp add: LAN8742_SetLinkState_def Let_def STATUS_100MBITS_FULLDUPLEX_def
      STATUS_100MBITS_HALFDUPLEX_def STATUS_10MBITS_FULLDUPLEX_def STATUS_10MBITS_HALFDUPLEX_def
      STATUS_ERROR_def STATUS_OK_def)

lemma soft_reset_ends:
  assumes c: "clocked pObj time"
  shows "\<exists>st w'. soft_reset pObj v w = Some (st, w')"
proof -
  obtain rc w1 where w1: "write_reg pObj LAN8742_BCR LAN8742_BCR_SOFT_RESET w = Some (rc, w1)" by (rule clocked_write [OF c])
  obtain rc2 v2 w2 where w2: "read_reg pObj LAN8742_BCR v w1 = Some (rc2, v2, w2)" by (rule clocked_read [OF c])
  obtain w3 where w3: "get_tick pObj w2 = Some (of_nat (time w2 div 1000), w3)" "time w2 < time w3" "time w3 \<le> time w2 + 1000000"
    by (rule clockedD [OF c])
  have "\<exists>st w'. reset_wait pObj (of_nat (time w2 div 1000)) v2 w3 = Some (st, w')"
    using reset_wait_ends [OF c, of w2 w3 v2] w3 by auto
  then show ?thesis using w1 w2 w3 by (auto simp: soft_reset_def)
qed

lemma clocked_initialized: "clocked (obj\<lparr>Is_Initialized := k\<rparr>) time = clocked obj time"
  by (simp add: clocked_def get_tick_def read_reg_def write_reg_def)

lemma init_tail:
  assumes c: "clocked pObj time"
  shows "\<exists>t w1 w'. get_tick pObj w = Some (t, w1) \<and> init_wait pObj t w1 = Some w' \<and> time w + 2000000 \<le> time w'"
proof -
  obtain w1 where w1: "get_tick pObj w = Some (of_nat (time w div 1000), w1)" "time w < time w1" "time w1 \<le> time w + 1000000"
    by (rule clockedD [OF c])
  from init_wait_ends [OF c, of w w1] w1 show ?thesis by auto
qed

text \<open>
  C40 Initialisation ends. Whatever the PHY answers, \<open>LAN8742_Init\<close> returns: its polling loops end
  even when the tick counter wraps, provided that the clock advances by at least one and at most
  a million microseconds at each reading. It returns \<open>LAN8742_STATUS_OK\<close> exactly when the object
  ends up initialised, and then a device address below 32 was found if the object was new.
\<close>

theorem init_ends:
  assumes c: "\<And>dev. clocked (pObj\<lparr>DevAddr := dev\<rparr>) time"
    and i: "Is_Initialized pObj = 0 \<or> Is_Initialized pObj = 1"
  shows "\<exists>st obj w'. LAN8742_Init pObj w = Some (st, obj, w') \<and> (st = STATUS_OK \<longleftrightarrow> Is_Initialized obj = 1)
     \<and> (st = STATUS_OK \<and> Is_Initialized pObj = 0 \<longrightarrow> unat (DevAddr obj) < 32)"
proof (cases "Is_Initialized pObj = 0")
  case False
  have "clocked pObj time" using c [of "DevAddr pObj"] by simp
  from init_tail [OF this, of w] show ?thesis using False i by (auto simp: LAN8742_Init_def)
next
  case True
  define w0 where "w0 = (case io_Init (IO pObj) of None \<Rightarrow> w | Some f \<Rightarrow> snd (f w))"
  obtain rd where rd: "io_ReadReg (IO pObj) = Some rd"
    using c [of "DevAddr pObj"] by (cases "io_ReadReg (IO pObj)") (auto simp: clocked_def read_reg_def)
  obtain v st dev w1 where sc: "scan_addr rd [0..<32] 0 STATUS_OK (LAN8742_MAX_DEV_ADDR + 1) w0 = (v, st, dev, w1)"
    by (cases "scan_addr rd [0..<32] 0 STATUS_OK (LAN8742_MAX_DEV_ADDR + 1) w0") auto
  define st1 where "st1 = (if dev > LAN8742_MAX_DEV_ADDR then STATUS_ADDRESS_ERROR else st)"
  let ?obj = "pObj\<lparr>DevAddr := dev\<rparr>"
  have dev: "st1 = STATUS_OK \<Longrightarrow> unat dev < 32"
    by (cases "unat dev < 32") (auto simp: st1_def const_defs word_less_nat_alt)
  obtain st2 w2 where r: "soft_reset ?obj v w1 = Some (st2, w2)" using soft_reset_ends [OF c] by blast
  obtain t w3 w4 where t: "get_tick ?obj w2 = Some (t, w3)" "init_wait ?obj t w3 = Some w4"
    using init_tail [OF c, of dev w2] by blast
  have "LAN8742_Init pObj w =
      (if st1 = STATUS_OK
       then (if st2 = STATUS_OK then Some (st2, ?obj\<lparr>Is_Initialized := 1\<rparr>, w4) else Some (st2, ?obj, w2))
       else Some (st1, ?obj, w1))"
    using True rd sc r t unfolding LAN8742_Init_def
    by (simp add: w0_def [symmetric] st1_def [symmetric] Let_def split del: if_split)
      (auto simp: st1_def STATUS_ADDRESS_ERROR_def STATUS_OK_def)
  then show ?thesis using dev True by auto
qed

text \<open>A world that is only a clock, with a PHY at address 1.\<close>

definition clock_io :: "nat lan8742_IOCtx" where
  "clock_io = \<lparr>io_Init = None, io_DeInit = None, io_WriteReg = Some (\<lambda>a r v w. (0, w + 1)),
     io_ReadReg = Some (\<lambda>a r old w. (0, if r = LAN8742_SMR then 1 else 0, w + 1)),
     io_GetTick = Some (\<lambda>w. (of_nat (w div 1000), w + 1))\<rparr>"

definition clock_obj :: "nat lan8742_Object" where
  "clock_obj = \<lparr>DevAddr = 0, Is_Initialized = 0, IO = clock_io\<rparr>"

theorem init_ends_witness:
  "\<exists>st obj w'. LAN8742_Init clock_obj 4294966 = Some (st, obj, w') \<and> (st = STATUS_OK \<longleftrightarrow> Is_Initialized obj = 1)"
proof -
  have "clocked (clock_obj\<lparr>DevAddr := dev\<rparr>) id" for dev
    by (simp add: clocked_def get_tick_def read_reg_def write_reg_def clock_obj_def clock_io_def)
  from init_ends [of clock_obj id, OF this] show ?thesis by (fastforce simp: clock_obj_def)
qed

text \<open>
  Mode bits. The pairs of operations on power down, loopback and interrupt sources set and
  clear exactly their bits: after enabling and disabling, the register is the old one with
  those bits cleared.
\<close>

lemma enable_disable_bits:
  assumes "phy_ok pObj reg"
  shows "(\<exists>u v. LAN8742_EnablePowerDownMode pObj w = Some (STATUS_OK, u)
        \<and> reg u LAN8742_BCR = reg w LAN8742_BCR OR LAN8742_BCR_POWER_DOWN
        \<and> LAN8742_DisablePowerDownMode pObj u = Some (STATUS_OK, v)
        \<and> reg v = (reg w)(LAN8742_BCR := reg w LAN8742_BCR AND NOT LAN8742_BCR_POWER_DOWN))
     \<and> (\<exists>u v. LAN8742_EnableLoopbackMode pObj w = Some (STATUS_OK, u)
        \<and> LAN8742_DisableLoopbackMode pObj u = Some (STATUS_OK, v)
        \<and> reg v = (reg w)(LAN8742_BCR := reg w LAN8742_BCR AND NOT LAN8742_BCR_LOOPBACK))
     \<and> (\<exists>u v. LAN8742_EnableIT pObj it w = Some (STATUS_OK, u) \<and> LAN8742_DisableIT pObj it u = Some (STATUS_OK, v)
        \<and> reg v = (reg w)(LAN8742_IMR := reg w LAN8742_IMR AND NOT it))"
proof -
  have both: "\<exists>u v. rmw_reg r (\<lambda>x. x OR b) pObj w = Some (STATUS_OK, u) \<and> reg u r = reg w r OR b
      \<and> rmw_reg r (\<lambda>x. x AND NOT b) pObj u = Some (STATUS_OK, v) \<and> reg v = (reg w)(r := reg w r AND NOT b)"
    if r: "r \<in> {LAN8742_BCR, LAN8742_IMR}" for r b
  proof -
    obtain u where u: "rmw_reg r (\<lambda>x. x OR b) pObj w = Some (STATUS_OK, u)" "reg u = (reg w)(r := reg w r OR b)"
      using rmw_reg_ok [OF assms r] by blast
    obtain v where v: "rmw_reg r (\<lambda>x. x AND NOT b) pObj u = Some (STATUS_OK, v)"
      "reg v = (reg u)(r := reg u r AND NOT b)" using rmw_reg_ok [OF assms r] by blast
    have "(reg w r OR b) AND NOT b = reg w r AND NOT b" by (simp add: bit.conj_disj_distrib2)
    then show ?thesis using u v by auto
  qed
  show ?thesis
    using both [of LAN8742_BCR LAN8742_BCR_POWER_DOWN] both [of LAN8742_BCR LAN8742_BCR_LOOPBACK]
      both [of LAN8742_IMR it]
    unfolding LAN8742_EnablePowerDownMode_def LAN8742_DisablePowerDownMode_def LAN8742_EnableLoopbackMode_def
      LAN8742_DisableLoopbackMode_def LAN8742_EnableIT_def LAN8742_DisableIT_def
    by blast
qed

end
