(* ===== verification/Stm32h7_Eth.thy ===== *)
theory Stm32h7_Eth
  imports Pbuf_Data Lan8742
begin

text \<open>
  The Ethernet driver of the port, \<open>rtemslwip/stm32h7/stm32h7_eth.c\<close>: the ring of receive descriptors
  that it shares with the DMA engine, the pool of receive buffers, which are custom pbufs of the stack,
  transmission through a bounce buffer, the interrupt and error callbacks and the link thread.

  Memory is coherent in the model: cache maintenance and barriers have no effect. The registers are the
  ones the driver writes; \<open>DMACSR\<close> is cleared by writing ones. The HAL is a parameter, a record \<open>eth_hal\<close>
  of the functions and constants of the HAL that the modelled code uses. Trace output is left out.
\<close>

unbundle bit_operations_syntax

section \<open>Data\<close>

definition ETH_RX_DESC_CNT :: nat where [const_defs]: "ETH_RX_DESC_CNT = 16"
definition ETH_TX_DESC_CNT :: nat where [const_defs]: "ETH_TX_DESC_CNT = 4"
definition ETH_RX_BUFFER_SIZE :: nat where [const_defs]: "ETH_RX_BUFFER_SIZE = 1536"
definition ETH_RX_BUFFER_CNT :: nat where [const_defs]: "ETH_RX_BUFFER_CNT = 64"
definition RX_POOL_BASE_ADDR :: nat where [const_defs]: "RX_POOL_BASE_ADDR = 0x30000600"
definition ETH_TX_BUFFER_ADDR :: nat where [const_defs]: "ETH_TX_BUFFER_ADDR = 0x30020000"
definition ETH_TX_BUFFER_MAX_SIZE :: nat where [const_defs]: "ETH_TX_BUFFER_MAX_SIZE = 1536"
definition DMARxDscrTab_addr :: nat where [const_defs]: "DMARxDscrTab_addr = 0x30000000"
definition DMATxDscrTab_addr :: nat where [const_defs]: "DMATxDscrTab_addr = 0x30000400"
definition ETH_PAD_SIZE :: nat where [const_defs]: "ETH_PAD_SIZE = 2"
definition RxBuffLen :: nat where [const_defs]: "RxBuffLen = 1536"

text \<open>
  \<open>RxBuff_t\<close>: \<open>struct pbuf_custom\<close> is a pbuf of 16 bytes and a function pointer, a word of padding
  follows, then the buffer; the whole is aligned to 32 bytes.
\<close>

definition RxBuff_buff :: nat where [const_defs]: "RxBuff_buff = 24"
definition sizeof_RxBuff :: nat where [const_defs]: "sizeof_RxBuff = 1568"
definition sizeof_desc :: nat where [const_defs]: "sizeof_desc = 16"

definition memp_RX_POOL :: memp_desc where
  "memp_RX_POOL = \<lparr>md_size = LWIP_MEM_ALIGN_SIZE sizeof_RxBuff, md_num = ETH_RX_BUFFER_CNT, md_base = RX_POOL_BASE_ADDR\<rparr>"

datatype RxAllocStatusTypeDef = RX_ALLOC_OK | RX_ALLOC_ERROR

record dma_desc =
  DESC0 :: u32
  DESC1 :: u32
  DESC2 :: u32
  DESC3 :: u32

text \<open>
  The variables of the driver, the parts of \<open>heth\<close> it uses, and the store of pbufs. \<open>rx_custom_fn p\<close>
  says that the field \<open>custom_free_function\<close> of the receive buffer at \<open>p\<close> is \<open>pbuf_free_custom\<close>.
\<close>

record eth_state =
  DMARxDscrTab :: "nat \<Rightarrow> dma_desc"
  DMATxDscrTab :: "nat \<Rightarrow> dma_desc"
  DMARxDscrBackup :: "nat \<Rightarrow> u32"
  RxDescIdx :: nat
  RxBuildDescIdx :: nat
  RxBuildDescCnt :: u32
  RxAllocStatus :: RxAllocStatusTypeDef
  rx_pool :: memp_pool
  rx_custom_fn :: "addr \<Rightarrow> bool"
  pbs :: pb_state
  RxPktSemaphore :: nat
  TxPktSemaphore :: nat
  EthIrqCount :: u32
  RxIrqCount :: u32
  DMACSR :: u32
  DMACRDTPR :: u32
  poll_demand :: u32
  DMACTDTPR :: u32
  tx_desc_idx :: nat
  CurTxDesc :: nat
  TxConfig_Length :: u32
  TxConfig_pData :: addr

record eth_hal =
  ETH_DMACSR_RBU :: u32
  ETH_DMACSR_AIS :: u32
  HAL_ETH_IRQHandler :: "eth_state \<Rightarrow> eth_state"
  HAL_ETH_GetDMAError :: "eth_state \<Rightarrow> u32"

definition sys_sem_signal_rx :: "eth_state \<Rightarrow> eth_state" where
  "sys_sem_signal_rx s = s\<lparr>RxPktSemaphore := RxPktSemaphore s + 1\<rparr>"

text \<open>The bits of the descriptors: owned by the DMA; context; first and last part of a frame; length.\<close>

definition own_bit :: "u32 \<Rightarrow> bool" where "own_bit d3 \<longleftrightarrow> d3 AND 0x80000000 \<noteq> 0"
definition ctxt_bit :: "u32 \<Rightarrow> bool" where "ctxt_bit d3 \<longleftrightarrow> d3 AND 0x40000000 \<noteq> 0"
definition whole_frame :: "u32 \<Rightarrow> bool" where "whole_frame d3 \<longleftrightarrow> d3 AND 0x20000000 \<noteq> 0 \<and> d3 AND 0x10000000 \<noteq> 0"
definition frame_len :: "u32 \<Rightarrow> u32" where "frame_len d3 = d3 AND 0x00007FFF"

section \<open>Interrupts\<close>

definition stm32h7_eth_kick_rx_dma :: "eth_state \<Rightarrow> eth_state" where
  "stm32h7_eth_kick_rx_dma s =
     (let s = s\<lparr>DMACRDTPR := of_nat (DMARxDscrTab_addr + ETH_RX_DESC_CNT * sizeof_desc)\<rparr> in s\<lparr>poll_demand := 0\<rparr>)"

text \<open>Writing ones to \<open>DMACSR\<close> clears the bits.\<close>

definition clear_DMACSR :: "u32 \<Rightarrow> eth_state \<Rightarrow> eth_state" where
  "clear_DMACSR w s = s\<lparr>DMACSR := DMACSR s AND NOT w\<rparr>"

definition stm32h7_eth_interrupt_handler :: "eth_hal \<Rightarrow> eth_state \<Rightarrow> eth_state" where
  "stm32h7_eth_interrupt_handler hal s =
     (let s = s\<lparr>EthIrqCount := EthIrqCount s + 1\<rparr>;
          s = HAL_ETH_IRQHandler hal s;
          dmacsr = DMACSR s;
          s = (if dmacsr AND ETH_DMACSR_RBU hal \<noteq> 0
               then stm32h7_eth_kick_rx_dma (clear_DMACSR (ETH_DMACSR_RBU hal OR ETH_DMACSR_AIS hal) s) else s) in
      sys_sem_signal_rx s)"

definition HAL_ETH_RxCpltCallback :: "eth_state \<Rightarrow> eth_state" where
  "HAL_ETH_RxCpltCallback s = sys_sem_signal_rx (s\<lparr>RxIrqCount := RxIrqCount s + 1\<rparr>)"

definition HAL_ETH_TxCpltCallback :: "eth_state \<Rightarrow> eth_state" where
  "HAL_ETH_TxCpltCallback s = s\<lparr>TxPktSemaphore := TxPktSemaphore s + 1\<rparr>"

definition HAL_ETH_ErrorCallback :: "eth_hal \<Rightarrow> eth_state \<Rightarrow> eth_state" where
  "HAL_ETH_ErrorCallback hal s =
     (let dma_err = HAL_ETH_GetDMAError hal s in
      if dma_err AND ETH_DMACSR_RBU hal = ETH_DMACSR_RBU hal then
        (let d = DMARxDscrTab s (RxDescIdx s);
             flags = ETH_DMACSR_RBU hal OR ETH_DMACSR_AIS hal in
         if \<not> own_bit (DESC3 d) \<and> \<not> ctxt_bit (DESC3 d) then sys_sem_signal_rx (clear_DMACSR flags s)
         else sys_sem_signal_rx (stm32h7_eth_kick_rx_dma (clear_DMACSR flags s)))
      else s)"

section \<open>Receive buffers\<close>

text \<open>\<open>HAL_ETH_RxAllocateCallback\<close>: a buffer from the pool, as an address behind the padding, or \<open>NULL\<close>.\<close>

definition HAL_ETH_RxAllocateCallback :: "eth_state \<Rightarrow> addr \<times> eth_state" where
  "HAL_ETH_RxAllocateCallback s =
     (let (p, pool) = memp_malloc_pool (Some memp_RX_POOL) (rx_pool s);
          s = s\<lparr>rx_pool := pool\<rparr> in
      if p \<noteq> NULL then
        (let s = s\<lparr>rx_custom_fn := (rx_custom_fn s)(p := True)\<rparr>;
             (_, b) = pbuf_alloced_custom 0 0 PBUF_REF p (p + RxBuff_buff) (of_nat ETH_RX_BUFFER_SIZE) (pbs s) in
         (p + RxBuff_buff + ETH_PAD_SIZE, s\<lparr>pbs := b\<rparr>))
      else (NULL, s\<lparr>RxAllocStatus := RX_ALLOC_ERROR\<rparr>))"

definition pbuf_free_custom :: "addr \<Rightarrow> eth_state \<Rightarrow> eth_state" where
  "pbuf_free_custom p s =
     (let s = s\<lparr>rx_pool := memp_free_pool (Some memp_RX_POOL) p (rx_pool s)\<rparr> in
      if RxAllocStatus s = RX_ALLOC_ERROR then sys_sem_signal_rx (s\<lparr>RxAllocStatus := RX_ALLOC_OK\<rparr>) else s)"

text \<open>\<open>pbuf_free\<close> with the custom free functions of the receive buffers called.\<close>

definition eth_pbuf_free :: "addr \<Rightarrow> eth_state \<Rightarrow> eth_state option" where
  "eth_pbuf_free p s =
     do {
       (_, b) \<leftarrow> pbuf_free p ((pbs s)\<lparr>custom_freed := []\<rparr>);
       let s' = s\<lparr>pbs := b\<lparr>custom_freed := custom_freed (pbs s) @ filter (\<lambda>q. \<not> rx_custom_fn s q) (custom_freed b)\<rparr>\<rparr>;
       Some (foldl (\<lambda>s q. pbuf_free_custom q s) s' (filter (rx_custom_fn s) (custom_freed b)))
     }"

definition HAL_ETH_TxFreeCallback :: "addr \<Rightarrow> eth_state \<Rightarrow> eth_state option" where
  "HAL_ETH_TxFreeCallback buff s = eth_pbuf_free buff s"

text \<open>Handing a buffer to the DMA in descriptor \<open>idx\<close>; \<open>flags\<close> is what goes into \<open>DESC3\<close>.\<close>

definition arm_descriptor :: "nat \<Rightarrow> addr \<Rightarrow> u32 \<Rightarrow> eth_state \<Rightarrow> eth_state" where
  "arm_descriptor idx ptr flags s =
     (let d = DMARxDscrTab s idx in
      s\<lparr>DMARxDscrTab := (DMARxDscrTab s)(idx := d\<lparr>DESC0 := of_nat ptr, DESC2 := of_nat RxBuffLen AND 0x3FFF, DESC3 := flags\<rparr>),
        DMARxDscrBackup := (DMARxDscrBackup s)(idx := of_nat ptr)\<rparr>)"

definition rx_ready_flags :: u32 where "rx_ready_flags = 0x80000000 OR 0x40000000 OR 0x01000000"

definition next_rx :: "nat \<Rightarrow> nat" where "next_rx idx = (idx + 1) mod ETH_RX_DESC_CNT"

definition count_built :: "eth_state \<Rightarrow> eth_state" where
  "count_built s = (if RxBuildDescCnt s < of_nat ETH_RX_DESC_CNT then s\<lparr>RxBuildDescCnt := RxBuildDescCnt s + 1\<rparr> else s)"

definition stm32h7_recycle_rx_descriptor :: "nat \<Rightarrow> eth_state \<Rightarrow> eth_state" where
  "stm32h7_recycle_rx_descriptor idx s =
     (let (new_ptr, s) = HAL_ETH_RxAllocateCallback s in
      if new_ptr \<noteq> NULL then
        (let s = arm_descriptor idx new_ptr rx_ready_flags s;
             s = count_built s;
             s = s\<lparr>RxBuildDescIdx := next_rx idx, RxDescIdx := next_rx idx\<rparr> in
         stm32h7_eth_kick_rx_dma s)
      else s)"

definition stm32h7_get_pbuf_from_buff :: "addr \<Rightarrow> addr" where
  "stm32h7_get_pbuf_from_buff buff = buff - RxBuff_buff"

text \<open>
  The part of \<open>low_level_input\<close> that takes a whole frame out of descriptor \<open>idx\<close>: the buffer becomes a
  pbuf for the stack and the descriptor gets a new buffer, if there is one.
\<close>

definition take_frame :: "nat \<Rightarrow> eth_state \<Rightarrow> addr \<times> eth_state" where
  "take_frame idx s =
     (let pkt_len = frame_len (DESC3 (DMARxDscrTab s idx));
          actual_buff = unat (DMARxDscrBackup s idx) - ETH_PAD_SIZE;
          p_manual = stm32h7_get_pbuf_from_buff actual_buff;
          s = s\<lparr>rx_custom_fn := (rx_custom_fn s)(p_manual := True)\<rparr>;
          (p, b) = pbuf_alloced_custom 0 (ucast (pkt_len + of_nat ETH_PAD_SIZE)) PBUF_REF p_manual actual_buff
                     (of_nat ETH_RX_BUFFER_SIZE) (pbs s);
          s = s\<lparr>pbs := b\<rparr>;
          (new_ptr, s) = HAL_ETH_RxAllocateCallback s;
          s = (if new_ptr \<noteq> NULL then
                 (let s = arm_descriptor idx new_ptr rx_ready_flags s;
                      s = count_built s;
                      s = s\<lparr>RxBuildDescIdx := next_rx idx\<rparr> in
                  stm32h7_eth_kick_rx_dma s)
               else s) in
      (p, s\<lparr>RxDescIdx := next_rx idx\<rparr>))"

partial_function (option) low_level_input :: "eth_state \<Rightarrow> (addr \<times> eth_state) option" where
  "low_level_input s =
     (let idx = RxDescIdx s; d3 = DESC3 (DMARxDscrTab s idx) in
      if own_bit d3 then Some (NULL, s)
      else if ctxt_bit d3 then low_level_input (stm32h7_recycle_rx_descriptor idx s)
      else if whole_frame d3 then
        (if DMARxDscrBackup s idx \<noteq> 0 then Some (take_frame idx s) else low_level_input s)
      else low_level_input (stm32h7_recycle_rx_descriptor idx s))"



text \<open>
  \<open>HAL_ETH_RxLinkCallback\<close>: the list of buffers of a frame; after the loop over the list the code uses
  the loop variable once more.
\<close>

partial_function (option) link_tot_len_loop :: "addr \<Rightarrow> u16 \<Rightarrow> pb_state \<Rightarrow> (addr \<times> pb_state) option" where
  "link_tot_len_loop p n b =
     (if p \<noteq> NULL then do {
        c \<leftarrow> getp p b;
        link_tot_len_loop (pb_next c) n (putp p (c\<lparr>pb_tot_len := pb_tot_len c + n\<rparr>) b)
      } else Some (p, b))"

definition HAL_ETH_RxLinkCallback :: "addr \<Rightarrow> addr \<Rightarrow> addr \<Rightarrow> u16 \<Rightarrow> pb_state \<Rightarrow> (addr \<times> addr \<times> pb_state) option" where
  "HAL_ETH_RxLinkCallback pStart pEnd buff Length b =
     (let actual_buff = buff - ETH_PAD_SIZE; p = actual_buff - RxBuff_buff in
      do {
        c \<leftarrow> getp p b;
        let b = putp p (c\<lparr>pb_next := NULL, pb_tot_len := 0, pb_len := Length\<rparr>) b;
        (pStart, b) \<leftarrow> (if pStart = NULL then Some (p, b)
                         else do { e \<leftarrow> getp pEnd b; Some (pStart, putp pEnd (e\<lparr>pb_next := p\<rparr>) b) });
        let pEnd = p;
        (p, b) \<leftarrow> link_tot_len_loop pStart Length b;
        c \<leftarrow> getp p b;
        Some (pStart, pEnd, putp p (c\<lparr>pb_payload := pb_payload c + 2\<rparr>) b)
      })"

section \<open>Start of the receiver\<close>

text \<open>Tables, pool and indices as \<open>low_level_init\<close> sets them up.\<close>

definition desc_zero :: dma_desc where "desc_zero = \<lparr>DESC0 = 0, DESC1 = 0, DESC2 = 0, DESC3 = 0\<rparr>"

definition low_level_init_tables :: "eth_state \<Rightarrow> eth_state" where
  "low_level_init_tables s =
     (let s = s\<lparr>DMARxDscrTab := (\<lambda>i. if i < ETH_RX_DESC_CNT then desc_zero else DMARxDscrTab s i),
                DMATxDscrTab := (\<lambda>i. if i < ETH_TX_DESC_CNT then desc_zero else DMATxDscrTab s i)\<rparr>;
          s = s\<lparr>rx_pool := memp_init_pool memp_RX_POOL (rx_pool s)\<rparr> in
      s\<lparr>RxDescIdx := 0, RxBuildDescIdx := 0, RxBuildDescCnt := 0, CurTxDesc := 0\<rparr>)"

text \<open>The link thread, when the link comes up: every descriptor gets a buffer, as far as there are any.\<close>

definition arm_one :: "nat \<Rightarrow> eth_state \<Rightarrow> eth_state" where
  "arm_one i s =
     (let (ptr, s) = HAL_ETH_RxAllocateCallback s in
      if ptr \<noteq> NULL then
        (let s = arm_descriptor i ptr rx_ready_flags s in
         s\<lparr>RxBuildDescCnt := RxBuildDescCnt s + 1, RxBuildDescIdx := next_rx (RxBuildDescIdx s)\<rparr>)
      else s)"

definition link_up_rx :: "eth_state \<Rightarrow> eth_state" where
  "link_up_rx s =
     (let s = s\<lparr>RxDescIdx := 0, RxBuildDescIdx := 0, RxBuildDescCnt := 0\<rparr>;
          s = foldl (\<lambda>s i. arm_one i s) s [0..<ETH_RX_DESC_CNT];
          s = s\<lparr>CurTxDesc := 0\<rparr> in
      s\<lparr>DMACRDTPR := of_nat (DMARxDscrTab_addr + ETH_RX_DESC_CNT * sizeof_desc),
        DMACTDTPR := of_nat (DMATxDscrTab_addr + ETH_TX_DESC_CNT * sizeof_desc)\<rparr>)"

text \<open>
  \<open>ethernetif_rebuild_rx_descriptors\<close>, which the driver keeps but does not call: refilling descriptors from
  the build index on.
\<close>

partial_function (option) rebuild_loop :: "nat \<Rightarrow> eth_state \<Rightarrow> eth_state option" where
  "rebuild_loop idx s =
     (let d3 = DESC3 (DMARxDscrTab s idx) in
      if own_bit d3 then Some s
      else if ctxt_bit d3 then
        (let (ptr, s) = HAL_ETH_RxAllocateCallback s;
             s = (if ptr \<noteq> NULL then
                    (let s = arm_descriptor idx ptr rx_ready_flags s in
                     s\<lparr>RxBuildDescCnt := RxBuildDescCnt s + 1, RxBuildDescIdx := next_rx idx\<rparr>)
                  else s);
             idx = next_rx idx in
         if idx = RxBuildDescIdx s then Some s else rebuild_loop idx s)
      else
        (let (ptr, s) = HAL_ETH_RxAllocateCallback s in
         if ptr \<noteq> NULL then
           (let s = arm_descriptor idx ptr (0x80000000 OR 0x01000000) s;
                s = count_built s;
                s = s\<lparr>RxBuildDescIdx := next_rx idx\<rparr>;
                idx = next_rx idx in
            if idx = RxBuildDescIdx s then Some s else rebuild_loop idx s)
         else Some (s\<lparr>RxAllocStatus := RX_ALLOC_ERROR\<rparr>)))"

definition ethernetif_rebuild_rx_descriptors :: "eth_state \<Rightarrow> eth_state option" where
  "ethernetif_rebuild_rx_descriptors s =
     do { s \<leftarrow> rebuild_loop (RxBuildDescIdx s) s; Some (stm32h7_eth_kick_rx_dma s) }"

section \<open>The link thread\<close>

datatype eth_speed = ETH_SPEED_10M | ETH_SPEED_100M
datatype eth_duplex = ETH_HALFDUPLEX_MODE | ETH_FULLDUPLEX_MODE

text \<open>The mode for the MAC from the result of \<open>LAN8742_GetLinkState\<close>.\<close>

definition link_config :: "int \<Rightarrow> eth_speed \<times> eth_duplex" where
  "link_config linkState =
     (if linkState = STATUS_100MBITS_FULLDUPLEX then (ETH_SPEED_100M, ETH_FULLDUPLEX_MODE)
      else if linkState = STATUS_100MBITS_HALFDUPLEX then (ETH_SPEED_100M, ETH_HALFDUPLEX_MODE)
      else if linkState = STATUS_10MBITS_FULLDUPLEX then (ETH_SPEED_10M, ETH_FULLDUPLEX_MODE)
      else if linkState = STATUS_10MBITS_HALFDUPLEX then (ETH_SPEED_10M, ETH_HALFDUPLEX_MODE)
      else if linkState = STATUS_AUTONEGO_NOTDONE then (ETH_SPEED_100M, ETH_FULLDUPLEX_MODE)
      else (ETH_SPEED_100M, ETH_FULLDUPLEX_MODE))"

record eth_link =
  lk_eth :: eth_state
  lk_link_up :: bool
  lk_netif_up :: bool
  lk_mac :: "eth_speed \<times> eth_duplex"
  lk_started :: bool

text \<open>
  One round of \<open>ethernet_link_thread\<close>, for what the PHY reports in its status register and, when the link
  comes up, for the link state; \<open>stop\<close> is \<open>HAL_ETH_Stop_IT\<close>.
\<close>

definition ethernet_link_thread :: "(eth_state \<Rightarrow> eth_state) \<Rightarrow> u32 \<Rightarrow> int \<Rightarrow> eth_link \<Rightarrow> eth_link" where
  "ethernet_link_thread stop bsr linkState l =
     (if bsr AND 0x0004 \<noteq> 0 then
        (if \<not> lk_link_up l then
           (let l = l\<lparr>lk_mac := link_config linkState\<rparr>;
                l = l\<lparr>lk_eth := link_up_rx (lk_eth l), lk_started := True\<rparr> in
            l\<lparr>lk_netif_up := True, lk_link_up := True\<rparr>)
         else l)
      else
        (if lk_link_up l then l\<lparr>lk_eth := stop (lk_eth l), lk_link_up := False, lk_netif_up := False\<rparr> else l))"

section \<open>Transmission\<close>

text \<open>The pbufs of the frame are copied one after the other into the bounce buffer.\<close>

partial_function (option) tx_copy_loop :: "addr \<Rightarrow> nat \<Rightarrow> pb_state \<Rightarrow> (nat \<times> pb_state) option" where
  "tx_copy_loop q total_len b =
     (if q \<noteq> NULL then do {
        c \<leftarrow> getp q b;
        let b = memcpy (ETH_TX_BUFFER_ADDR + total_len) (pb_payload c) (unat (pb_len c)) b;
        tx_copy_loop (pb_next c) (total_len + unat (pb_len c)) b
      } else Some (total_len, b))"

text \<open>
  The loops that wait for the DMA to give the descriptor back. \<open>own k\<close> is the ownership bit as it is read the
  \<open>k\<close>-th time; the result is the value of \<open>timeout\<close> behind the loop.
\<close>

fun tx_wait :: "nat \<Rightarrow> (nat \<Rightarrow> bool) \<Rightarrow> nat \<Rightarrow> nat" where
  "tx_wait 0 own k = 0"
| "tx_wait (Suc timeout) own k = (if own k then tx_wait timeout own (k + 1) else Suc timeout)"

definition memset0 :: "addr \<Rightarrow> nat \<Rightarrow> pb_state \<Rightarrow> pb_state" where
  "memset0 a n b = b\<lparr>bytes := (\<lambda>x. if a \<le> x \<and> x < a + n then 0 else bytes b x)\<rparr>"

text \<open>From the padding of short frames to the end of the wait for completion.\<close>

definition tx_send :: "(nat \<Rightarrow> bool) \<Rightarrow> nat \<Rightarrow> pb_state \<Rightarrow> eth_state \<Rightarrow> err_t \<times> pb_state \<times> eth_state" where
  "tx_send own total_len b s =
     (let (tx_len, b) = (if total_len < 60 then (60, memset0 (ETH_TX_BUFFER_ADDR + total_len) (60 - total_len) b)
                         else (total_len, b));
          idx = tx_desc_idx s;
          s = s\<lparr>DMATxDscrTab := (DMATxDscrTab s)(idx :=
                 \<lparr>DESC0 = of_nat ETH_TX_BUFFER_ADDR, DESC1 = 0, DESC2 = of_nat tx_len AND 0x3FFF,
                  DESC3 = 0x80000000 OR 0x30000000 OR 0x04000000\<rparr>)\<rparr>;
          next_desc_idx = (idx + 1) mod ETH_TX_DESC_CNT;
          s = s\<lparr>DMACTDTPR := of_nat (DMATxDscrTab_addr + next_desc_idx * sizeof_desc)\<rparr>;
          errval = (if tx_wait 10000 own 0 = 0 then ERR_TIMEOUT else ERR_OK) in
      (errval, b, s\<lparr>tx_desc_idx := next_desc_idx, CurTxDesc := next_desc_idx\<rparr>))"

text \<open>
  \<open>low_level_output\<close>; \<open>own1\<close> and \<open>own2\<close> are the ownership bits that its two wait loops read, before and after
  the frame is handed over.
\<close>

definition low_level_output :: "(nat \<Rightarrow> bool) \<Rightarrow> (nat \<Rightarrow> bool) \<Rightarrow> addr \<Rightarrow> eth_state \<Rightarrow> (err_t \<times> eth_state) option" where
  "low_level_output own1 own2 p s =
     do {
       c \<leftarrow> getp p (pbs s);
       if unat (pb_tot_len c) > ETH_TX_BUFFER_MAX_SIZE then Some (ERR_BUF, s)
       else do {
         (_, b) \<leftarrow> pbuf_header p (- of_nat ETH_PAD_SIZE) (pbs s);
         (total_len, b) \<leftarrow> tx_copy_loop p 0 b;
         let s = s\<lparr>TxConfig_Length := of_nat total_len, TxConfig_pData := p\<rparr>;
         b \<leftarrow> pbuf_ref p b;
         let (errval, b, s) = (if tx_wait 1000 own1 0 = 0 then (ERR_TIMEOUT, b, s) else tx_send own2 total_len b s);
         (_, b) \<leftarrow> pbuf_header p (of_nat ETH_PAD_SIZE) b;
         s \<leftarrow> eth_pbuf_free p (s\<lparr>pbs := b\<rparr>);
         Some (errval, s)
       }
     }"

section \<open>The receive pool\<close>

lemma rx_pool_wf: "wf_desc memp_RX_POOL"
  by (simp add: wf_desc_def memp_RX_POOL_def const_defs LWIP_MEM_ALIGN_SIZE_def)

lemma rx_pool_num [simp]: "md_num memp_RX_POOL = 64" "md_size memp_RX_POOL = 1568" "pool_elem memp_RX_POOL i = 0x30000600 + i * 1568"
  by (simp_all add: memp_RX_POOL_def pool_elem_def const_defs LWIP_MEM_ALIGN_SIZE_def)

definition rx_elems :: "addr set" where "rx_elems = pool_elems memp_RX_POOL"

lemma rx_elems_bounds: "p \<in> rx_elems \<Longrightarrow> 0x30000600 \<le> p \<and> p + 1568 \<le> 0x30018E00 \<and> 32 dvd p"
  by (auto simp: rx_elems_def pool_elems_def)

lemma rx_ptr: "p \<in> rx_elems \<Longrightarrow> unat (of_nat (p + 26) :: u32) = p + 26"
  using rx_elems_bounds [of p] by (intro unat_of_nat_id) simp

lemma malloc_pool_some [simp]: "memp_malloc_pool (Some d) = do_memp_malloc_pool"
  by (auto simp: memp_malloc_pool_def)

text \<open>The pbuf that a receive buffer becomes.\<close>

definition rx_pbuf :: "addr \<Rightarrow> u16 \<Rightarrow> pbuf" where
  "rx_pbuf p n = \<lparr>pb_next = NULL, pb_payload = p + 24, pb_tot_len = n, pb_len = n, pb_type_internal = 0x41,
     pb_flags = PBUF_FLAG_IS_CUSTOM, pb_ref = 1, pb_if_idx = 0\<rparr>"

lemma alloced_custom_rx:
  "pbuf_alloced_custom 0 n PBUF_REF p (p + 24) 1536 b =
     (if unat n \<le> 1536 then (p, putp p (rx_pbuf p n) b) else (NULL, b))"
proof -
  have "(ucast (0x41 :: u16) :: u8) = 0x41" by simp
  then show ?thesis
    by (simp add: pbuf_alloced_custom_def pbuf_init_alloced_pbuf_def rx_pbuf_def LWIP_MEM_ALIGN_SIZE_def const_defs
        pbuf_type_bits_def)
qed

lemma rx_alloc_ok:
  assumes inv: "pool_inv memp_RX_POOL (rx_pool s) A" and A: "A \<noteq> rx_elems"
  obtains p pool where "HAL_ETH_RxAllocateCallback s =
      (p + 26, s\<lparr>rx_pool := pool, rx_custom_fn := (rx_custom_fn s)(p := True), pbs := putp p (rx_pbuf p 0) (pbs s)\<rparr>)"
    "p \<in> rx_elems" "p \<notin> A" "pool_inv memp_RX_POOL pool (insert p A)"
proof -
  obtain p pool where m: "do_memp_malloc_pool (rx_pool s) = (p, pool)" by (cases "do_memp_malloc_pool (rx_pool s)")
  have p: "p \<noteq> NULL" using memp.alloc_iff [OF inv] A m by (simp add: rx_elems_def)
  have "p \<in> rx_elems" "p \<notin> A" "pool_inv memp_RX_POOL pool (insert p A)"
    using memp.alloc_ok [OF inv m p] by (auto simp: rx_elems_def)
  moreover have "HAL_ETH_RxAllocateCallback s =
      (p + 26, s\<lparr>rx_pool := pool, rx_custom_fn := (rx_custom_fn s)(p := True), pbs := putp p (rx_pbuf p 0) (pbs s)\<rparr>)"
    using m p by (simp add: HAL_ETH_RxAllocateCallback_def Let_def const_defs alloced_custom_rx)
  ultimately show thesis using that by blast
qed

lemma rx_alloc_fail:
  assumes inv: "pool_inv memp_RX_POOL (rx_pool s) rx_elems"
  obtains pool where "HAL_ETH_RxAllocateCallback s = (NULL, s\<lparr>rx_pool := pool, RxAllocStatus := RX_ALLOC_ERROR\<rparr>)"
    "pool_inv memp_RX_POOL pool rx_elems"
proof -
  obtain p pool where m: "do_memp_malloc_pool (rx_pool s) = (p, pool)" by (cases "do_memp_malloc_pool (rx_pool s)")
  then have "p = NULL" using memp.alloc_iff [OF inv] by (simp add: rx_elems_def)
  then show thesis using that [of pool] m memp.alloc_fail [OF inv, of pool]
    by (simp add: HAL_ETH_RxAllocateCallback_def)
qed

section \<open>Who owns a receive buffer\<close>

definition rx_owner :: "eth_state \<Rightarrow> nat \<Rightarrow> addr" where
  "rx_owner s i = unat (DMARxDscrBackup s i) - 26"

definition rx_ring :: "eth_state \<Rightarrow> addr set" where
  "rx_ring s = rx_owner s ` {..<16}"

definition cpu_owned :: "eth_state \<Rightarrow> nat set" where
  "cpu_owned s = {i. i < 16 \<and> \<not> own_bit (DESC3 (DMARxDscrTab s i))}"

text \<open>
  Every descriptor has a buffer of its own, which the DMA uses as long as it owns the descriptor. The
  other outstanding buffers are \<open>H\<close>, held by the stack, and \<open>K\<close>, held by nobody.
\<close>

definition rx_inv :: "eth_state \<Rightarrow> addr set \<Rightarrow> addr set \<Rightarrow> bool" where
  "rx_inv s H K \<longleftrightarrow> RxDescIdx s < 16 \<and> (\<forall>i<16. \<exists>p\<in>rx_elems. DMARxDscrBackup s i = of_nat (p + 26)) \<and>
     (\<forall>i<16. own_bit (DESC3 (DMARxDscrTab s i)) \<longrightarrow> DESC0 (DMARxDscrTab s i) = DMARxDscrBackup s i) \<and>
     inj_on (rx_owner s) {..<16} \<and> rx_ring s \<inter> H = {} \<and> rx_ring s \<inter> K = {} \<and> H \<inter> K = {} \<and>
     pool_inv memp_RX_POOL (rx_pool s) (rx_ring s \<union> H \<union> K)"


lemma rx_card: "rx_inv s H K \<Longrightarrow> card (rx_ring s \<union> H \<union> K) = 16 + card H + card K"
proof -
  assume inv: "rx_inv s H K"
  have "finite (rx_ring s \<union> H \<union> K)" using inv pool_inv_finite by (auto simp: rx_inv_def)
  moreover have "card (rx_ring s) = 16" using inv by (simp add: rx_ring_def rx_inv_def card_image)
  moreover have "(rx_ring s \<union> H) \<inter> K = {}" "rx_ring s \<inter> H = {}" using inv by (auto simp: rx_inv_def)
  ultimately show ?thesis by (simp add: card_Un_disjoint)
qed



lemma next_rx_less [simp]: "next_rx i < 16"
  by (simp add: next_rx_def const_defs)

lemma kick_simps [simp]:
  "DMARxDscrBackup (stm32h7_eth_kick_rx_dma s) = DMARxDscrBackup s" "DMARxDscrTab (stm32h7_eth_kick_rx_dma s) = DMARxDscrTab s"
  "RxDescIdx (stm32h7_eth_kick_rx_dma s) = RxDescIdx s" "rx_pool (stm32h7_eth_kick_rx_dma s) = rx_pool s"
  "pbs (stm32h7_eth_kick_rx_dma s) = pbs s" "RxAllocStatus (stm32h7_eth_kick_rx_dma s) = RxAllocStatus s"
  "rx_custom_fn (stm32h7_eth_kick_rx_dma s) = rx_custom_fn s"
  by (simp_all add: stm32h7_eth_kick_rx_dma_def Let_def)

lemma count_built_simps [simp]:
  "DMARxDscrBackup (count_built s) = DMARxDscrBackup s" "DMARxDscrTab (count_built s) = DMARxDscrTab s"
  "RxDescIdx (count_built s) = RxDescIdx s" "rx_pool (count_built s) = rx_pool s" "pbs (count_built s) = pbs s"
  "RxAllocStatus (count_built s) = RxAllocStatus s" "rx_custom_fn (count_built s) = rx_custom_fn s"
  by (simp_all add: count_built_def)

lemma arm_simps [simp]:
  "DMARxDscrBackup (arm_descriptor i q f s) = (DMARxDscrBackup s)(i := of_nat q)"
  "DMARxDscrTab (arm_descriptor i q f s) =
     (DMARxDscrTab s)(i := (DMARxDscrTab s i)\<lparr>DESC0 := of_nat q, DESC2 := of_nat RxBuffLen AND 0x3FFF, DESC3 := f\<rparr>)"
  "RxDescIdx (arm_descriptor i q f s) = RxDescIdx s" "rx_pool (arm_descriptor i q f s) = rx_pool s"
  "pbs (arm_descriptor i q f s) = pbs s" "RxAllocStatus (arm_descriptor i q f s) = RxAllocStatus s"
  "rx_custom_fn (arm_descriptor i q f s) = rx_custom_fn s"
  by (simp_all add: arm_descriptor_def Let_def)

lemma ready_owned [simp]: "own_bit rx_ready_flags"
  by (simp add: own_bit_def rx_ready_flags_def)







text \<open>When a buffer comes back after an allocation failed, the receive thread is woken.\<close>

lemma pbuf_free_custom_wakes:
  "RxAllocStatus s = RX_ALLOC_ERROR \<Longrightarrow>
     RxPktSemaphore (pbuf_free_custom p s) = RxPktSemaphore s + 1 \<and> RxAllocStatus (pbuf_free_custom p s) = RX_ALLOC_OK"
  by (simp add: pbuf_free_custom_def Let_def sys_sem_signal_rx_def)

section \<open>The pool exhausted\<close>

lemma take_frame_fail:
  assumes ex: "pool_inv memp_RX_POOL (rx_pool s) rx_elems" and b: "DMARxDscrBackup s i = of_nat (p + 26)" "p \<in> rx_elems"
    and n: "unat (frame_len (DESC3 (DMARxDscrTab s i))) + 2 \<le> 1536"
  obtains s' where "take_frame i s = (p, s')" "DMARxDscrTab s' = DMARxDscrTab s" "DMARxDscrBackup s' = DMARxDscrBackup s"
    "pool_inv memp_RX_POOL (rx_pool s') rx_elems" "RxDescIdx s' = next_rx i"
proof -
  let ?l = "ucast (frame_len (DESC3 (DMARxDscrTab s i)) + 2) :: u16"
  have "unat (frame_len (DESC3 (DMARxDscrTab s i)) + 2) = unat (frame_len (DESC3 (DMARxDscrTab s i))) + 2"
    using n by (subst unat_add_no_wrap) simp_all
  then have l: "unat ?l \<le> 1536" using n by (simp add: unat_ucast_id)
  have pm: "unat (DMARxDscrBackup s i) - 2 = p + 24" "stm32h7_get_pbuf_from_buff (p + 24) = p"
    using rx_ptr [OF b(2)] by (simp_all add: b(1) stm32h7_get_pbuf_from_buff_def const_defs)
  let ?s = "s\<lparr>rx_custom_fn := (rx_custom_fn s)(p := True), pbs := putp p (rx_pbuf p ?l) (pbs s)\<rparr>"
  obtain pool where a: "HAL_ETH_RxAllocateCallback ?s = (NULL, ?s\<lparr>rx_pool := pool, RxAllocStatus := RX_ALLOC_ERROR\<rparr>)"
    "pool_inv memp_RX_POOL pool rx_elems" using rx_alloc_fail [of ?s] ex by auto
  let ?t = "?s\<lparr>rx_pool := pool, RxAllocStatus := RX_ALLOC_ERROR, RxDescIdx := next_rx i\<rparr>"
  have "take_frame i s = (p, ?s\<lparr>rx_pool := pool, RxAllocStatus := RX_ALLOC_ERROR, RxDescIdx := next_rx i\<rparr>)"
    unfolding take_frame_def ETH_PAD_SIZE_def ETH_RX_BUFFER_SIZE_def Let_def pm
    using a(1) l by (simp add: alloced_custom_rx pm)
  then show thesis using a(2) by (intro that [of ?t]) simp_all
qed

text \<open>A descriptor that has to be recycled cannot be while the pool is exhausted.\<close>

definition rx_stuck :: "eth_state \<Rightarrow> bool" where
  "rx_stuck s \<longleftrightarrow> pool_inv memp_RX_POOL (rx_pool s) rx_elems \<and>
     (let d3 = DESC3 (DMARxDscrTab s (RxDescIdx s)) in \<not> own_bit d3 \<and> (ctxt_bit d3 \<or> \<not> whole_frame d3))"

lemma recycle_stuck:
  assumes "rx_stuck s"
  shows "rx_stuck (stm32h7_recycle_rx_descriptor (RxDescIdx s) s)"
proof -
  have "pool_inv memp_RX_POOL (rx_pool s) rx_elems" using assms by (simp add: rx_stuck_def)
  from rx_alloc_fail [OF this] obtain pool where
    "HAL_ETH_RxAllocateCallback s = (NULL, s\<lparr>rx_pool := pool, RxAllocStatus := RX_ALLOC_ERROR\<rparr>)" "pool_inv memp_RX_POOL pool rx_elems" .
  then show ?thesis using assms by (simp add: rx_stuck_def stm32h7_recycle_rx_descriptor_def)
qed

lemma low_level_input_stuck:
  assumes "low_level_input s = Some r"
  shows "\<not> rx_stuck s"
proof (rule low_level_input.raw_induct [where P = "\<lambda>s r. \<not> rx_stuck s", OF _ assms])
  fix f s r
  assume IH: "\<And>t r. f t = Some r \<Longrightarrow> \<not> rx_stuck t"
    and f: "(let idx = RxDescIdx s; d3 = DESC3 (DMARxDscrTab s idx) in
      if own_bit d3 then Some (NULL, s)
      else if ctxt_bit d3 then f (stm32h7_recycle_rx_descriptor idx s)
      else if whole_frame d3 then (if DMARxDscrBackup s idx \<noteq> 0 then Some (take_frame idx s) else f s)
      else f (stm32h7_recycle_rx_descriptor idx s)) = Some r"
  show "\<not> rx_stuck s"
  proof
    assume st: "rx_stuck s"
    then have "f (stm32h7_recycle_rx_descriptor (RxDescIdx s) s) = Some r"
      using f by (auto simp: rx_stuck_def Let_def split: if_splits)
    then show False using IH recycle_stuck [OF st] by blast
  qed
qed
section \<open>Link up\<close>

lemma arm_one_ok:
  assumes "pool_inv memp_RX_POOL (rx_pool s) A" and "A \<noteq> rx_elems"
  obtains p where "p \<in> rx_elems" "p \<notin> A" "pool_inv memp_RX_POOL (rx_pool (arm_one n s)) (insert p A)"
    "DMARxDscrBackup (arm_one n s) = (DMARxDscrBackup s)(n := of_nat (p + 26))" "RxDescIdx (arm_one n s) = RxDescIdx s"
    "bytes (pbs (arm_one n s)) = bytes (pbs s)" "\<forall>i. i \<noteq> n \<longrightarrow> DMARxDscrTab (arm_one n s) i = DMARxDscrTab s i"
    "DESC0 (DMARxDscrTab (arm_one n s) n) = of_nat (p + 26)" "own_bit (DESC3 (DMARxDscrTab (arm_one n s) n))"
proof -
  from rx_alloc_ok [OF assms] obtain p pool where a: "HAL_ETH_RxAllocateCallback s =
      (p + 26, s\<lparr>rx_pool := pool, rx_custom_fn := (rx_custom_fn s)(p := True), pbs := putp p (rx_pbuf p 0) (pbs s)\<rparr>)"
    and p: "p \<in> rx_elems" "p \<notin> A" "pool_inv memp_RX_POOL pool (insert p A)" .
  show thesis by (rule that [of p]) (use p in \<open>simp_all add: arm_one_def a Let_def putp_def\<close>)
qed

lemma arm_all_ok:
  assumes "pool_inv memp_RX_POOL (rx_pool s) A" and "card A + n \<le> 64"
  defines "s' \<equiv> foldl (\<lambda>s i. arm_one i s) s [0..<n]"
  shows "\<exists>P. inj_on P {..<n} \<and> P ` {..<n} \<subseteq> rx_elems \<and> P ` {..<n} \<inter> A = {} \<and>
    (\<forall>i<n. DMARxDscrBackup s' i = of_nat (P i + 26) \<and> DESC0 (DMARxDscrTab s' i) = of_nat (P i + 26) \<and>
      own_bit (DESC3 (DMARxDscrTab s' i))) \<and>
    pool_inv memp_RX_POOL (rx_pool s') (A \<union> P ` {..<n}) \<and> RxDescIdx s' = RxDescIdx s \<and> bytes (pbs s') = bytes (pbs s)"
  using assms(2) unfolding s'_def
proof (induction n)
  case 0
  then show ?case using assms(1) by simp
next
  case (Suc n)
  let ?s = "foldl (\<lambda>s i. arm_one i s) s [0..<n]"
  from Suc obtain P where P: "inj_on P {..<n}" "P ` {..<n} \<subseteq> rx_elems" "P ` {..<n} \<inter> A = {}"
    "\<forall>i<n. DMARxDscrBackup ?s i = of_nat (P i + 26) \<and> DESC0 (DMARxDscrTab ?s i) = of_nat (P i + 26) \<and> own_bit (DESC3 (DMARxDscrTab ?s i))"
    "pool_inv memp_RX_POOL (rx_pool ?s) (A \<union> P ` {..<n})" "RxDescIdx ?s = RxDescIdx s" "bytes (pbs ?s) = bytes (pbs s)" by auto
  have "finite A" using pool_inv_finite [OF assms(1)] .
  then have "card (A \<union> P ` {..<n}) = card A + n" using P(1,3) by (subst card_Un_disjoint) (auto simp: card_image)
  then have "A \<union> P ` {..<n} \<noteq> rx_elems" using Suc.prems card_pool_elems [OF rx_pool_wf] by (auto simp: rx_elems_def)
  from arm_one_ok [OF P(5) this, of n] obtain p where p: "p \<in> rx_elems" "p \<notin> A \<union> P ` {..<n}"
      "pool_inv memp_RX_POOL (rx_pool (arm_one n ?s)) (insert p (A \<union> P ` {..<n}))"
    and f: "DMARxDscrBackup (arm_one n ?s) = (DMARxDscrBackup ?s)(n := of_nat (p + 26))" "RxDescIdx (arm_one n ?s) = RxDescIdx ?s"
    "bytes (pbs (arm_one n ?s)) = bytes (pbs ?s)" "\<forall>i. i \<noteq> n \<longrightarrow> DMARxDscrTab (arm_one n ?s) i = DMARxDscrTab ?s i"
    "DESC0 (DMARxDscrTab (arm_one n ?s) n) = of_nat (p + 26)" "own_bit (DESC3 (DMARxDscrTab (arm_one n ?s) n))" .
  let ?Q = "P(n := p)"
  have Q: "?Q ` {..<Suc n} = insert p (P ` {..<n})" by (auto simp: lessThan_Suc)
  show ?case
  proof (intro exI [of _ ?Q] conjI)
    show "inj_on ?Q {..<Suc n}" using P(1) p(2) by (auto simp: lessThan_Suc inj_on_def)
    show "?Q ` {..<Suc n} \<subseteq> rx_elems" "?Q ` {..<Suc n} \<inter> A = {}" unfolding Q using P(2,3) p(1,2) by auto
    show "pool_inv memp_RX_POOL (rx_pool (foldl (\<lambda>s i. arm_one i s) s [0..<Suc n])) (A \<union> ?Q ` {..<Suc n})"
      unfolding Q using p(3) by simp
  qed (use P f in \<open>auto simp: less_Suc_eq\<close>)
qed

text \<open>
  The link thread gives every descriptor a new buffer. The buffers that the descriptors had before are
  not given back.
\<close>

lemma link_up_rx_inv:
  assumes "pool_inv memp_RX_POOL (rx_pool s) (H \<union> K)" and "H \<inter> K = {}" and "card (H \<union> K) + 16 \<le> 64"
  shows "rx_inv (link_up_rx s) H K" and "cpu_owned (link_up_rx s) = {}" and "bytes (pbs (link_up_rx s)) = bytes (pbs s)"
proof -
  let ?s = "s\<lparr>RxDescIdx := 0, RxBuildDescIdx := 0, RxBuildDescCnt := 0\<rparr>"
  let ?t = "foldl (\<lambda>s i. arm_one i s) ?s [0..<16]"
  have f: "DMARxDscrBackup (link_up_rx s) = DMARxDscrBackup ?t" "DMARxDscrTab (link_up_rx s) = DMARxDscrTab ?t"
    "RxDescIdx (link_up_rx s) = RxDescIdx ?t" "rx_pool (link_up_rx s) = rx_pool ?t" "pbs (link_up_rx s) = pbs ?t"
    by (simp_all add: link_up_rx_def Let_def ETH_RX_DESC_CNT_def)
  obtain P where P: "inj_on P {..<16}" "P ` {..<16} \<subseteq> rx_elems" "P ` {..<16} \<inter> (H \<union> K) = {}"
    "\<forall>i<16. DMARxDscrBackup ?t i = of_nat (P i + 26) \<and> DESC0 (DMARxDscrTab ?t i) = of_nat (P i + 26) \<and> own_bit (DESC3 (DMARxDscrTab ?t i))"
    "pool_inv memp_RX_POOL (rx_pool ?t) (H \<union> K \<union> P ` {..<16})" "RxDescIdx ?t = 0" "bytes (pbs ?t) = bytes (pbs s)"
    using arm_all_ok [of ?s "H \<union> K" 16] assms(1,3) by auto
  have ow: "rx_owner (link_up_rx s) i = P i" if "i < 16" for i
    using P(2,4) that rx_ptr [of "P i"] by (auto simp: rx_owner_def f(1))
  then have ring: "rx_ring (link_up_rx s) = P ` {..<16}" by (auto simp: rx_ring_def)
  have "inj_on (rx_owner (link_up_rx s)) {..<16}" using P(1) ow by (auto simp: inj_on_def)
  moreover have "H \<union> K \<union> P ` {..<16} = P ` {..<16} \<union> H \<union> K" by auto
  ultimately show "rx_inv (link_up_rx s) H K"
    unfolding rx_inv_def ring f using P assms(2) by (auto simp: image_subset_iff)
  show "cpu_owned (link_up_rx s) = {}" using P(4) by (auto simp: cpu_owned_def f(2))
  show "bytes (pbs (link_up_rx s)) = bytes (pbs s)" using P(7) f(5) by simp
qed


section \<open>The receive path as a state machine\<close>

text \<open>
  The states that the receive path goes through, with the set of buffers that the stack holds. The DMA
  engine writes a frame into the buffer of a descriptor it owns and gives the descriptor back with
  any status; the receive thread runs \<open>low_level_input\<close> while there are free buffers for the
  descriptors that came back; the stack releases a buffer.
\<close>

inductive rx_reach :: "eth_state \<Rightarrow> addr set \<Rightarrow> bool" where
  rx_start: "mp_stats (rx_pool s) = stats_mem_zero \<Longrightarrow> rx_reach (link_up_rx (low_level_init_tables s)) {}"
| rx_dma: "rx_reach s H \<Longrightarrow> i < 16 \<Longrightarrow> own_bit (DESC3 (DMARxDscrTab s i)) \<Longrightarrow> \<not> own_bit (DESC3 d) \<Longrightarrow>
    (\<forall>a. a < unat (DESC0 (DMARxDscrTab s i)) \<or> unat (DESC0 (DMARxDscrTab s i)) + RxBuffLen \<le> a \<longrightarrow> m a = bytes (pbs s) a) \<Longrightarrow>
    rx_reach (s\<lparr>DMARxDscrTab := (DMARxDscrTab s)(i := d), pbs := (pbs s)\<lparr>bytes := m\<rparr>\<rparr>) H"
| rx_recv: "rx_reach s H \<Longrightarrow> unat (st_used (mp_stats (rx_pool s))) + card (cpu_owned s) \<le> 64 \<Longrightarrow>
    low_level_input s = Some (p, s') \<Longrightarrow> rx_reach s' (if p = NULL then H else insert p H)"
| rx_release: "rx_reach s H \<Longrightarrow> p \<in> H \<Longrightarrow> rx_reach (pbuf_free_custom p s) (H - {p})"




section \<open>Linking callback\<close>

lemma link_loop_NULL:
  assumes "link_tot_len_loop p n b = Some r"
  shows "fst r = NULL"
  by (rule link_tot_len_loop.raw_induct [where P = "\<lambda>p n b r. fst r = NULL", OF _ assms])
    (auto split: if_splits bind_splits)
section \<open>Properties of reception\<close>


text \<open>A state after the start, with one frame received.\<close>

definition demo_eth :: eth_state where
  "demo_eth = \<lparr>DMARxDscrTab = (\<lambda>_. desc_zero), DMATxDscrTab = (\<lambda>_. desc_zero), DMARxDscrBackup = (\<lambda>_. 0), RxDescIdx = 0,
     RxBuildDescIdx = 0, RxBuildDescCnt = 0, RxAllocStatus = RX_ALLOC_OK, rx_pool = memp_pool_zero, rx_custom_fn = (\<lambda>_. False),
     pbs = demo_pb, RxPktSemaphore = 1, TxPktSemaphore = 0, EthIrqCount = 0, RxIrqCount = 0, DMACSR = 0, DMACRDTPR = 0,
     poll_demand = 0, DMACTDTPR = 0, tx_desc_idx = 0, CurTxDesc = 0, TxConfig_Length = 0, TxConfig_pData = 0\<rparr>"

abbreviation demo_started :: eth_state where "demo_started \<equiv> link_up_rx (low_level_init_tables demo_eth)"

definition demo_desc_done :: dma_desc where "demo_desc_done = \<lparr>DESC0 = 0, DESC1 = 0, DESC2 = 0, DESC3 = 0x30000064\<rparr>"


lemma demo_started_ok: "rx_reach demo_started {}" "rx_inv demo_started {} {}" "cpu_owned demo_started = {}" "RxDescIdx demo_started = 0"
proof -
  have "pool_inv memp_RX_POOL (memp_init_pool memp_RX_POOL memp_pool_zero) {}"
    by (rule memp_init_pool_inv [OF rx_pool_wf]) (simp add: memp_pool_zero_def)
  then have p: "pool_inv memp_RX_POOL (rx_pool (low_level_init_tables demo_eth)) ({} \<union> {})"
    by (simp add: low_level_init_tables_def Let_def demo_eth_def)
  show "rx_reach demo_started {}" by (rule rx_start) (simp add: demo_eth_def memp_pool_zero_def)
  show "rx_inv demo_started {} {}" "cpu_owned demo_started = {}" using link_up_rx_inv [OF p] by simp_all
  have "RxDescIdx (foldl (\<lambda>s i. arm_one i s) s [0..<16]) = RxDescIdx s" if "pool_inv memp_RX_POOL (rx_pool s) {}" for s
    using arm_all_ok [OF that, of 16] by auto
  then show "RxDescIdx demo_started = 0" using p by (simp add: link_up_rx_def Let_def ETH_RX_DESC_CNT_def)
qed

lemma demo_done_bits: "\<not> own_bit (DESC3 demo_desc_done)" "\<not> ctxt_bit (DESC3 demo_desc_done)" "whole_frame (DESC3 demo_desc_done)"
  "unat (frame_len (DESC3 demo_desc_done)) = 100"
  by (simp_all add: demo_desc_done_def own_bit_def ctxt_bit_def whole_frame_def frame_len_def)






text \<open>
  C21 An exhausted pool. When no buffer is free, \<open>low_level_input\<close> still hands a whole frame to the stack but
  leaves its buffer in the descriptor, which keeps its status: when the index comes round to the descriptor the
  same buffer is handed to the stack a second time, while it may still be in use. And when the descriptor does not
  hold a whole frame, \<open>low_level_input\<close> does not return by itself, because it tries to recycle the descriptor again
  and again, without blocking, until another thread gives a buffer back.
\<close>

theorem rx_exhausted:
  assumes "pool_inv memp_RX_POOL (rx_pool s) (pool_elems memp_RX_POOL)" and "\<not> own_bit (DESC3 (DMARxDscrTab s (RxDescIdx s)))"
    and "DMARxDscrBackup s (RxDescIdx s) = of_nat (p + 26)" and "p \<in> pool_elems memp_RX_POOL"
    and "unat (frame_len (DESC3 (DMARxDscrTab s (RxDescIdx s)))) + 2 \<le> 1536"
  shows "if \<not> ctxt_bit (DESC3 (DMARxDscrTab s (RxDescIdx s))) \<and> whole_frame (DESC3 (DMARxDscrTab s (RxDescIdx s)))
    then \<exists>s' s''. low_level_input s = Some (p, s') \<and> low_level_input (s'\<lparr>RxDescIdx := RxDescIdx s\<rparr>) = Some (p, s'')
    else low_level_input s = None"
proof (cases "\<not> ctxt_bit (DESC3 (DMARxDscrTab s (RxDescIdx s))) \<and> whole_frame (DESC3 (DMARxDscrTab s (RxDescIdx s)))")
  case True
  note ex = assms(1) [folded rx_elems_def] and p = assms(4) [folded rx_elems_def]
  have nz: "(of_nat (p + 26) :: u32) \<noteq> 0" using rx_ptr [OF p] by (metis add_is_0 unat_0 zero_neq_numeral)
  from take_frame_fail [OF ex assms(3) p assms(5)] obtain s' where s': "take_frame (RxDescIdx s) s = (p, s')"
    "DMARxDscrTab s' = DMARxDscrTab s" "DMARxDscrBackup s' = DMARxDscrBackup s" "pool_inv memp_RX_POOL (rx_pool s') rx_elems" .
  let ?t = "s'\<lparr>RxDescIdx := RxDescIdx s\<rparr>"
  have 1: "low_level_input s = Some (p, s')" using True assms(2,3) nz s'(1) by (subst low_level_input.simps) simp
  have "pool_inv memp_RX_POOL (rx_pool ?t) rx_elems" "DMARxDscrBackup ?t (RxDescIdx s) = of_nat (p + 26)"
    "unat (frame_len (DESC3 (DMARxDscrTab ?t (RxDescIdx s)))) + 2 \<le> 1536" using s' assms(3,5) by simp_all
  from take_frame_fail [OF this(1,2) p this(3)] obtain s'' where "take_frame (RxDescIdx s) ?t = (p, s'')" .
  then have "low_level_input ?t = Some (p, s'')" using True assms(2,3) nz s'(2,3) by (subst low_level_input.simps) simp
  then show ?thesis using True 1 by auto
next
  case False
  then have "rx_stuck s" using assms(1,2) by (auto simp: rx_stuck_def rx_elems_def)
  then have "low_level_input s = None" using low_level_input_stuck [of s] by (cases "low_level_input s") auto
  then show ?thesis using False by simp
qed

text \<open>Starting the link four times exhausts the pool.\<close>

lemma demo_exhausted: "\<exists>s :: eth_state. pool_inv memp_RX_POOL (rx_pool s) rx_elems \<and> (\<exists>p\<in>rx_elems. DMARxDscrBackup s 0 = of_nat (p + 26))"
proof -
  have step: "\<exists>s' K'. rx_inv s' {} K' \<and> card K' = card K + 16" if "rx_inv s {} K" "card K \<le> 32" for s K
  proof -
    have 1: "pool_inv memp_RX_POOL (rx_pool s) ({} \<union> (rx_ring s \<union> K))" using that(1) by (simp add: rx_inv_def)
    have c: "card (rx_ring s \<union> K) = card K + 16" using rx_card [OF that(1)] by simp
    then show ?thesis using link_up_rx_inv(1) [OF 1] that(2) by auto
  qed
  from step [OF demo_started_ok(2)] obtain s1 K1 where 1: "rx_inv s1 {} K1" "card K1 = 16" by auto
  from step [OF 1(1)] 1(2) obtain s2 K2 where 2: "rx_inv s2 {} K2" "card K2 = 32" by auto
  from step [OF 2(1)] 2(2) obtain s3 K3 where 3: "rx_inv s3 {} K3" "card K3 = 48" by auto
  have "pool_inv memp_RX_POOL (rx_pool s3) (rx_ring s3 \<union> {} \<union> K3)" using 3(1) by (simp add: rx_inv_def)
  moreover have "rx_ring s3 \<union> {} \<union> K3 = rx_elems"
    using card_subset_eq [OF finite_pool_elems pool_inv_subset [OF calculation]] rx_card [OF 3(1)] 3(2) card_pool_elems [OF rx_pool_wf]
    by (simp add: rx_elems_def)
  moreover have "\<exists>p\<in>rx_elems. DMARxDscrBackup s3 0 = of_nat (p + 26)" using 3(1) by (simp add: rx_inv_def)
  ultimately show ?thesis by (intro exI [of _ s3]) simp
qed

theorem rx_exhausted_witness:
  "\<exists>s p s' s''. low_level_input s = Some (p, s') \<and> low_level_input (s'\<lparr>RxDescIdx := RxDescIdx s\<rparr>) = Some (p, s'') \<and> p \<noteq> NULL"
proof -
  obtain s :: eth_state and p where s: "pool_inv memp_RX_POOL (rx_pool s) rx_elems" "p \<in> rx_elems" "DMARxDscrBackup s 0 = of_nat (p + 26)"
    using demo_exhausted by blast
  let ?s = "s\<lparr>RxDescIdx := 0, DMARxDscrTab := (\<lambda>_. demo_desc_done)\<rparr>"
  have "\<exists>s' s''. low_level_input ?s = Some (p, s') \<and> low_level_input (s'\<lparr>RxDescIdx := RxDescIdx ?s\<rparr>) = Some (p, s'')"
    using rx_exhausted [of ?s p] s by (simp add: demo_done_bits rx_elems_def)
  moreover have "p \<noteq> NULL" using rx_elems_bounds [OF s(2)] by simp
  ultimately show ?thesis by blast
qed



text \<open>
  The linking callback always faults. Whatever its arguments, \<open>HAL_ETH_RxLinkCallback\<close> dereferences \<open>NULL\<close>:
  after its loop over the list of buffers it adjusts the payload of the buffer behind the last one.
\<close>

lemma rx_link_callback_faults: "HAL_ETH_RxLinkCallback pStart pEnd buff n b = None"
proof -
  have "(link_tot_len_loop p n b \<bind> (\<lambda>(p, b). getp p b \<bind> f p b)) = None" for p b and f :: "addr \<Rightarrow> pb_state \<Rightarrow> pbuf \<Rightarrow> (addr \<times> addr \<times> pb_state) option"
    using link_loop_NULL [of p n b] by (cases "link_tot_len_loop p n b") (auto simp: getp_def)
  then show ?thesis by (auto simp: HAL_ETH_RxLinkCallback_def Let_def split: bind_splits)
qed

section \<open>Transmission\<close>

lemma tx_copy_ok:
  assumes "linked (nexts b) q qs" and "set (cells (pbufs b) qs) \<inter> {ETH_TX_BUFFER_ADDR..<ETH_TX_BUFFER_ADDR + N} = {}"
    and "k + sum_len (pbufs b) qs \<le> N"
  shows "tx_copy_loop q k b = Some (k + sum_len (pbufs b) qs,
    b\<lparr>bytes := wr [ETH_TX_BUFFER_ADDR + k..<ETH_TX_BUFFER_ADDR + k + sum_len (pbufs b) qs] (pdata b qs) (bytes b)\<rparr>)"
  using assms
proof (induction qs arbitrary: q k b)
  case Nil
  then show ?case by (simp add: tx_copy_loop.simps)
next
  case (Cons x qs)
  let ?T = ETH_TX_BUFFER_ADDR
  obtain c where c: "q = x" "x \<noteq> NULL" "pbufs b x = Some c" "linked (nexts b) (pb_next c) qs" using Cons.prems(1) by auto
  let ?n = "unat (pb_len c)"
  have bl: "blen (pbufs b) x = ?n" using c(3) by (simp add: blen_def)
  let ?b = "memcpy (?T + k) (pb_payload c) ?n b"
  let ?X = "[?T + k..<?T + k + ?n]" and ?Y = "[?T + k + ?n..<?T + k + ?n + sum_len (pbufs b) qs]"
  have m: "?b = b\<lparr>bytes := wr ?X (map (bytes b) [pb_payload c..<pb_payload c + ?n]) (bytes b)\<rparr>" by (rule memcpy_wr)
  have dis: "set (cells (pbufs b) qs) \<inter> {?T..<?T + N} = {}" using Cons.prems(2) by auto
  have le: "k + ?n + sum_len (pbufs b) qs \<le> N" using Cons.prems(3) bl by simp
  have keep: "pdata ?b qs = pdata b qs"
    unfolding pdata_def m using dis le by (auto simp: intro!: wr_notin)
  have IH: "tx_copy_loop (pb_next c) (k + ?n) ?b = Some (k + ?n + sum_len (pbufs b) qs,
      ?b\<lparr>bytes := wr [?T + (k + ?n)..<?T + (k + ?n) + sum_len (pbufs b) qs] (pdata b qs) (bytes ?b)\<rparr>)"
    using Cons.IH [of ?b "pb_next c" "k + ?n"] c(4) dis le keep by simp
  have r: "tx_copy_loop q k b = tx_copy_loop (pb_next c) (k + ?n) ?b"
    using c by (subst tx_copy_loop.simps) (simp add: getp_def)
  have p: "pdata b (x # qs) = map (bytes b) [pb_payload c..<pb_payload c + ?n] @ pdata b qs" using c(3) bl by (simp add: pdata_def)
  have u: "[?T + k..<?T + k + sum_len (pbufs b) (x # qs)] = ?X @ ?Y"
    using bl upt_add_eq_append [of "?T + k" "?T + k + ?n" "sum_len (pbufs b) qs"] by (simp add: add.assoc)
  have "wr (?X @ ?Y) (map (bytes b) [pb_payload c..<pb_payload c + ?n] @ pdata b qs) (bytes b) =
      wr ?Y (pdata b qs) (wr ?X (map (bytes b) [pb_payload c..<pb_payload c + ?n]) (bytes b))"
    by (rule wr_append') auto
  then show ?case unfolding r IH p u by (simp add: m bl add.assoc)
qed

lemma tx_wait_zero: "tx_wait n own k = 0 \<longleftrightarrow> (\<forall>j<n. own (k + j))"
proof (induction n arbitrary: k)
  case (Suc n)
  have "(\<forall>j<Suc n. own (k + j)) \<longleftrightarrow> own k \<and> (\<forall>j<n. own (k + 1 + j))"
    by (auto simp: less_Suc_eq_0_disj)
  then show ?case using Suc by simp
qed simp

lemma sint_pad: "sint (- of_nat ETH_PAD_SIZE :: u16) = -2" "sint (of_nat ETH_PAD_SIZE :: u16) = 2"
  by (simp_all add: const_defs)

text \<open>Sending changes the bounce buffer, the descriptor and the indices.\<close>

lemma tx_send_ok:
  assumes "n \<le> 1536" and "tx_send own n b s = (e, b', s')"
  shows "b' = b\<lparr>bytes := (\<lambda>a. if ETH_TX_BUFFER_ADDR + n \<le> a \<and> a < ETH_TX_BUFFER_ADDR + 60 then 0 else bytes b a)\<rparr>"
    and "e = (if \<exists>k<10000. \<not> own k then ERR_OK else ERR_TIMEOUT)"
    and "s' = s\<lparr>DMATxDscrTab := DMATxDscrTab s', DMACTDTPR := DMACTDTPR s', tx_desc_idx := tx_desc_idx s', CurTxDesc := CurTxDesc s'\<rparr>"
    and "unat (DESC0 (DMATxDscrTab s' (tx_desc_idx s))) = ETH_TX_BUFFER_ADDR"
    and "unat (DESC2 (DMATxDscrTab s' (tx_desc_idx s))) = max 60 n"
    and "own_bit (DESC3 (DMATxDscrTab s' (tx_desc_idx s)))"
    and "tx_desc_idx s' = (tx_desc_idx s + 1) mod 4"
proof -
  have m: "(0x3FFF :: u32) = mask 14" by (simp add: mask_eq_exp_minus_1)
  have d2: "unat ((of_nat l :: u32) AND 0x3FFF) = l" if "l \<le> 1536" for l
    unfolding m unat_and_mask using that by (simp add: unat_of_nat_id)
  have mx: "(if n < 60 then 60 else n) = max 60 n" by simp
  have b0: "b\<lparr>bytes := (\<lambda>a. if ETH_TX_BUFFER_ADDR + n \<le> a \<and> a < ETH_TX_BUFFER_ADDR + 60 then 0 else bytes b a)\<rparr> = b" if "60 \<le> n"
  proof -
    have "(\<lambda>a. if ETH_TX_BUFFER_ADDR + n \<le> a \<and> a < ETH_TX_BUFFER_ADDR + 60 then 0 else bytes b a) = bytes b" using that by (intro ext) auto
    then show ?thesis by simp
  qed
  show "b' = b\<lparr>bytes := (\<lambda>a. if ETH_TX_BUFFER_ADDR + n \<le> a \<and> a < ETH_TX_BUFFER_ADDR + 60 then 0 else bytes b a)\<rparr>"
    using assms(2) b0 by (auto simp: tx_send_def Let_def memset0_def split: if_splits)
  show "e = (if \<exists>k<10000. \<not> own k then ERR_OK else ERR_TIMEOUT)"
    using assms(2) by (auto simp: tx_send_def Let_def tx_wait_zero split: if_splits)
  show "s' = s\<lparr>DMATxDscrTab := DMATxDscrTab s', DMACTDTPR := DMACTDTPR s', tx_desc_idx := tx_desc_idx s', CurTxDesc := CurTxDesc s'\<rparr>"
    using assms(2) by (auto simp: tx_send_def Let_def split: if_splits)
  show "unat (DESC0 (DMATxDscrTab s' (tx_desc_idx s))) = ETH_TX_BUFFER_ADDR"
    "unat (DESC2 (DMATxDscrTab s' (tx_desc_idx s))) = max 60 n" "own_bit (DESC3 (DMATxDscrTab s' (tx_desc_idx s)))"
    "tx_desc_idx s' = (tx_desc_idx s + 1) mod 4"
    using assms d2 [of "max 60 n"] by (auto simp: tx_send_def Let_def own_bit_def const_defs unat_of_nat_id split: if_splits)
qed

lemma tx_send_indep: "fst (tx_send own n b s) = fst (tx_send own n b' s) \<and> snd (snd (tx_send own n b s)) = snd (snd (tx_send own n b' s))"
  by (simp add: tx_send_def Let_def)

lemma pbuf_free_shared:
  assumes "getp p b = Some c" and "pb_ref c - 1 \<noteq> 0"
  shows "pbuf_free p b = Some (0, putp p (c\<lparr>pb_ref := pb_ref c - 1\<rparr>) b)"
proof -
  have "p \<noteq> NULL" using assms(1) by (auto simp: getp_some)
  then show ?thesis using assms by (simp add: pbuf_free_def pbuf_free_loop.simps)
qed

lemma eth_pbuf_free_shared:
  assumes "getp p (pbs s) = Some c" and "pb_ref c - 1 \<noteq> 0"
  shows "eth_pbuf_free p s = Some (s\<lparr>pbs := putp p (c\<lparr>pb_ref := pb_ref c - 1\<rparr>) (pbs s)\<rparr>)"
proof -
  have "getp p ((pbs s)\<lparr>custom_freed := []\<rparr>) = Some c" using assms(1) by (simp add: getp_some)
  from pbuf_free_shared [OF this assms(2)] show ?thesis
    by (simp add: eth_pbuf_free_def putp_def)
qed

text \<open>What \<open>low_level_output\<close> does with a frame whose first pbuf has room for the padding in front.\<close>

lemma low_level_output_run:
  fixes s :: eth_state
  assumes pk: "packet (pbs s) p (p # qs)" and c: "getp p (pbs s) = Some c" and tot: "unat (pb_tot_len c) \<le> 1536"
    and len: "2 \<le> unat (pb_len c)" and cont: "pb_type_internal c AND PBUF_TYPE_FLAG_STRUCT_DATA_CONTIGUOUS \<noteq> 0"
    and pay: "p + 16 \<le> pb_payload c" "pb_payload c + 2 < 2 ^ 32" and r: "pb_ref c \<noteq> 0"
    and dis: "set (cells (pbufs (pbs s)) (p # qs)) \<inter> {ETH_TX_BUFFER_ADDR..<ETH_TX_BUFFER_ADDR + 1536} = {}"
  defines "f \<equiv> drop 2 (pdata (pbs s) (p # qs))"
  defines "B \<equiv> wr [ETH_TX_BUFFER_ADDR..<ETH_TX_BUFFER_ADDR + length f] f (bytes (pbs s))"
  defines "s0 \<equiv> s\<lparr>TxConfig_Length := of_nat (length f), TxConfig_pData := p\<rparr>"
  shows "low_level_output own1 own2 p s =
      (if tx_wait 1000 own1 0 = 0 then Some (ERR_TIMEOUT, s0\<lparr>pbs := (pbs s)\<lparr>bytes := B\<rparr>\<rparr>)
       else (case tx_send own2 (length f) ((pbs s)\<lparr>bytes := B\<rparr>) s0 of (e, b, s') \<Rightarrow> Some (e, s'\<lparr>pbs := b\<rparr>)))"
    and "length f + 2 = unat (pb_tot_len c)"
proof -
  let ?b = "pbs s"
  have pn: "p \<noteq> NULL" "pbufs ?b p = Some c" using c by (auto simp: getp_some)
  have lk: "linked (nexts ?b) p (p # qs)" and to: "tot_ok (pbufs ?b) 0 (p # qs)" using pk by (auto simp: packet_def)
  have nq: "p \<notin> set qs" using linked_distinct [OF lk] by simp
  have tl: "unat (pb_tot_len c) = sum_len (pbufs ?b) (p # qs)" using to pn by (simp add: tlen_def)
  then show fl: "length f + 2 = unat (pb_tot_len c)" using len pn(2) by (simp add: f_def blen_def)
  define c1 where "c1 = c\<lparr>pb_payload := pb_payload c + 2, pb_len := pb_len c - 2, pb_tot_len := pb_tot_len c - 2\<rparr>"
  let ?b1 = "putp p c1 ?b"
  have h1: "pbuf_header p (- of_nat ETH_PAD_SIZE) ?b = Some (0, ?b1)"
    using c pn(1) len unfolding pbuf_header_def pbuf_header_impl_def sint_pad
    by (simp add: pbuf_remove_header_def c1_def word_le_nat_alt)
  have l1: "linked (nexts ?b1) p (p # qs)" using lk linked_putp [OF pn(2), of c1] by (simp add: c1_def)
  have u: "unat (pb_len c - 2) = unat (pb_len c) - 2" using len by (subst unat_sub_le) (simp_all add: word_le_nat_alt)
  have oth: "blen (pbufs ?b1) q = blen (pbufs ?b) q" "pbufs ?b1 q = pbufs ?b q" if "q \<in> set qs" for q
    using that nq by (auto simp: blen_def)
  have cq: "cells (pbufs ?b1) qs = cells (pbufs ?b) qs"
    unfolding cells_def using oth by (intro arg_cong [of _ _ concat] map_cong) auto
  have cel: "cells (pbufs ?b1) (p # qs) = drop 2 (cells (pbufs ?b) (p # qs))"
  proof -
    have "pb_payload c + 2 + (unat (pb_len c) - 2) = pb_payload c + unat (pb_len c)" using len by simp
    then have "[pb_payload c + 2..<pb_payload c + 2 + (unat (pb_len c) - 2)] = drop 2 [pb_payload c..<pb_payload c + unat (pb_len c)]"
      by (simp only: drop_upt)
    moreover have "length (drop 2 [pb_payload c..<pb_payload c + unat (pb_len c)]) = unat (pb_len c) - 2" by simp
    moreover have "pb_payload (the (pbufs ?b1 p)) = pb_payload c + 2"
      "blen (pbufs ?b1) p = unat (pb_len c) - 2" "pb_payload (the (pbufs ?b p)) = pb_payload c" "blen (pbufs ?b) p = unat (pb_len c)"
      using u pn(2) by (simp_all add: blen_def c1_def)
    ultimately show ?thesis using len by (simp only: cells_simps cq drop_append length_upt) simp
  qed
  then have pd: "pdata ?b1 (p # qs) = f" by (simp add: pdata_def f_def drop_map)
  have sl: "sum_len (pbufs ?b1) (p # qs) = length f" using length_pdata [of ?b1 "p # qs"] pd by simp
  have d1: "set (cells (pbufs ?b1) (p # qs)) \<inter> {ETH_TX_BUFFER_ADDR..<ETH_TX_BUFFER_ADDR + 1536} = {}"
    unfolding cel using dis set_drop_subset [of 2 "cells (pbufs ?b) (p # qs)"] by blast
  let ?b2 = "?b1\<lparr>bytes := B\<rparr>"
  have cp: "tx_copy_loop p 0 ?b1 = Some (length f, ?b2)"
    using tx_copy_ok [OF l1 d1, of 0] fl tot unfolding sl pd by (simp add: B_def)
  let ?b3 = "putp p (c1\<lparr>pb_ref := pb_ref c1 + 1\<rparr>) ?b2"
  have rf: "pbuf_ref p ?b2 = Some ?b3" using pn by (simp add: pbuf_ref_def getp_def)
  have fin: "(pbuf_header p (of_nat ETH_PAD_SIZE) (b\<lparr>bytes := M\<rparr>) \<bind> (\<lambda>(x, b). eth_pbuf_free p (t\<lparr>pbs := b\<rparr>) \<bind> (\<lambda>s. Some (e, s))))
      = Some (e, t\<lparr>pbs := ?b\<lparr>bytes := M\<rparr>\<rparr>)" if "b = ?b3" for b M t e
  proof -
    let ?c3 = "c1\<lparr>pb_ref := pb_ref c1 + 1\<rparr>"
    have g: "getp p (b\<lparr>bytes := M\<rparr>) = Some ?c3" using pn that by (simp add: getp_def)
    have tw: "unat (pb_tot_len ?c3) + 2 < 65536"
      using tot fl tl by (subst c1_def) (simp add: unat_sub_le word_le_nat_alt)
    have "pbuf_add_header_impl p 2 False (b\<lparr>bytes := M\<rparr>) =
        Some (0, putp p (?c3\<lparr>pb_payload := pb_payload ?c3 - 2, pb_len := pb_len ?c3 + of_nat 2, pb_tot_len := pb_tot_len ?c3 + of_nat 2\<rparr>) (b\<lparr>bytes := M\<rparr>))"
      using pbuf_add_header_cases [OF g, of 2 False] pay cont tw by (simp add: c1_def)
    then have h: "pbuf_header p (of_nat ETH_PAD_SIZE) (b\<lparr>bytes := M\<rparr>) = Some (0, putp p (c\<lparr>pb_ref := pb_ref c + 1\<rparr>) (b\<lparr>bytes := M\<rparr>))"
      unfolding pbuf_header_def pbuf_header_impl_def sint_pad by (simp add: c1_def)
    let ?t = "t\<lparr>pbs := putp p (c\<lparr>pb_ref := pb_ref c + 1\<rparr>) (b\<lparr>bytes := M\<rparr>)\<rparr>"
    have "eth_pbuf_free p ?t = Some (?t\<lparr>pbs := putp p c (pbs ?t)\<rparr>)"
      using eth_pbuf_free_shared [of p ?t "c\<lparr>pb_ref := pb_ref c + 1\<rparr>"] pn r by (simp add: getp_def)
    moreover have "putp p c (pbs ?t) = ?b\<lparr>bytes := M\<rparr>"
      using that pn by (auto simp: putp_def intro!: pb_state_pbufs_eqI)
    ultimately show ?thesis using h by simp
  qed
  show "low_level_output own1 own2 p s =
      (if tx_wait 1000 own1 0 = 0 then Some (ERR_TIMEOUT, s0\<lparr>pbs := (pbs s)\<lparr>bytes := B\<rparr>\<rparr>)
       else (case tx_send own2 (length f) ((pbs s)\<lparr>bytes := B\<rparr>) s0 of (e, b, s') \<Rightarrow> Some (e, s'\<lparr>pbs := b\<rparr>)))"
    (is "_ = ?R")
  proof -
    obtain e b' s' where ts: "tx_send own2 (length f) ?b3 s0 = (e, b', s')" by (cases "tx_send own2 (length f) ?b3 s0")
    have l: "length f \<le> 1536" using fl tot by simp
    define M where "M = (\<lambda>a. if ETH_TX_BUFFER_ADDR + length f \<le> a \<and> a < ETH_TX_BUFFER_ADDR + 60 then 0 else B a)"
    have bB: "bytes ?b3 = B" and b3: "?b3\<lparr>bytes := B\<rparr> = ?b3" by (simp_all add: putp_def)
    have b': "b' = ?b3\<lparr>bytes := M\<rparr>" using tx_send_ok(1) [OF l ts] unfolding bB M_def .
    have ts': "tx_send own2 (length f) (?b\<lparr>bytes := B\<rparr>) s0 = (e, ?b\<lparr>bytes := M\<rparr>, s')"
    proof -
      obtain e2 b2 s2 where t2: "tx_send own2 (length f) (?b\<lparr>bytes := B\<rparr>) s0 = (e2, b2, s2)"
        by (cases "tx_send own2 (length f) (?b\<lparr>bytes := B\<rparr>) s0")
      have bB: "bytes (?b\<lparr>bytes := B\<rparr>) = B" by simp
      have "b2 = ?b\<lparr>bytes := M\<rparr>" using tx_send_ok(1) [OF l t2] unfolding bB M_def by simp
      then show ?thesis using t2 ts tx_send_indep [of own2 "length f" "?b\<lparr>bytes := B\<rparr>" s0 ?b3] by simp
    qed
    have "low_level_output own1 own2 p s =
      (case (if tx_wait 1000 own1 0 = 0 then (ERR_TIMEOUT, ?b3, s0) else tx_send own2 (length f) ?b3 s0) of (e, b, t) \<Rightarrow>
         pbuf_header p (of_nat ETH_PAD_SIZE) b \<bind> (\<lambda>(x, b). eth_pbuf_free p (t\<lparr>pbs := b\<rparr>) \<bind> (\<lambda>s. Some (e, s))))"
      using tot unfolding low_level_output_def c h1 cp rf s0_def by (simp add: h1 cp rf ETH_TX_BUFFER_MAX_SIZE_def Let_def split: prod.splits)
    also have "\<dots> = ?R"
      by (cases "tx_wait 1000 own1 0 = 0")
        (simp_all only: ts ts' b' prod.case simp_thms if_True if_False fin [OF refl, of M s' e] fin [OF refl, of B s0 ERR_TIMEOUT, unfolded b3])
    finally show ?thesis .
  qed
qed

text \<open>What \<open>low_level_output\<close> does, and which descriptor is next.\<close>

lemma low_level_output_ok:
  fixes s :: eth_state
  assumes "packet (pbs s) p (p # qs)" and "getp p (pbs s) = Some c" and "unat (pb_tot_len c) \<le> ETH_TX_BUFFER_MAX_SIZE"
    and "2 \<le> unat (pb_len c)" and "pb_type_internal c AND PBUF_TYPE_FLAG_STRUCT_DATA_CONTIGUOUS \<noteq> 0"
    and "p + 16 \<le> pb_payload c" and "pb_payload c + 2 < 2 ^ 32" and "pb_ref c \<noteq> 0"
    and "set (cells (pbufs (pbs s)) (p # qs)) \<inter> {ETH_TX_BUFFER_ADDR..<ETH_TX_BUFFER_ADDR + ETH_TX_BUFFER_MAX_SIZE} = {}"
  shows "\<exists>e s' B. low_level_output own1 own2 p s = Some (e, s') \<and> pbs s' = (pbs s)\<lparr>bytes := B\<rparr> \<and>
    (\<forall>a. a \<notin> {ETH_TX_BUFFER_ADDR..<ETH_TX_BUFFER_ADDR + ETH_TX_BUFFER_MAX_SIZE} \<longrightarrow> B a = bytes (pbs s) a) \<and>
    tx_desc_idx s' = (if \<exists>k<1000. \<not> own1 k then (tx_desc_idx s + 1) mod 4 else tx_desc_idx s) \<and>
    (let f = drop 2 (pdata (pbs s) (p # qs)); d = DMATxDscrTab s' (tx_desc_idx s) in
     if \<exists>k<1000. \<not> own1 k
     then e = (if \<exists>k<10000. \<not> own2 k then ERR_OK else ERR_TIMEOUT) \<and>
       map B [ETH_TX_BUFFER_ADDR..<ETH_TX_BUFFER_ADDR + max 60 (length f)] = f @ replicate (60 - length f) 0 \<and>
       unat (DESC0 d) = ETH_TX_BUFFER_ADDR \<and> unat (DESC2 d) = max 60 (length f) \<and> own_bit (DESC3 d)
     else e = ERR_TIMEOUT \<and> DMATxDscrTab s' = DMATxDscrTab s)"
proof -
  let ?T = ETH_TX_BUFFER_ADDR
  define f where "f = drop 2 (pdata (pbs s) (p # qs))"
  define B where "B = wr [?T..<?T + length f] f (bytes (pbs s))"
  define s0 where "s0 = s\<lparr>TxConfig_Length := of_nat (length f), TxConfig_pData := p\<rparr>"
  note tot = assms(3) [unfolded ETH_TX_BUFFER_MAX_SIZE_def] and dis = assms(9) [unfolded ETH_TX_BUFFER_MAX_SIZE_def]
  note run = low_level_output_run [OF assms(1,2) tot assms(4-8) dis, folded f_def, folded B_def s0_def]
  have fl: "length f \<le> 1536" using run(2) tot by simp
  have mB: "map B [?T..<?T + length f] = f" unfolding B_def by (rule map_wr_same) simp_all
  have oB: "B a = bytes (pbs s) a" if "a \<notin> {?T..<?T + 1536}" for a
    unfolding B_def using that fl by (intro wr_notin) auto
  have w1: "tx_wait 1000 own1 0 = 0 \<longleftrightarrow> \<not> (\<exists>k<1000. \<not> own1 k)" by (simp add: tx_wait_zero)
  show ?thesis
  proof (cases "\<exists>k<1000. \<not> own1 k")
    case False
    then have "low_level_output own1 own2 p s = Some (ERR_TIMEOUT, s0\<lparr>pbs := (pbs s)\<lparr>bytes := B\<rparr>\<rparr>)" using run(1) w1 by simp
    then show ?thesis using False oB
      by (intro exI [of _ ERR_TIMEOUT] exI [of _ "s0\<lparr>pbs := (pbs s)\<lparr>bytes := B\<rparr>\<rparr>"] exI [of _ B]) (auto simp: s0_def const_defs Let_def)
  next
    case True
    obtain e b s' where ts: "tx_send own2 (length f) ((pbs s)\<lparr>bytes := B\<rparr>) s0 = (e, b, s')"
      by (cases "tx_send own2 (length f) ((pbs s)\<lparr>bytes := B\<rparr>) s0")
    note t = tx_send_ok [OF fl ts]
    define M where "M = (\<lambda>a. if ?T + length f \<le> a \<and> a < ?T + 60 then 0 else B a)"
    have bB: "bytes ((pbs s)\<lparr>bytes := B\<rparr>) = B" by simp
    have b: "b = (pbs s)\<lparr>bytes := M\<rparr>" using t(1) unfolding bB M_def by simp
    have 1: "low_level_output own1 own2 p s = Some (e, s'\<lparr>pbs := b\<rparr>)" using run(1) w1 True ts by simp
    have i: "tx_desc_idx s0 = tx_desc_idx s" by (simp add: s0_def)
    have out: "M a = bytes (pbs s) a" if "a \<notin> {?T..<?T + 1536}" for a using that fl oB [OF that] by (auto simp: M_def)
    have "map M [?T..<?T + length f] = map B [?T..<?T + length f]" by (rule map_cong) (auto simp: M_def)
    moreover have "map M [?T + length f..<?T + length f + (60 - length f)] = replicate (60 - length f) 0"
      by (auto simp: M_def intro!: nth_equalityI)
    moreover have "[?T..<?T + max 60 (length f)] = [?T..<?T + length f] @ [?T + length f..<?T + length f + (60 - length f)]"
    proof -
      have "?T + max 60 (length f) = ?T + length f + (60 - length f)" by simp
      then show ?thesis by (simp only: upt_add_eq_append [OF le_add1])
    qed
    ultimately have mM: "map M [?T..<?T + max 60 (length f)] = f @ replicate (60 - length f) 0" using mB by (simp only: map_append)
    show ?thesis
    proof (intro exI conjI)
      show "low_level_output own1 own2 p s = Some (e, s'\<lparr>pbs := b\<rparr>)" by (rule 1)
      show "pbs (s'\<lparr>pbs := b\<rparr>) = (pbs s)\<lparr>bytes := M\<rparr>" using b by simp
      show "\<forall>a. a \<notin> {?T..<?T + ETH_TX_BUFFER_MAX_SIZE} \<longrightarrow> M a = bytes (pbs s) a" using out by (simp add: ETH_TX_BUFFER_MAX_SIZE_def)
    qed (use True t(2,4,5,6,7) mM in \<open>simp_all add: Let_def i f_def [symmetric]\<close>)
  qed
qed

text \<open>
  C7 Transmission. For a frame of at most 1536 bytes whose first pbuf is contiguous with its structure and starts with
  the padding, \<open>low_level_output\<close> returns and leaves every pbuf, its reference count included, as it was,
  whatever the DMA does. If the descriptor becomes free within the first wait, the bounce buffer
  holds the frame without the padding, filled up with zeros to 60 bytes, and the descriptor its address and
  length; the result is \<open>ERR_OK\<close> if the DMA was seen to finish within the second wait. Memory outside the
  bounce buffer does not change.
\<close>

theorem low_level_output_correct:
  fixes s :: eth_state
  assumes "packet (pbs s) p (p # qs)" and "getp p (pbs s) = Some c" and "unat (pb_tot_len c) \<le> ETH_TX_BUFFER_MAX_SIZE"
    and "2 \<le> unat (pb_len c)" and "pb_type_internal c AND PBUF_TYPE_FLAG_STRUCT_DATA_CONTIGUOUS \<noteq> 0"
    and "p + 16 \<le> pb_payload c" and "pb_payload c + 2 < 2 ^ 32" and "pb_ref c \<noteq> 0"
    and "set (cells (pbufs (pbs s)) (p # qs)) \<inter> {ETH_TX_BUFFER_ADDR..<ETH_TX_BUFFER_ADDR + ETH_TX_BUFFER_MAX_SIZE} = {}"
  shows "\<exists>e s' B. low_level_output own1 own2 p s = Some (e, s') \<and> pbs s' = (pbs s)\<lparr>bytes := B\<rparr> \<and>
    (\<forall>a. a \<notin> {ETH_TX_BUFFER_ADDR..<ETH_TX_BUFFER_ADDR + ETH_TX_BUFFER_MAX_SIZE} \<longrightarrow> B a = bytes (pbs s) a) \<and>
    (let f = drop 2 (pdata (pbs s) (p # qs)); d = DMATxDscrTab s' (tx_desc_idx s) in
     if \<exists>k<1000. \<not> own1 k
     then e = (if \<exists>k<10000. \<not> own2 k then ERR_OK else ERR_TIMEOUT) \<and>
       map B [ETH_TX_BUFFER_ADDR..<ETH_TX_BUFFER_ADDR + max 60 (length f)] = f @ replicate (60 - length f) 0 \<and>
       unat (DESC0 d) = ETH_TX_BUFFER_ADDR \<and> unat (DESC2 d) = max 60 (length f) \<and> own_bit (DESC3 d)
     else e = ERR_TIMEOUT \<and> DMATxDscrTab s' = DMATxDscrTab s)"
  using low_level_output_ok [OF assms, of own1 own2] by blast

definition demo_tx_pbuf :: pbuf where
  "demo_tx_pbuf = \<lparr>pb_next = NULL, pb_payload = 1016, pb_tot_len = 20, pb_len = 20, pb_type_internal = 0x80, pb_flags = 0, pb_ref = 1, pb_if_idx = 0\<rparr>"

definition demo_tx :: eth_state where
  "demo_tx = demo_eth\<lparr>pbs := demo_pb\<lparr>pbufs := [1000 \<mapsto> demo_tx_pbuf], bytes := (\<lambda>a. of_nat a)\<rparr>\<rparr>"

theorem low_level_output_correct_witness:
  "\<exists>s' B. low_level_output (\<lambda>k. k < 3) (\<lambda>k. k < 7) 1000 demo_tx = Some (ERR_OK, s') \<and> pbs s' = (pbs demo_tx)\<lparr>bytes := B\<rparr> \<and>
     map B [ETH_TX_BUFFER_ADDR..<ETH_TX_BUFFER_ADDR + 60] = map of_nat [1018..<1036] @ replicate 42 0"
proof -
  have p: "packet (pbs demo_tx) 1000 [1000]" "getp 1000 (pbs demo_tx) = Some demo_tx_pbuf"
    by (simp_all add: packet_def demo_tx_def tlen_def blen_def demo_tx_pbuf_def getp_def)
  have d: "pdata (pbs demo_tx) [1000] = map of_nat [1016..<1036]" "cells (pbufs (pbs demo_tx)) [1000] = [1016..<1036]"
    by (simp_all add: pdata_def cells_def demo_tx_def demo_tx_pbuf_def blen_def del: upt_rec_numeral)
  have dr: "drop 2 (map (of_nat :: nat \<Rightarrow> u8) [1016..<1036]) = map of_nat [1018..<1036]" by (simp add: drop_map drop_upt del: upt_rec_numeral)
  have "\<exists>k<1000::nat. \<not> k < 3" "\<exists>k<10000::nat. \<not> k < 7" by (rule exI [of _ 10], simp)+
  then show ?thesis
    using low_level_output_correct [OF p, of "\<lambda>k. k < 3" "\<lambda>k. k < 7", unfolded d dr]
    by (auto simp: demo_tx_pbuf_def const_defs Let_def simp del: upt_rec_numeral)
qed

section \<open>Further facts about the driver\<close>

text \<open>
  The descriptor tables, the pool of receive buffers and the bounce buffer lie in this order, without overlap,
  in the 512 KB region from \<open>0x30000000\<close> that \<open>MPU_Config\<close> sets up for the DMA.
\<close>

lemma eth_memory_layout:
  "DMARxDscrTab_addr + ETH_RX_DESC_CNT * sizeof_desc \<le> DMATxDscrTab_addr \<and>
   DMATxDscrTab_addr + ETH_TX_DESC_CNT * sizeof_desc \<le> RX_POOL_BASE_ADDR \<and>
   (\<forall>p \<in> pool_elems memp_RX_POOL. RX_POOL_BASE_ADDR \<le> p \<and> p + sizeof_RxBuff \<le> ETH_TX_BUFFER_ADDR) \<and>
   ETH_TX_BUFFER_ADDR + ETH_TX_BUFFER_MAX_SIZE \<le> DMARxDscrTab_addr + 512 * 1024"
  using rx_elems_bounds by (fastforce simp: const_defs rx_elems_def)

text \<open>\<open>ethernetif_rebuild_rx_descriptors\<close> stops behind the first descriptor that it refills.\<close>

lemma rebuild_arms_one:
  assumes "pool_inv memp_RX_POOL (rx_pool s) A" and "A \<noteq> rx_elems" and "\<not> own_bit (DESC3 (DMARxDscrTab s (RxBuildDescIdx s)))"
  shows "\<exists>s'. ethernetif_rebuild_rx_descriptors s = Some s' \<and> own_bit (DESC3 (DMARxDscrTab s' (RxBuildDescIdx s))) \<and>
    (\<forall>j. j \<noteq> RxBuildDescIdx s \<longrightarrow> DMARxDscrTab s' j = DMARxDscrTab s j)"
proof -
  from rx_alloc_ok [OF assms(1,2)] obtain p pool where a: "HAL_ETH_RxAllocateCallback s =
      (p + 26, s\<lparr>rx_pool := pool, rx_custom_fn := (rx_custom_fn s)(p := True), pbs := putp p (rx_pbuf p 0) (pbs s)\<rparr>)" .
  have "own_bit (0x80000000 OR 0x01000000)" by (simp add: own_bit_def)
  then show ?thesis using assms(3)
    by (simp add: ethernetif_rebuild_rx_descriptors_def rebuild_loop.simps [of "RxBuildDescIdx s" s] a Let_def)
qed


section \<open>The receive thread\<close>

lemma rx_pbuf_simps [simp]: "pb_ref (rx_pbuf p n) = 1" "pb_next (rx_pbuf p n) = NULL" "is_custom (rx_pbuf p n)"
  by (simp_all add: rx_pbuf_def is_custom_def const_defs)







end
