(* ===== verification/Ip4_Addr.thy ===== *)
theory Ip4_Addr
  imports Lwip_Def
begin

text \<open>
  IPv4 addresses, \<open>lwip/src/core/ipv4/ip4_addr.c\<close>: broadcast and netmask tests, parsing and
  printing. An \<open>ip4_addr_t\<close> is its \<open>u32_t\<close> in network byte order on a little-endian machine: the
  first octet is the least significant byte. Strings live in a memory \<open>addr \<Rightarrow> u8\<close> as in
  \<open>Lwip_Def\<close>; the character classes are those of \<open>ctype.h\<close> in the C locale.
\<close>

unbundle bit_operations_syntax

section \<open>Tests on addresses\<close>

text \<open>The macro \<open>IP4_ADDR\<close>, an address from its four octets, and \<open>LWIP_MAKEU32\<close> it is made with.\<close>

definition LWIP_MAKEU32 :: "u32 \<Rightarrow> u32 \<Rightarrow> u32 \<Rightarrow> u32 \<Rightarrow> u32" where
  "LWIP_MAKEU32 a b c d = push_bit 24 (a AND 0xFF) OR push_bit 16 (b AND 0xFF) OR push_bit 8 (c AND 0xFF) OR (d AND 0xFF)"

definition IP4_ADDR :: "u32 \<Rightarrow> u32 \<Rightarrow> u32 \<Rightarrow> u32 \<Rightarrow> u32" where
  "IP4_ADDR a b c d = lwip_htonl (LWIP_MAKEU32 a b c d)"

definition IPADDR_ANY :: u32 where [const_defs]: "IPADDR_ANY = 0"
definition IPADDR_BROADCAST :: u32 where [const_defs]: "IPADDR_BROADCAST = 0xFFFFFFFF"
definition IPADDR_NONE :: u32 where [const_defs]: "IPADDR_NONE = 0xFFFFFFFF"
definition NETIF_FLAG_BROADCAST :: u8 where [const_defs]: "NETIF_FLAG_BROADCAST = 2"

text \<open>The fields of \<open>struct netif\<close> that the tests read.\<close>

record netif =
  nif_ip_addr :: u32
  nif_netmask :: u32
  nif_flags :: u8

definition ip4_addr_net_eq :: "u32 \<Rightarrow> u32 \<Rightarrow> u32 \<Rightarrow> bool" where
  "ip4_addr_net_eq addr1 addr2 netmask \<longleftrightarrow> addr1 AND netmask = addr2 AND netmask"

definition ip4_addr_isbroadcast_u32 :: "u32 \<Rightarrow> 'a netif_scheme \<Rightarrow> bool" where
  "ip4_addr_isbroadcast_u32 addr netif \<longleftrightarrow>
     (if NOT addr = IPADDR_ANY \<or> addr = IPADDR_ANY then True
      else if nif_flags netif AND NETIF_FLAG_BROADCAST = 0 then False
      else if addr = nif_ip_addr netif then False
      else if ip4_addr_net_eq addr (nif_ip_addr netif) (nif_netmask netif) \<and>
          addr AND NOT (nif_netmask netif) = IPADDR_BROADCAST AND NOT (nif_netmask netif) then True
      else False)"

text \<open>The two loops of \<open>ip4_addr_netmask_valid\<close>: over the ones, and over the zeros behind them.\<close>

function netmask_ones :: "u32 \<Rightarrow> u32 \<Rightarrow> u32" where
  "netmask_ones nm bm = (if bm \<noteq> 0 \<and> nm AND bm \<noteq> 0 then netmask_ones nm (drop_bit 1 bm) else bm)"
  by pat_completeness auto
termination by (relation "measure (\<lambda>(nm, bm). unat bm)") (auto simp: unat_drop_bit unat_gt_0)

function netmask_zeros :: "u32 \<Rightarrow> u32 \<Rightarrow> bool" where
  "netmask_zeros nm bm = (if bm \<noteq> 0 then (if nm AND bm \<noteq> 0 then False else netmask_zeros nm (drop_bit 1 bm)) else True)"
  by pat_completeness auto
termination by (relation "measure (\<lambda>(nm, bm). unat bm)") (auto simp: unat_drop_bit unat_gt_0)

declare netmask_ones.simps [simp del] netmask_zeros.simps [simp del]

definition ip4_addr_netmask_valid :: "u32 \<Rightarrow> bool" where
  "ip4_addr_netmask_valid netmask =
     (let nm_hostorder = lwip_htonl netmask;
          bm = netmask_ones nm_hostorder (push_bit 31 1) in
      netmask_zeros nm_hostorder bm)"

section \<open>Parsing\<close>

definition lwip_isdigit :: "u8 \<Rightarrow> bool" where "lwip_isdigit c \<longleftrightarrow> 48 \<le> c \<and> c \<le> 57"
definition lwip_islower :: "u8 \<Rightarrow> bool" where "lwip_islower c \<longleftrightarrow> 97 \<le> c \<and> c \<le> 122"
definition lwip_isxdigit :: "u8 \<Rightarrow> bool" where
  "lwip_isxdigit c \<longleftrightarrow> lwip_isdigit c \<or> 97 \<le> c \<and> c \<le> 102 \<or> 65 \<le> c \<and> c \<le> 70"
definition lwip_isspace :: "u8 \<Rightarrow> bool" where
  "lwip_isspace c \<longleftrightarrow> c = 32 \<or> c = 12 \<or> c = 10 \<or> c = 13 \<or> c = 9 \<or> c = 11"

text \<open>
  The digits of one part, in 32-bit arithmetic that wraps; the result is the value and the address of
  the first character that is not a digit.
\<close>

partial_function (option) aton_digits :: "(addr \<Rightarrow> u8) \<Rightarrow> u8 \<Rightarrow> u32 \<Rightarrow> addr \<Rightarrow> (u32 \<times> addr) option" where
  "aton_digits m base val cp =
     (let c = m cp in
      if lwip_isdigit c then
        (if base = 8 \<and> (ucast c :: u32) - 48 \<ge> 8 then Some (val, cp)
         else aton_digits m base (val * ucast base + (ucast c - 48)) (cp + 1))
      else if base = 16 \<and> lwip_isxdigit c then
        aton_digits m base (push_bit 4 val OR (ucast c + 10 - (if lwip_islower c then 97 else 65))) (cp + 1)
      else Some (val, cp))"

text \<open>\<open>0x\<close> or \<open>0X\<close> announces a hexadecimal part, another leading zero an octal one.\<close>

definition aton_base :: "(addr \<Rightarrow> u8) \<Rightarrow> addr \<Rightarrow> u8 \<times> addr" where
  "aton_base m cp =
     (if m cp = 48 then (if m (cp + 1) = 120 \<or> m (cp + 1) = 88 then (16, cp + 2) else (8, cp + 1))
      else (10, cp))"

text \<open>
  The loop over the parts; \<open>parts\<close> holds the ones before the current. \<open>Some None\<close> is the result \<open>0\<close>
  (no address), \<open>None\<close> a string that does not end.
\<close>

partial_function (option) aton_parts ::
  "(addr \<Rightarrow> u8) \<Rightarrow> u32 list \<Rightarrow> addr \<Rightarrow> (u32 list \<times> u32 \<times> addr) option option" where
  "aton_parts m parts cp =
     (if \<not> lwip_isdigit (m cp) then Some None
      else do {
        let (base, cp) = aton_base m cp;
        (val, cp) \<leftarrow> aton_digits m base 0 cp;
        if m cp = 46 then
          (if length parts \<ge> 3 then Some None else aton_parts m (parts @ [val]) (cp + 1))
        else Some (Some (parts, val, cp))
      })"

text \<open>The \<open>switch\<close> over the number of parts: an address of one, two, three or four parts.\<close>

definition aton_combine :: "u32 list \<Rightarrow> u32 \<Rightarrow> u32 option" where
  "aton_combine parts val =
     (case parts of
        [] \<Rightarrow> Some val
      | [p0] \<Rightarrow> if val > 0xFFFFFF then None else if p0 > 0xFF then None else Some (val OR push_bit 24 p0)
      | [p0, p1] \<Rightarrow> if val > 0xFFFF then None else if p0 > 0xFF \<or> p1 > 0xFF then None
          else Some (val OR (push_bit 24 p0 OR push_bit 16 p1))
      | [p0, p1, p2] \<Rightarrow> if val > 0xFF then None else if p0 > 0xFF \<or> p1 > 0xFF \<or> p2 > 0xFF then None
          else Some (val OR (push_bit 24 p0 OR push_bit 16 p1 OR push_bit 8 p2))
      | _ \<Rightarrow> Some val)"

definition ip4addr_aton :: "(addr \<Rightarrow> u8) \<Rightarrow> addr \<Rightarrow> u32 option option" where
  "ip4addr_aton m cp =
     do {
       r \<leftarrow> aton_parts m [] cp;
       case r of
         None \<Rightarrow> Some None
       | Some (parts, val, cp) \<Rightarrow>
           if m cp \<noteq> 0 \<and> \<not> lwip_isspace (m cp) then Some None
           else Some (map_option lwip_htonl (aton_combine parts val))
     }"

definition ipaddr_addr :: "(addr \<Rightarrow> u8) \<Rightarrow> addr \<Rightarrow> u32 option" where
  "ipaddr_addr m cp =
     do { r \<leftarrow> ip4addr_aton m cp; Some (case r of Some val \<Rightarrow> val | None \<Rightarrow> IPADDR_NONE) }"

section \<open>Printing\<close>

definition IP4ADDR_STRLEN_MAX :: int where [const_defs]: "IP4ADDR_STRLEN_MAX = 16"

text \<open>The digits of one octet, least significant first, as they come into the array \<open>inv\<close>.\<close>

lemma ntoa_less: "ap div 10 \<noteq> 0 \<Longrightarrow> unat (ap div 10) < unat ap" for ap :: u8
proof -
  assume "ap div 10 \<noteq> 0"
  then have "0 < unat (ap div 10)" by (metis unat_gt_0)
  then have "0 < unat ap div 10" by (simp add: unat_div)
  then show ?thesis by (simp add: unat_div)
qed

function ntoa_digits :: "u8 \<Rightarrow> u8 list \<Rightarrow> u8 list" where
  "ntoa_digits ap iv =
     (let r = ap mod 10;
          ap = ap div 10;
          iv = iv @ [48 + r] in
      if ap \<noteq> 0 then ntoa_digits ap iv else iv)"
  by pat_completeness auto
termination
  by (relation "measure (\<lambda>(ap, iv). unat ap)") (auto simp: ntoa_less)

declare ntoa_digits.simps [simp del]

text \<open>
  Characters are written one by one as long as there is room; the result is the memory and, unless
  the function returns \<open>NULL\<close>, the write position and the length.
\<close>

fun ntoa_put :: "int \<Rightarrow> u8 list \<Rightarrow> (addr \<Rightarrow> u8) \<Rightarrow> addr \<Rightarrow> int \<Rightarrow> (addr \<Rightarrow> u8) \<times> (addr \<times> int) option" where
  "ntoa_put buflen [] m rp len = (m, Some (rp, len))"
| "ntoa_put buflen (c # cs) m rp len =
     (if len \<ge> buflen then (m, None) else ntoa_put buflen cs (m(rp := c)) (rp + 1) (len + 1))"

fun ntoa_loop :: "int \<Rightarrow> u8 list \<Rightarrow> (addr \<Rightarrow> u8) \<Rightarrow> addr \<Rightarrow> int \<Rightarrow> (addr \<Rightarrow> u8) \<times> (addr \<times> int) option" where
  "ntoa_loop buflen [] m rp len = (m, Some (rp, len))"
| "ntoa_loop buflen (ap # aps) m rp len =
     (case ntoa_put buflen (rev (ntoa_digits ap [])) m rp len of
        (m, None) \<Rightarrow> (m, None)
      | (m, Some (rp, len)) \<Rightarrow>
          (case ntoa_put buflen [46] m rp len of
             (m, None) \<Rightarrow> (m, None)
           | (m, Some (rp, len)) \<Rightarrow> ntoa_loop buflen aps m rp len))"

text \<open>The bytes of \<open>s_addr\<close> in memory, lowest address first.\<close>

definition addr_bytes :: "u32 \<Rightarrow> u8 list" where
  "addr_bytes s_addr = map (\<lambda>n. ucast (drop_bit (8 * n) s_addr)) [0, 1, 2, 3]"

definition ip4addr_ntoa_r :: "u32 \<Rightarrow> addr \<Rightarrow> int \<Rightarrow> (addr \<Rightarrow> u8) \<Rightarrow> (addr \<Rightarrow> u8) \<times> addr" where
  "ip4addr_ntoa_r s_addr buf buflen m =
     (case ntoa_loop buflen (addr_bytes s_addr) m buf 0 of
        (m, None) \<Rightarrow> (m, NULL)
      | (m, Some (rp, len)) \<Rightarrow> (m(rp - 1 := 0), buf))"

definition ip4addr_ntoa :: "u32 \<Rightarrow> addr \<Rightarrow> (addr \<Rightarrow> u8) \<Rightarrow> (addr \<Rightarrow> u8) \<times> addr" where
  "ip4addr_ntoa s_addr str m = ip4addr_ntoa_r s_addr str IP4ADDR_STRLEN_MAX m"

section \<open>Decimal digits of an octet\<close>

text \<open>The decimal representation of a number without leading zeros.\<close>

definition octet :: "nat \<Rightarrow> u8 list" where
  "octet n = (if n = 0 then [48] else dec n)"

lemma octet_digit: "n < 10 \<Longrightarrow> octet n = [of_nat (48 + n)]"
  by (cases "n = 0") (simp_all add: octet_def dec_pos)

lemma octet_snoc: "10 \<le> n \<Longrightarrow> octet n = octet (n div 10) @ [of_nat (48 + n mod 10)]"
  by (auto simp: octet_def dec_pos)

lemma octet_nonempty [simp]: "octet n \<noteq> []"
  by (auto simp: octet_def dec_pos)

lemma ntoa_digits_ok: "ntoa_digits ap iv = iv @ rev (octet (unat ap))"
proof (induction ap iv rule: ntoa_digits.induct)
  case (1 ap iv)
  have r: "(48 + ap mod 10 :: u8) = of_nat (48 + unat ap mod 10)"
    by (simp add: word_unat_eq_iff unat_mod unat_word_ariths unat_of_nat mod_simps)
  have d: "ap div 10 = 0 \<longleftrightarrow> unat ap < 10"
    by (simp add: unat_eq_zero [symmetric] unat_div div_eq_0_iff del: unat_eq_zero)
  show ?case
  proof (cases "ap div 10 = 0")
    case True
    then have "octet (unat ap) = [48 + ap mod 10]" using d r by (simp add: octet_digit)
    then show ?thesis using True by (subst ntoa_digits.simps) (simp add: Let_def)
  next
    case False
    have "octet (unat ap) = octet (unat (ap div 10)) @ [48 + ap mod 10]"
      using False d by (simp add: octet_snoc unat_div r del: of_nat_add)
    then show ?thesis using False 1 by (subst ntoa_digits.simps) (simp add: Let_def)
  qed
qed

section \<open>Writing\<close>

definition write_str :: "addr \<Rightarrow> u8 list \<Rightarrow> (addr \<Rightarrow> u8) \<Rightarrow> addr \<Rightarrow> u8" where
  "write_str a cs m = (\<lambda>x. if a \<le> x \<and> x < a + length cs then cs ! (x - a) else m x)"

lemma write_str_Nil [simp]: "write_str a [] m = m"
  by (auto simp: write_str_def fun_eq_iff)

lemma write_str_Cons: "write_str a (c # cs) m = write_str (a + 1) cs (m(a := c))"
  by (auto simp: write_str_def fun_eq_iff nth_Cons' split: if_splits)

lemma write_str_snoc: "write_str a (cs @ [c]) m = (write_str a cs m)(a + length cs := c)"
  by (auto simp: write_str_def fun_eq_iff nth_append)

lemma ntoa_put_ok:
  "cs \<noteq> [] \<Longrightarrow> ntoa_put buflen cs m rp len =
     (if len + int (length cs) \<le> buflen then (write_str rp cs m, Some (rp + length cs, len + int (length cs)))
      else (write_str rp (take (nat (buflen - len)) cs) m, None))"
proof (induction cs arbitrary: m rp len)
  case (Cons c cs)
  show ?case
  proof (cases "cs = []")
    case True
    then show ?thesis by (auto simp: write_str_Cons)
  next
    case False
    have "take (nat (buflen - len)) (c # cs) = (if len \<ge> buflen then [] else c # take (nat (buflen - (len + 1))) cs)"
    proof (cases "len \<ge> buflen")
      case False
      then have "nat (buflen - len) = Suc (nat (buflen - (len + 1)))" by simp
      then show ?thesis using False by simp
    qed simp
    then show ?thesis using Cons.IH [OF False] by (auto simp: write_str_Cons algebra_simps)
  qed
qed simp

lemma ntoa_put_append:
  "ntoa_put buflen (xs @ ys) m rp len =
     (case ntoa_put buflen xs m rp len of (m, None) \<Rightarrow> (m, None) | (m, Some (rp, len)) \<Rightarrow> ntoa_put buflen ys m rp len)"
  by (induction xs arbitrary: m rp len) auto

lemma ntoa_loop_put:
  "ntoa_loop buflen aps m rp len = ntoa_put buflen (concat (map (\<lambda>ap. octet (unat ap) @ [46]) aps)) m rp len"
  by (induction aps arbitrary: m rp len)
    (simp_all add: ntoa_digits_ok ntoa_put_append split: prod.splits option.splits)

text \<open>The dotted decimal representation of four numbers.\<close>

definition dotted :: "nat \<Rightarrow> nat \<Rightarrow> nat \<Rightarrow> nat \<Rightarrow> u8 list" where
  "dotted a b c d = octet a @ 46 # octet b @ 46 # octet c @ 46 # octet d"

definition ip4_octet :: "u32 \<Rightarrow> nat \<Rightarrow> nat" where
  "ip4_octet s_addr i = unat s_addr div 256 ^ i mod 256"

definition ip4_text :: "u32 \<Rightarrow> u8 list" where
  "ip4_text a = dotted (ip4_octet a 0) (ip4_octet a 1) (ip4_octet a 2) (ip4_octet a 3)"

lemma unat_addr_byte: "unat (ucast (drop_bit (8 * i) a) :: u8) = ip4_octet a i"
  by (simp add: ip4_octet_def unsigned_ucast_eq take_bit_eq_mod unat_drop_bit power_mult)

lemma ntoa_r_ok:
  "ip4addr_ntoa_r a buf buflen m =
     (if int (length (ip4_text a)) < buflen then (write_str buf (ip4_text a @ [0]) m, buf)
      else (write_str buf (take (nat buflen) (ip4_text a @ [46])) m, NULL))"
proof -
  have t: "concat (map (\<lambda>ap. octet (unat ap) @ [46]) (addr_bytes a)) = ip4_text a @ [46]"
    unfolding addr_bytes_def ip4_text_def dotted_def 
    using unat_addr_byte [of 0 a] unat_addr_byte [of 1 a] unat_addr_byte [of 2 a] unat_addr_byte [of 3 a] by simp
  have u: "(write_str buf (ip4_text a @ [46]) m)(buf + length (ip4_text a) := 0) = write_str buf (ip4_text a @ [0]) m"
    by (simp add: write_str_snoc)
  show ?thesis
    unfolding ip4addr_ntoa_r_def ntoa_loop_put t by (simp add: ntoa_put_ok u)
qed

lemma octet_length: "n < 256 \<Longrightarrow> length (octet n) \<le> 3"
proof -
  assume "n < 256"
  then have "n div 10 div 10 < 10" by simp
  then have "length (octet (n div 10 div 10)) = 1" by (simp add: octet_digit)
  then show ?thesis using octet_snoc [of n] octet_snoc [of "n div 10"] octet_digit [of n] octet_digit [of "n div 10"]
    by (cases "n < 10"; cases "n div 10 < 10") auto
qed

lemma ip4_text_length: "length (ip4_text a) \<le> 15"
proof -
  have "length (octet (ip4_octet a i)) \<le> 3" for i by (intro octet_length) (simp add: ip4_octet_def)
  from this [of 0] this [of 1] this [of 2] this [of 3] show ?thesis by (simp add: ip4_text_def dotted_def)
qed

section \<open>Reading\<close>

primrec chars :: "(addr \<Rightarrow> u8) \<Rightarrow> addr \<Rightarrow> u8 list \<Rightarrow> bool" where
  "chars m a [] \<longleftrightarrow> True"
| "chars m a (c # cs) \<longleftrightarrow> m a = c \<and> chars m (a + 1) cs"

lemma chars_append [simp]: "chars m a (xs @ ys) \<longleftrightarrow> chars m a xs \<and> chars m (a + length xs) ys"
  by (induction xs arbitrary: a) auto

lemma chars_cstring: "cstring m a xs \<Longrightarrow> chars m a (xs @ [0])"
proof (induction xs arbitrary: a)
  case (Cons x xs)
  then show ?case using Cons.IH [of "a + 1"] by simp
qed simp

lemma chars_write: "chars (write_str a cs m) a cs"
proof (induction cs arbitrary: a m)
  case (Cons c cs)
  have "write_str (a + 1) cs (m(a := c)) a = c" by (simp add: write_str_def)
  then show ?case using Cons by (simp add: write_str_Cons)
qed simp

lemma aton_digits_ok:
  assumes "chars m cp (xs @ [c])" and "\<forall>x\<in>set xs. lwip_isdigit x" and "\<not> lwip_isdigit c"
  shows "aton_digits m 10 val cp = Some (foldl (\<lambda>v c. v * 10 + (ucast c - 48)) val xs, cp + length xs)"
  using assms
proof (induction xs arbitrary: val cp)
  case Nil
  then show ?case by (subst aton_digits.simps) simp
next
  case (Cons x xs)
  then show ?case using Cons.IH [of "cp + 1"] by (subst aton_digits.simps) simp
qed

lemma digit_char:
  assumes "n < 10"
  shows "lwip_isdigit (of_nat (48 + n))" and "(ucast (of_nat (48 + n) :: u8) :: u32) - 48 = of_nat n"
proof -
  have u: "unat (of_nat (48 + n) :: u8) = 48 + n" using assms by (intro unat_of_nat_id) simp
  then show "lwip_isdigit (of_nat (48 + n))" using assms by (simp add: lwip_isdigit_def word_le_nat_alt del: of_nat_add)
  have "(ucast (of_nat (48 + n) :: u8) :: u32) = of_nat (48 + n)"
    using u by (simp add: word_unat_eq_iff unsigned_ucast_eq unat_of_nat_id take_bit_nat_eq_self assms less_trans [OF assms] del: of_nat_add)
  then show "(ucast (of_nat (48 + n) :: u8) :: u32) - 48 = of_nat n" by simp
qed

lemma dec_value:
  "foldl (\<lambda>v c. v * 10 + (ucast c - 48)) (0 :: u32) (dec n) = of_nat n \<and> (\<forall>x\<in>set (dec n). lwip_isdigit x)"
proof (induction n rule: dec.induct)
  case (1 n)
  show ?case
  proof (cases "n = 0")
    case False
    have "(of_nat (n div 10) * 10 + of_nat (n mod 10) :: u32) = of_nat (n div 10 * 10 + n mod 10)"
      by (simp only: of_nat_add of_nat_mult of_nat_numeral)
    also have "\<dots> = of_nat n" by (simp only: div_mult_mod_eq)
    finally show ?thesis using False 1 digit_char [of "n mod 10"] by (simp add: dec_pos)
  qed simp
qed

text \<open>A decimal number has no leading zero, so it is not taken for an octal one.\<close>

lemma dec_head: "n \<noteq> 0 \<Longrightarrow> hd (dec n) \<noteq> 48 \<and> dec n \<noteq> []"
proof (induction n rule: dec.induct)
  case (1 n)
  have "(of_nat (48 + n mod 10) :: u8) = 48 \<longleftrightarrow> n mod 10 = 0"
    using mod_less_divisor [of 10 n] by (simp add: word_unat_eq_iff unat_of_nat_id del: of_nat_add mod_less_divisor)
  then show ?case using 1 dec_pos [OF 1(2)]
    by (cases "n div 10 = 0") (auto simp: hd_append simp del: of_nat_add)
qed

lemma octet_parse:
  assumes "chars m cp (octet n @ [c])" and "c = 46 \<or> c = 0"
  shows "lwip_isdigit (m cp)"
    and "(case aton_base m cp of (base, cp) \<Rightarrow> aton_digits m base 0 cp) = Some (of_nat n, cp + length (octet n))"
proof -
  have c: "\<not> lwip_isdigit c" "\<not> lwip_isxdigit c" "c \<noteq> 120" "c \<noteq> 88"
    using assms(2) by (auto simp: lwip_isdigit_def lwip_isxdigit_def)
  have *: "lwip_isdigit (m cp) \<and> (case aton_base m cp of (base, cp) \<Rightarrow> aton_digits m base 0 cp) = Some (of_nat n, cp + length (octet n))"
  proof (cases "n = 0")
    case True
    then have "m cp = 48" "m (cp + 1) = c" using assms(1) by (simp_all add: octet_def)
    moreover have "aton_digits m 8 0 (cp + 1) = Some (0, cp + 1)"
      using c calculation(2) by (subst aton_digits.simps) simp
    ultimately show ?thesis using True c by (simp add: aton_base_def octet_def) (simp add: lwip_isdigit_def)
  next
    case False
    then have o: "octet n = dec n" by (simp add: octet_def)
    have h: "m cp = hd (dec n)" using assms(1) dec_head [OF False] by (cases "dec n") (simp_all add: o)
    have d: "lwip_isdigit (hd (dec n))" using dec_head [OF False] dec_value [of n] by (cases "dec n") auto
    have "aton_digits m 10 0 cp = Some (of_nat n, cp + length (dec n))"
      using aton_digits_ok [of m cp "dec n" c 0] assms(1) c(1) dec_value [of n] by (simp add: o)
    then show ?thesis using h d dec_head [OF False] by (simp add: aton_base_def o)
  qed
  from * show "lwip_isdigit (m cp)" ..
  from * show "(case aton_base m cp of (base, cp) \<Rightarrow> aton_digits m base 0 cp) = Some (of_nat n, cp + length (octet n))" ..
qed

lemma aton_parts_octet:
  assumes "chars m cp (octet n @ [c])" and "c = 46 \<or> c = 0"
  shows "aton_parts m parts cp =
    (if c = 46 then (if length parts \<ge> 3 then Some None else aton_parts m (parts @ [of_nat n]) (cp + length (octet n) + 1))
     else Some (Some (parts, of_nat n, cp + length (octet n))))"
proof -
  have "m (cp + length (octet n)) = c" using assms(1) by simp
  then show ?thesis using octet_parse [OF assms]
    by (subst aton_parts.simps) (auto split: prod.splits simp: Let_def)
qed

lemma aton_parts_dotted:
  assumes "chars m cp (dotted a b c d @ [0])"
  shows "\<exists>cp'. aton_parts m [] cp = Some (Some ([of_nat a, of_nat b, of_nat c], of_nat d, cp')) \<and> m cp' = 0"
proof -
  let ?b = "cp + length (octet a) + 1"
  let ?c = "?b + length (octet b) + 1"
  let ?d = "?c + length (octet c) + 1"
  have "chars m cp (octet a @ [46])" "chars m ?b (octet b @ [46])" "chars m ?c (octet c @ [46])" "chars m ?d (octet d @ [0])"
    using assms by (simp_all add: dotted_def add.assoc)
  then show ?thesis by (simp add: aton_parts_octet)
qed

lemma and_FF: "x \<le> 0xFF \<Longrightarrow> x AND 0xFF = x" for x :: u32
proof -
  assume "x \<le> 0xFF"
  then have "unat x < 2 ^ 8" by (simp add: word_le_nat_alt)
  then show ?thesis by (simp add: mask_8 word_unat_eq_iff unat_and_mask)
qed

lemma aton_ok:
  assumes "chars m cp (dotted a b c d @ [0])"
  shows "ip4addr_aton m cp = Some
    (if \<forall>n \<in> {a, b, c, d}. n mod 2 ^ 32 < 256 then Some (IP4_ADDR (of_nat a) (of_nat b) (of_nat c) (of_nat d)) else None)"
proof -
  have g: "(of_nat n :: u32) > 0xFF \<longleftrightarrow> \<not> n mod 2 ^ 32 < 256" for n
    by (simp add: word_less_nat_alt unat_of_nat) linarith
  have le: "(of_nat n :: u32) \<le> 0xFF" if "n mod 2 ^ 32 < 256" for n using that g [of n] by simp
  obtain cp' where 1: "aton_parts m [] cp = Some (Some ([of_nat a, of_nat b, of_nat c], of_nat d, cp'))" "m cp' = 0"
    using aton_parts_dotted [OF assms] by blast
  have "aton_combine [of_nat a, of_nat b, of_nat c] (of_nat d) =
     (if \<forall>n \<in> {a, b, c, d}. n mod 2 ^ 32 < 256 then Some (LWIP_MAKEU32 (of_nat a) (of_nat b) (of_nat c) (of_nat d)) else None)"
    unfolding aton_combine_def LWIP_MAKEU32_def list.case g
    by (auto simp: and_FF le or.assoc or.commute or.left_commute)
  then show ?thesis using 1 by (simp add: ip4addr_aton_def IP4_ADDR_def)
qed

lemma bit_MAKEU32:
  "bit (LWIP_MAKEU32 a b c d) n \<longleftrightarrow>
     (if n < 8 then bit d n else if n < 16 then bit c (n - 8) else if n < 24 then bit b (n - 16) else n < 32 \<and> bit a (n - 24))"
  unfolding LWIP_MAKEU32_def mask_8 by (simp add: bit_or_iff bit_push_bit_iff bit_and_iff bit_mask_iff) auto

lemma IP4_ADDR_octets: "IP4_ADDR (of_nat (ip4_octet a 0)) (of_nat (ip4_octet a 1)) (of_nat (ip4_octet a 2)) (of_nat (ip4_octet a 3)) = a"
proof -
  have o: "(of_nat (ip4_octet a i) :: u32) = drop_bit (8 * i) a AND mask 8" for i
    by (simp add: word_unat_eq_iff unat_and_mask unat_drop_bit ip4_octet_def power_mult unat_of_nat_id
        order_less_trans [OF mod_less_divisor])
  show ?thesis unfolding IP4_ADDR_def
  proof (rule bit_word_eqI)
    fix n
    assume "n < LENGTH(32)"
    then consider "n < 8" | "8 \<le> n" "n < 16" | "16 \<le> n" "n < 24" | "24 \<le> n" "n < 32" by force
    then show "bit (lwip_htonl (LWIP_MAKEU32 (of_nat (ip4_octet a 0)) (of_nat (ip4_octet a 1)) (of_nat (ip4_octet a 2)) (of_nat (ip4_octet a 3)))) n = bit a n"
      unfolding o bit_htonl by cases (auto simp: bit_MAKEU32 bit_and_iff bit_mask_iff bit_drop_bit_eq)
  qed
qed

section \<open>Netmasks and broadcast addresses\<close>

lemma and_push_1: "nm AND push_bit i 1 \<noteq> 0 \<longleftrightarrow> bit nm i" for nm :: u32
  by (simp add: push_bit_of_1 and_exp_eq_0_iff_not_bit)

lemma push_1_nonzero: "i < 32 \<Longrightarrow> push_bit i 1 \<noteq> (0 :: u32)"
  by (simp add: push_bit_of_1)

lemma drop_push_1: "Suc i < 32 \<Longrightarrow> drop_bit 1 (push_bit (Suc i) 1 :: u32) = push_bit i 1"
  by (rule bit_word_eqI) (auto simp: bit_drop_bit_eq bit_push_bit_iff bit_1_iff simp del: push_bit_of_1 push_bit_Suc)

lemma netmask_zeros_ok: "i < 32 \<Longrightarrow> netmask_zeros nm (push_bit i 1) \<longleftrightarrow> (\<forall>j\<le>i. \<not> bit nm j)"
proof (induction i)
  case 0
  have "drop_bit 1 (push_bit 0 1 :: u32) = 0" by simp
  then show ?case using and_push_1 [of nm 0] by (simp add: netmask_zeros.simps)
next
  case (Suc i)
  then show ?case using push_1_nonzero [of "Suc i"] and_push_1 [of nm "Suc i"] drop_push_1 [of i]
    by (subst netmask_zeros.simps) (auto simp: le_Suc_eq)
qed

lemma threshold_Suc:
  "P (Suc i) \<Longrightarrow> (\<exists>k\<le>Suc (Suc i). \<forall>j\<le>Suc i. P j \<longleftrightarrow> k \<le> j) \<longleftrightarrow> (\<exists>k\<le>Suc i. \<forall>j\<le>i. P j \<longleftrightarrow> k \<le> j)"
  "\<not> P (Suc i) \<Longrightarrow> (\<exists>k\<le>Suc (Suc i). \<forall>j\<le>Suc i. P j \<longleftrightarrow> k \<le> j) \<longleftrightarrow> (\<forall>j\<le>Suc i. \<not> P j)"
   apply (metis le_Suc_eq le_refl not_less_eq_eq)
  apply (metis le_refl le_Suc_eq not_less_eq_eq order_trans)
  done

lemma netmask_ones_ok:
  "i < 32 \<Longrightarrow> netmask_zeros nm (netmask_ones nm (push_bit i 1)) \<longleftrightarrow> (\<exists>k\<le>Suc i. \<forall>j\<le>i. bit nm j \<longleftrightarrow> k \<le> j)"
proof (induction i)
  case 0
  have "drop_bit 1 (push_bit 0 1 :: u32) = 0" by simp
  then show ?case using and_push_1 [of nm 0] by (auto simp: netmask_zeros.simps netmask_ones.simps)
next
  case (Suc i)
  show ?case
  proof (cases "bit nm (Suc i)")
    case True
    then have "netmask_ones nm (push_bit (Suc i) 1) = netmask_ones nm (push_bit i 1)"
      using Suc.prems push_1_nonzero [of "Suc i"] and_push_1 [of nm "Suc i"] drop_push_1 [of i]
      by (subst netmask_ones.simps) simp
    then show ?thesis using Suc True by (simp add: threshold_Suc(1) [of "bit nm"])
  next
    case False
    then have "netmask_ones nm (push_bit (Suc i) 1) = push_bit (Suc i) 1"
      using and_push_1 [of nm "Suc i"] by (subst netmask_ones.simps) simp
    then show ?thesis using netmask_zeros_ok [OF Suc.prems, of nm] by (simp only: threshold_Suc(2) [of "bit nm", OF False])
  qed
qed

lemma netmask_valid_ok: "ip4_addr_netmask_valid nm \<longleftrightarrow> (\<exists>k\<le>32. lwip_htonl nm = NOT (mask k))"
proof -
  have "ip4_addr_netmask_valid nm \<longleftrightarrow> (\<exists>k\<le>32. \<forall>j\<le>31. bit (lwip_htonl nm) j \<longleftrightarrow> k \<le> j)"
    unfolding ip4_addr_netmask_valid_def Let_def by (subst netmask_ones_ok) simp_all
  moreover have "(\<forall>j\<le>31. bit (lwip_htonl nm) j \<longleftrightarrow> k \<le> j) \<longleftrightarrow> lwip_htonl nm = NOT (mask k)" for k
  proof -
    have "j \<le> 31 \<longleftrightarrow> j < 32" for j :: nat by auto
    moreover have "lwip_htonl nm = NOT (mask k) \<longleftrightarrow> (\<forall>j<32. bit (lwip_htonl nm) j = bit (NOT (mask k) :: u32) j)"
      by (auto intro: bit_word_eqI)
    ultimately show ?thesis by (simp add: bit_not_iff bit_mask_iff not_less)
  qed
  ultimately show ?thesis by simp
qed

lemma directed_broadcast:
  "addr AND nm = ip AND nm \<and> addr AND NOT nm = 0xFFFFFFFF AND NOT nm \<longleftrightarrow> addr = (ip AND nm) OR NOT nm" for addr nm ip :: u32
proof -
  have "(0xFFFFFFFF :: u32) = -1" by simp
  then show ?thesis by (auto simp: bit_eq_iff bit_and_iff bit_or_iff bit_not_iff)
qed

section \<open>Properties\<close>

text \<open>
  C36 Printing an address and parsing the text gives the address back. \<open>ip4addr_ntoa_r\<close> succeeds
  exactly when the dotted decimal text and its terminating zero fit into the buffer, which holds for
  every address with \<open>IP4ADDR_STRLEN_MAX\<close> bytes; it writes nothing outside the buffer in either
  case, and \<open>ip4addr_aton\<close> and \<open>ipaddr_addr\<close> read the printed address from the buffer.
\<close>

theorem ip4_ntoa_aton_round_trip:
  fixes a :: u32
  shows "(case ip4addr_ntoa_r a buf buflen m of (m', r) \<Rightarrow>
      (\<forall>x. x < buf \<or> buf + nat buflen \<le> x \<longrightarrow> m' x = m x) \<and>
      (if int (length (ip4_text a)) < buflen
       then r = buf \<and> chars m' buf (ip4_text a @ [0]) \<and> ip4addr_aton m' buf = Some (Some a) \<and> ipaddr_addr m' buf = Some a
       else r = NULL))
    \<and> int (length (ip4_text a)) < IP4ADDR_STRLEN_MAX"
proof -
  let ?m = "write_str buf (ip4_text a @ [0]) m"
  have len: "int (length (ip4_text a)) < IP4ADDR_STRLEN_MAX"
    using ip4_text_length [of a] by (simp add: IP4ADDR_STRLEN_MAX_def)
  have small: "\<forall>n \<in> {ip4_octet a 0, ip4_octet a 1, ip4_octet a 2, ip4_octet a 3}. n mod 2 ^ 32 < 256"
    by (simp add: ip4_octet_def mod_less order_less_trans [OF mod_less_divisor])
  have c: "chars ?m buf (ip4_text a @ [0])" by (rule chars_write)
  then have "ip4addr_aton ?m buf = Some (Some a)"
    using aton_ok [OF c [unfolded ip4_text_def]] small by (simp add: IP4_ADDR_octets [unfolded One_nat_def] ip4_text_def)
  then show ?thesis using c len
    by (auto simp: ntoa_r_ok ipaddr_addr_def write_str_def)
qed

theorem ip4_ntoa_aton_round_trip_witness:
  "\<exists>m'. ip4addr_ntoa_r 0x0100007F 100 16 (\<lambda>_. 0) = (m', 100) \<and> ip4addr_aton m' 100 = Some (Some 0x0100007F)"
proof -
  have "int (length (ip4_text 0x0100007F)) < 16"
    using ip4_text_length [of "0x0100007F"] by simp
  then show ?thesis using ip4_ntoa_aton_round_trip [of 100 16 "\<lambda>_. 0" "0x0100007F"] by (auto split: prod.splits)
qed

text \<open>
  Parsing of four decimal parts. \<open>ip4addr_aton\<close> ends on the string \<open>a.b.c.d\<close> of any four numbers.
  It accepts it exactly when every part, reduced modulo \<open>2 ^ 32\<close>, is an octet, and then returns the
  address \<open>IP4_ADDR\<close> makes of the parts. The reduction is visible: \<open>1.2.3.4294967300\<close> is accepted
  as \<open>1.2.3.4\<close>, although the checks of the parts are there to refuse it.
\<close>

lemma ip4addr_aton_dotted:
  assumes "cstring m cp (dotted a b c d)"
  shows "ip4addr_aton m cp = Some
    (if \<forall>n \<in> {a, b, c, d}. n mod 2 ^ 32 < 256 then Some (IP4_ADDR (of_nat a) (of_nat b) (of_nat c) (of_nat d)) else None)"
  using chars_cstring [OF assms] by (rule aton_ok)

definition demo_text :: "addr \<Rightarrow> u8" where
  "demo_text = write_str 50 (dotted 1 2 3 4294967300 @ [0]) (\<lambda>_. 7)"

text \<open>
  The tests on addresses. \<open>ip4_addr_netmask_valid\<close> holds exactly of the masks whose ones, in
  host order, come before all their zeros. \<open>ip4_addr_isbroadcast_u32\<close> holds exactly of the two
  special addresses and, on an interface that can broadcast, of the directed broadcast address of
  its network when that is not its own address.
\<close>

lemma ip4_tests_correct:
  "(ip4_addr_netmask_valid nm \<longleftrightarrow> (\<exists>k\<in>{..32}. lwip_htonl nm = NOT (mask k))) \<and>
   (ip4_addr_isbroadcast_u32 addr netif \<longleftrightarrow>
      addr = 0 \<or> addr = NOT 0 \<or>
      (bit (nif_flags netif) 1 \<and> addr \<noteq> nif_ip_addr netif \<and>
       addr = (nif_ip_addr netif AND nif_netmask netif) OR NOT (nif_netmask netif)))"
proof -
  have f: "nif_flags netif AND NETIF_FLAG_BROADCAST = 0 \<longleftrightarrow> \<not> bit (nif_flags netif) 1"
    using and_exp_eq_0_iff_not_bit [of "nif_flags netif" 1] by (simp add: NETIF_FLAG_BROADCAST_def)
  have n: "NOT addr = 0 \<longleftrightarrow> addr = NOT 0" by (metis bit.double_compl)
  have "ip4_addr_isbroadcast_u32 addr netif \<longleftrightarrow>
      addr = 0 \<or> addr = NOT 0 \<or>
      (bit (nif_flags netif) 1 \<and> addr \<noteq> nif_ip_addr netif \<and>
       addr = (nif_ip_addr netif AND nif_netmask netif) OR NOT (nif_netmask netif))"
    unfolding ip4_addr_isbroadcast_u32_def ip4_addr_net_eq_def IPADDR_ANY_def IPADDR_BROADCAST_def directed_broadcast f n
    by auto
  then show ?thesis by (auto simp: netmask_valid_ok)
qed

end
