(* ===== verification/Ethernet.thy ===== *)
theory Ethernet
  imports Pbuf_Data Ip4_Addr
begin

text \<open>
  Network interfaces and the sending half of \<open>lwip/src/netif/ethernet.c\<close>. The state of the link layer is
  one record: the interfaces, the packet buffers, the statistics, the ARP table and its queue elements, the
  modules of address conflict detection, and a state \<open>'w\<close> of what lies behind \<open>netif->linkoutput\<close>. That
  function belongs to the driver and is called through a pointer: it is a parameter of the operations. It may
  change the packet buffers and the driver, and it may fail to return (\<open>None\<close>).

  Hardware addresses are lists of six bytes and are passed by value. Stores of 16 bits are little endian.
\<close>

unbundle bit_operations_syntax

section \<open>State\<close>

type_synonym eth_addr = "u8 list"

text \<open>\<open>struct netif\<close>: the fields that the link layer reads, beside those of \<open>Ip4_Addr\<close>.\<close>

record eth_netif = netif +
  nif_next :: addr
  nif_gw :: u32
  nif_hwaddr :: eth_addr
  nif_num :: u8
  nif_acd_list :: addr

datatype etharp_state =
  ETHARP_STATE_EMPTY | ETHARP_STATE_PENDING | ETHARP_STATE_STABLE
  | ETHARP_STATE_STABLE_REREQUESTING_1 | ETHARP_STATE_STABLE_REREQUESTING_2

record etharp_entry =
  ae_q :: addr
  ae_ipaddr :: u32
  ae_netif :: addr
  ae_ethaddr :: eth_addr
  ae_ctime :: u16
  ae_state :: etharp_state

record etharp_q_entry =
  q_next :: addr
  q_p :: addr

datatype acd_state_enum =
  ACD_STATE_OFF | ACD_STATE_PROBE_WAIT | ACD_STATE_PROBING | ACD_STATE_ANNOUNCE_WAIT | ACD_STATE_ANNOUNCING
  | ACD_STATE_ONGOING | ACD_STATE_PASSIVE_ONGOING | ACD_STATE_RATE_LIMIT

text \<open>\<open>struct acd\<close>; the function pointer \<open>acd_conflict_callback\<close> is a number.\<close>

record acd =
  acd_next :: addr
  acd_ipaddr :: u32
  acd_state :: acd_state_enum
  acd_sent_num :: u8
  acd_ttw :: u16
  acd_lastconflict :: u8
  acd_num_conflicts :: u8
  acd_conflict_callback :: nat

text \<open>\<open>struct stats_proto\<close> (stats.h); counters are 16 bits wide.\<close>

record stats_proto =
  sp_xmit :: u16
  sp_recv :: u16
  sp_fw :: u16
  sp_drop :: u16
  sp_chkerr :: u16
  sp_lenerr :: u16
  sp_memerr :: u16
  sp_rterr :: u16
  sp_proterr :: u16
  sp_opterr :: u16
  sp_err :: u16
  sp_cachehit :: u16

record 'w link_state =
  netif_list :: addr
  netifs :: "addr \<Rightarrow> eth_netif option"
  arp_table :: "etharp_entry list"
  etharp_cached_entry :: u8
  arp_queue :: memp_pool
  q_ents :: "addr \<Rightarrow> etharp_q_entry option"
  acds :: "addr \<Rightarrow> acd option"
  pbm :: pb_state
  stats_etharp :: stats_proto
  stats_link :: stats_proto
  rand_state :: "nat \<Rightarrow> u32"
  wire :: 'w

type_synonym 'w linkoutput = "addr \<Rightarrow> addr \<Rightarrow> pb_state \<Rightarrow> 'w \<Rightarrow> (err_t \<times> pb_state \<times> 'w) option"

definition ETHARP_STATS_INC :: "((u16 \<Rightarrow> u16) \<Rightarrow> stats_proto \<Rightarrow> stats_proto) \<Rightarrow> 'w link_state \<Rightarrow> 'w link_state" where
  "ETHARP_STATS_INC f s = s\<lparr>stats_etharp := f (\<lambda>n. n + 1) (stats_etharp s)\<rparr>"

definition LINK_STATS_INC :: "((u16 \<Rightarrow> u16) \<Rightarrow> stats_proto \<Rightarrow> stats_proto) \<Rightarrow> 'w link_state \<Rightarrow> 'w link_state" where
  "LINK_STATS_INC f s = s\<lparr>stats_link := f (\<lambda>n. n + 1) (stats_link s)\<rparr>"

definition ethbroadcast :: eth_addr where [const_defs]: "ethbroadcast = [0xFF, 0xFF, 0xFF, 0xFF, 0xFF, 0xFF]"
definition ethzero :: eth_addr where [const_defs]: "ethzero = [0, 0, 0, 0, 0, 0]"

definition SIZEOF_ETH_HDR :: nat where [const_defs]: "SIZEOF_ETH_HDR = 16"
definition PBUF_LINK :: u16 where [const_defs]: "PBUF_LINK = 16"
definition ETHTYPE_IP :: u16 where [const_defs]: "ETHTYPE_IP = 0x0800"
definition ETHTYPE_ARP :: u16 where [const_defs]: "ETHTYPE_ARP = 0x0806"
definition ETHTYPE_IPV6 :: u16 where [const_defs]: "ETHTYPE_IPV6 = 0x86DD"

text \<open>Stores and loads of 16 and 32 bits on a little-endian machine.\<close>

definition le16 :: "u16 \<Rightarrow> u8 list" where
  "le16 x = [ucast x, ucast (drop_bit 8 x)]"

definition rd16 :: "(addr \<Rightarrow> u8) \<Rightarrow> addr \<Rightarrow> u16" where
  "rd16 m a = ucast (m a) OR push_bit 8 (ucast (m (a + 1)))"

definition rd32 :: "(addr \<Rightarrow> u8) \<Rightarrow> addr \<Rightarrow> u32" where
  "rd32 m a = ucast (m a) OR push_bit 8 (ucast (m (a + 1))) OR push_bit 16 (ucast (m (a + 2))) OR push_bit 24 (ucast (m (a + 3)))"

definition rdmac :: "(addr \<Rightarrow> u8) \<Rightarrow> addr \<Rightarrow> eth_addr" where
  "rdmac m a = map m [a..<a + 6]"

section \<open>Sending a frame\<close>

definition ethernet_output ::
  "'w linkoutput \<Rightarrow> addr \<Rightarrow> addr \<Rightarrow> eth_addr \<Rightarrow> eth_addr \<Rightarrow> u16 \<Rightarrow> 'w link_state \<Rightarrow> (err_t \<times> 'w link_state) option" where
  "ethernet_output linkoutput netif p src dst eth_type s =
     (let eth_type_be = lwip_htons eth_type in
      do {
        (r, b) \<leftarrow> pbuf_add_header p SIZEOF_ETH_HDR (pbm s);
        if r \<noteq> 0 then Some (ERR_BUF, LINK_STATS_INC sp_lenerr_update (s\<lparr>pbm := b\<rparr>))
        else do {
          c \<leftarrow> getp p b;
          let ethhdr = pb_payload c;
          let m = write_str (ethhdr + 14) (le16 eth_type_be) (bytes b);
          let m = write_str (ethhdr + 2) dst m;
          let m = write_str (ethhdr + 8) src m;
          (e, b, w) \<leftarrow> linkoutput netif p (b\<lparr>bytes := m\<rparr>) (wire s);
          Some (e, s\<lparr>pbm := b, wire := w\<rparr>)
        }
      })"


section \<open>Headers in memory\<close>

lemma write_str_same: "map (write_str a cs m) [a..<a + length cs] = cs"
  by (auto simp: write_str_def intro!: nth_equalityI)

lemma write_str_same': "c = a + length cs \<Longrightarrow> map (write_str a cs m) [a..<c] = cs"
  by (simp add: write_str_same)

lemma write_str_other: "a + length cs \<le> b \<or> c \<le> a \<Longrightarrow> map (write_str a cs m) [b..<c] = map m [b..<c]"
  by (auto simp: write_str_def)

lemma write_str_out: "x < a \<or> a + length cs \<le> x \<Longrightarrow> write_str a cs m x = m x"
  by (auto simp: write_str_def)

text \<open>A 16-bit number in network byte order.\<close>

definition be16 :: "u16 \<Rightarrow> u8 list" where
  "be16 x = [ucast (drop_bit 8 x), ucast x]"

lemma length_be16 [simp]: "length (be16 x) = 2" "length (le16 x) = 2"
  by (simp_all add: be16_def le16_def)

lemma le16_htons: "le16 (lwip_htons x) = be16 x"
proof -
  have u: "unat (ucast y :: u8) = unat y mod 256" for y :: u16 by (simp add: unsigned_ucast_eq unsigned_take_bit_eq take_bit_nat_def)
  have "unat x < 65536" by simp
  then have x: "unat x div 256 div 256 = 0" by (simp add: div_mult2_eq [symmetric])
  have "(256 * (unat x mod 256) + unat x div 256) mod 256 = unat x div 256 mod 256"
    "(256 * (unat x mod 256) + unat x div 256) div 256 mod 256 = unat x mod 256" using x by simp_all
  then show ?thesis unfolding le16_def be16_def
    by (simp add: word_unat_eq_iff u unat_drop_bit unat_htons)
qed

text \<open>The Ethernet header that \<open>ethernet_output\<close> writes, at address \<open>h\<close>.\<close>

definition eth_hdr_put :: "addr \<Rightarrow> eth_addr \<Rightarrow> eth_addr \<Rightarrow> u16 \<Rightarrow> (addr \<Rightarrow> u8) \<Rightarrow> addr \<Rightarrow> u8" where
  "eth_hdr_put h src dst ty m = write_str (h + 8) src (write_str (h + 2) dst (write_str (h + 14) (le16 (lwip_htons ty)) m))"

lemma eth_hdr_put_out: "x < h + 2 \<or> h + 16 \<le> x \<Longrightarrow> length src = 6 \<Longrightarrow> length dst = 6 \<Longrightarrow> eth_hdr_put h src dst ty m x = m x"
  by (auto simp: eth_hdr_put_def write_str_out)

lemma eth_hdr_put_read:
  assumes "length src = 6" and "length dst = 6"
  shows "map (eth_hdr_put h src dst ty m) [h + 2..<h + 16] = dst @ src @ be16 ty"
proof -
  let ?K = "write_str (h + 14) (be16 ty) m"
  let ?N = "write_str (h + 2) dst ?K"
  let ?M = "write_str (h + 8) src ?N"
  have "map ?M [h + 2..<h + 8] = map ?N [h + 2..<h + 8]" by (rule write_str_other) simp
  moreover have "map ?N [h + 2..<h + 8] = dst" by (rule write_str_same') (simp add: assms)
  moreover have "map ?M [h + 8..<h + 14] = src" by (rule write_str_same') (simp add: assms)
  moreover have "map ?M [h + 14..<h + 16] = map ?N [h + 14..<h + 16]" by (rule write_str_other) (simp add: assms)
  moreover have "map ?N [h + 14..<h + 16] = map ?K [h + 14..<h + 16]" by (rule write_str_other) (simp add: assms)
  moreover have "map ?K [h + 14..<h + 16] = be16 ty" by (rule write_str_same') simp
  moreover have "[h + 2..<h + 16] = [h + 2..<h + 8] @ [h + 8..<h + 14] @ [h + 14..<h + 16]"
    using upt_split_at [of "h + 2" "h + 8" "h + 16"] upt_split_at [of "h + 8" "h + 14" "h + 16"] by simp
  ultimately show ?thesis unfolding eth_hdr_put_def le16_htons by (simp only: map_append)
qed

text \<open>Adding a header in front of a packet.\<close>

lemma add_header_packet:
  assumes pk: "packet b p (p # qs)" and c: "getp p b = Some c" and n: "0 < n" "n \<le> 0xFFFF"
    and cont: "pb_type_internal c AND PBUF_TYPE_FLAG_STRUCT_DATA_CONTIGUOUS \<noteq> 0"
    and pay: "p + 16 + n \<le> pb_payload c" "pb_payload c < 2 ^ 32" and tot: "unat (pb_tot_len c) + n < 65536"
  defines "c' \<equiv> c\<lparr>pb_payload := pb_payload c - n, pb_len := pb_len c + of_nat n, pb_tot_len := pb_tot_len c + of_nat n\<rparr>"
  shows "pbuf_add_header p n b = Some (0, putp p c' b)" and "packet (putp p c' b) p (p # qs)"
    and "cells (pbufs (putp p c' b)) (p # qs) = [pb_payload c - n..<pb_payload c] @ cells (pbufs b) (p # qs)"
    and "unat (pb_tot_len c') = unat (pb_tot_len c) + n" and "unat (pb_len c') = unat (pb_len c) + n"
proof -
  have pn: "p \<noteq> NULL" "pbufs b p = Some c" using c by (auto simp: getp_some)
  have lk: "linked (nexts b) p (p # qs)" and to: "tot_ok (pbufs b) 0 (p # qs)" using pk by (auto simp: packet_def)
  have nq: "p \<notin> set qs" using linked_distinct [OF lk] by simp
  have u: "unat (of_nat n :: u16) = n" using n by (simp add: unat_of_nat_id)
  have tl: "unat (pb_tot_len c) = unat (pb_len c) + sum_len (pbufs b) qs" using to pn by (simp add: tlen_def blen_def)
  show t': "unat (pb_tot_len c') = unat (pb_tot_len c) + n" unfolding c'_def using tot u by (simp add: unat_add_no_wrap)
  show l': "unat (pb_len c') = unat (pb_len c) + n" unfolding c'_def using tot u tl by (simp add: unat_add_no_wrap)
  show "pbuf_add_header p n b = Some (0, putp p c' b)"
    unfolding pbuf_add_header_def using pbuf_add_header_cases [OF c n, of False] pay cont tot by (simp add: c'_def)
  have oth: "blen (pbufs (putp p c' b)) q = blen (pbufs b) q" "tlen (pbufs (putp p c' b)) q = tlen (pbufs b) q"
    "pbufs (putp p c' b) q = pbufs b q" if "q \<in> set qs" for q using that nq by (auto simp: blen_def tlen_def)
  have s: "sum_len (pbufs (putp p c' b)) qs = sum_len (pbufs b) qs" by (rule sum_len_cong) (rule oth)
  have "tot_ok (pbufs (putp p c' b)) 0 qs" using tot_ok_cong [of qs "pbufs (putp p c' b)" "pbufs b" 0] oth to by simp
  moreover have "tlen (pbufs (putp p c' b)) p = blen (pbufs (putp p c' b)) p + sum_len (pbufs (putp p c' b)) qs"
    unfolding s using t' l' tl by (simp add: tlen_def blen_def)
  moreover have "linked (nexts (putp p c' b)) p (p # qs)" using lk linked_putp [OF pn(2), of c'] by (simp add: c'_def)
  ultimately show "packet (putp p c' b) p (p # qs)" by (simp add: packet_def del: putp_simps)
  have cq: "cells (pbufs (putp p c' b)) qs = cells (pbufs b) qs"
    unfolding cells_def using oth by (intro arg_cong [of _ _ concat] map_cong) (auto simp del: putp_simps)
  have bp: "blen (pbufs (putp p c' b)) p = unat (pb_len c) + n" "blen (pbufs b) p = unat (pb_len c)" using l' pn(2) by (simp_all add: blen_def)
  have "[pb_payload c - n..<pb_payload c - n + (unat (pb_len c) + n)] = [pb_payload c - n..<pb_payload c] @ [pb_payload c..<pb_payload c + unat (pb_len c)]"
    using upt_add_eq_append [of "pb_payload c - n" "pb_payload c" "unat (pb_len c)"] pay(1) by (simp add: add.commute)
  then show "cells (pbufs (putp p c' b)) (p # qs) = [pb_payload c - n..<pb_payload c] @ cells (pbufs b) (p # qs)"
    unfolding cells_simps cq bp using pn(2) by (simp add: c'_def)
qed

section \<open>The contract of a driver\<close>

text \<open>A frame as the stack hands it to a driver: the chain, its first pbuf with the header and two bytes of padding.\<close>

definition sendable :: "addr set \<Rightarrow> pb_state \<Rightarrow> addr \<Rightarrow> addr list \<Rightarrow> bool" where
  "sendable D b p qs \<longleftrightarrow> packet b p (p # qs) \<and> unat (pb_tot_len (pb b p)) \<le> 1536 \<and> 16 \<le> unat (pb_len (pb b p)) \<and>
     pb_type_internal (pb b p) AND PBUF_TYPE_FLAG_STRUCT_DATA_CONTIGUOUS \<noteq> 0 \<and> p + 16 \<le> pb_payload (pb b p) \<and>
     pb_payload (pb b p) + 2 < 2 ^ 32 \<and> pb_ref (pb b p) \<noteq> 0 \<and> set (cells (pbufs b) (p # qs)) \<inter> D = {}"

text \<open>Short frames are filled up with zeros.\<close>

definition eth_padded :: "u8 list \<Rightarrow> u8 list" where
  "eth_padded f = f @ replicate (60 - length f) 0"

text \<open>
  What the stack relies on: a driver in order (\<open>ready\<close>) returns from \<open>linkoutput\<close>, writes only to memory of its own
  (\<open>D\<close>), leaves the pbufs as they are and stays in order. When the hardware works (\<open>good\<close>) it reports success
  and \<open>last_frame\<close>, what the hardware was given last, is the frame.
\<close>

locale link_driver =
  fixes lo :: "'w linkoutput" and D :: "addr set" and ready :: "'w \<Rightarrow> bool" and good :: "'w \<Rightarrow> bool"
    and last_frame :: "(addr \<Rightarrow> u8) \<Rightarrow> 'w \<Rightarrow> u8 list"
  assumes sends: "sendable D b p qs \<Longrightarrow> ready w \<Longrightarrow>
    \<exists>e m w'. lo netif p b w = Some (e, b\<lparr>bytes := m\<rparr>, w') \<and> ready w' \<and> (\<forall>a. a \<notin> D \<longrightarrow> m a = bytes b a) \<and>
      (good w \<longrightarrow> e = ERR_OK \<and> last_frame m w' = eth_padded (drop 2 (pdata b (p # qs))))"
begin

text \<open>\<open>ethernet_output\<close> puts the header in front and sends the frame.\<close>

lemma ethernet_output_ok:
  assumes pk: "packet (pbm s) p (p # qs)" and c: "getp p (pbm s) = Some c" and tot: "unat (pb_tot_len c) + 16 \<le> 1536"
    and cont: "pb_type_internal c AND PBUF_TYPE_FLAG_STRUCT_DATA_CONTIGUOUS \<noteq> 0"
    and pay: "p + 32 \<le> pb_payload c" "pb_payload c < 2 ^ 32" and ref: "pb_ref c \<noteq> 0"
    and D: "(set (cells (pbufs (pbm s)) (p # qs)) \<union> {pb_payload c - 16..<pb_payload c}) \<inter> D = {}"
    and hd: "set (cells (pbufs (pbm s)) (p # qs)) \<inter> {pb_payload c - 16..<pb_payload c} = {}"
    and mac: "length src = 6" "length dst = 6" and rdy: "ready (wire s)"
  defines "c' \<equiv> c\<lparr>pb_payload := pb_payload c - 16, pb_len := pb_len c + 16, pb_tot_len := pb_tot_len c + 16\<rparr>"
  shows "\<exists>e m w'. ethernet_output lo netif p src dst ty s = Some (e, s\<lparr>pbm := (putp p c' (pbm s))\<lparr>bytes := m\<rparr>, wire := w'\<rparr>) \<and> ready w' \<and>
    (\<forall>a. a \<notin> D \<and> a \<notin> {pb_payload c - 16..<pb_payload c} \<longrightarrow> m a = bytes (pbm s) a) \<and>
    (good (wire s) \<longrightarrow> e = ERR_OK \<and> last_frame m w' = eth_padded (dst @ src @ be16 ty @ pdata (pbm s) (p # qs)))"
proof -
  let ?h = "pb_payload c - 16" and ?b = "putp p c' (pbm s)"
  have h: "?h + 16 = pb_payload c" using pay(1) by simp
  have n: "(0::nat) < 16" "(16::nat) \<le> 0xFFFF" "p + 16 + 16 \<le> pb_payload c" "unat (pb_tot_len c) + 16 < 65536" using pay(1) tot by simp_all
  note a = add_header_packet [OF pk c n(1,2) cont n(3) pay(2) n(4)]
  have add: "pbuf_add_header p 16 (pbm s) = Some (0, ?b)" "packet ?b p (p # qs)"
    "cells (pbufs ?b) (p # qs) = [?h..<pb_payload c] @ cells (pbufs (pbm s)) (p # qs)"
    "unat (pb_tot_len c') = unat (pb_tot_len c) + 16" "unat (pb_len c') = unat (pb_len c) + 16"
    using a by (simp_all add: c'_def)
  have pn: "p \<noteq> NULL" using c by (auto simp: getp_some)
  define m where "m = eth_hdr_put ?h src dst ty (bytes (pbm s))"
  have cel: "cells (pbufs (?b\<lparr>bytes := m\<rparr>)) (p # qs) = [?h..<pb_payload c] @ cells (pbufs (pbm s)) (p # qs)" using add(3) by simp
  have "packet (?b\<lparr>bytes := m\<rparr>) p (p # qs)" using add(2) by (simp only: packet_bytes)
  then have "sendable D (?b\<lparr>bytes := m\<rparr>) p qs"
    unfolding sendable_def cel using add(4,5) tot cont pay ref D by (auto simp: c'_def)
  from sends [OF this rdy, of netif] obtain e m' w' where lo: "lo netif p (?b\<lparr>bytes := m\<rparr>) (wire s) = Some (e, ?b\<lparr>bytes := m'\<rparr>, w')" "ready w'"
    "\<forall>a. a \<notin> D \<longrightarrow> m' a = m a" "good (wire s) \<longrightarrow> e = ERR_OK \<and> last_frame m' w' = eth_padded (drop 2 (pdata (?b\<lparr>bytes := m\<rparr>) (p # qs)))"
    by auto
  have frame: "drop 2 (pdata (?b\<lparr>bytes := m\<rparr>) (p # qs)) = dst @ src @ be16 ty @ pdata (pbm s) (p # qs)"
  proof -
    have "map m (cells (pbufs (pbm s)) (p # qs)) = map (bytes (pbm s)) (cells (pbufs (pbm s)) (p # qs))"
      using hd h mac by (intro map_cong refl) (auto simp: m_def intro!: eth_hdr_put_out)
    moreover have "drop 2 (map m [?h..<pb_payload c]) = map m [?h + 2..<?h + 16]" by (simp only: drop_map drop_upt h)
    moreover have "length (map m [?h..<pb_payload c]) = 16" using h by simp
    ultimately show ?thesis unfolding pdata_def cel map_append using eth_hdr_put_read [OF mac, of ?h ty "bytes (pbm s)"]
      by (simp add: m_def)
  qed
  have "ethernet_output lo netif p src dst ty s = Some (e, s\<lparr>pbm := ?b\<lparr>bytes := m'\<rparr>, wire := w'\<rparr>)"
    using add(1) lo(1) pn by (simp add: ethernet_output_def SIZEOF_ETH_HDR_def getp_def Let_def m_def eth_hdr_put_def c'_def)
  moreover have "m' x = bytes (pbm s) x" if "x \<notin> D" "x \<notin> {?h..<pb_payload c}" for x
    using lo(3) that h mac by (auto simp: m_def intro!: eth_hdr_put_out)
  ultimately show ?thesis using lo(2,4) unfolding frame by blast
qed

end

end
