(* ===== verification/Etharp.thy ===== *)
theory Etharp
  imports Ethernet
begin

text \<open>
  The Address Resolution Protocol, \<open>lwip/src/core/ipv4/etharp.c\<close>: the table of addresses, the queues of packets
  that wait for an address, ageing, requests and output. Reception is in \<open>Ethernet_Input\<close>. In the configuration of
  the port \<open>ARP_QUEUEING\<close> is 1 and \<open>ARP_QUEUE_LEN\<close> 3, entries match address and interface
  (\<open>ETHARP_TABLE_MATCH_NETIF\<close>), there are no static entries and no hints, and \<open>LWIP_DEBUG\<close> is defined, so a
  freed entry is cleared. A queue is a linked list of elements of the pool \<open>MEMP_ARP_QUEUE\<close>.

  The abstraction of a queue is the list of its packets.
\<close>

unbundle bit_operations_syntax

definition ARP_TABLE_SIZE :: nat where [const_defs]: "ARP_TABLE_SIZE = 10"
definition ARP_MAXAGE :: u16 where [const_defs]: "ARP_MAXAGE = 300"
definition ARP_MAXPENDING :: u16 where [const_defs]: "ARP_MAXPENDING = 5"
definition ARP_QUEUE_LEN :: nat where [const_defs]: "ARP_QUEUE_LEN = 3"
definition ARP_AGE_REREQUEST_USED_UNICAST :: u16 where [const_defs]: "ARP_AGE_REREQUEST_USED_UNICAST = ARP_MAXAGE - 30"
definition ARP_AGE_REREQUEST_USED_BROADCAST :: u16 where [const_defs]: "ARP_AGE_REREQUEST_USED_BROADCAST = ARP_MAXAGE - 15"
definition ETHARP_FLAG_TRY_HARD :: u8 where [const_defs]: "ETHARP_FLAG_TRY_HARD = 1"
definition ETHARP_FLAG_FIND_ONLY :: u8 where [const_defs]: "ETHARP_FLAG_FIND_ONLY = 2"
definition SIZEOF_ETHARP_HDR :: u16 where [const_defs]: "SIZEOF_ETHARP_HDR = 28"
definition ARP_REQUEST :: u16 where [const_defs]: "ARP_REQUEST = 1"
definition ARP_REPLY :: u16 where [const_defs]: "ARP_REPLY = 2"

text \<open>The comparison \<open>state >= ETHARP_STATE_STABLE\<close>.\<close>

definition stable :: "etharp_state \<Rightarrow> bool" where
  "stable st \<longleftrightarrow> st \<noteq> ETHARP_STATE_EMPTY \<and> st \<noteq> ETHARP_STATE_PENDING"

definition ip4_addr_isany :: "u32 \<Rightarrow> bool" where "ip4_addr_isany a \<longleftrightarrow> a = IPADDR_ANY"
definition ip4_addr_ismulticast :: "u32 \<Rightarrow> bool" where
  "ip4_addr_ismulticast a \<longleftrightarrow> a AND lwip_htonl 0xF0000000 = lwip_htonl 0xE0000000"
definition ip4_addr_islinklocal :: "u32 \<Rightarrow> bool" where
  "ip4_addr_islinklocal a \<longleftrightarrow> a AND lwip_htonl 0xFFFF0000 = lwip_htonl 0xA9FE0000"

definition upd_entry :: "nat \<Rightarrow> (etharp_entry \<Rightarrow> etharp_entry) \<Rightarrow> 'w link_state \<Rightarrow> 'w link_state" where
  "upd_entry i f s = s\<lparr>arp_table := (arp_table s)[i := f (arp_table s ! i)]\<rparr>"

section \<open>Requests\<close>

text \<open>The stores that fill in \<open>struct etharp_hdr\<close> at address \<open>h\<close>, in the order of the code.\<close>

definition etharp_hdr_put :: "addr \<Rightarrow> u16 \<Rightarrow> eth_addr \<Rightarrow> u32 \<Rightarrow> eth_addr \<Rightarrow> u32 \<Rightarrow> (addr \<Rightarrow> u8) \<Rightarrow> addr \<Rightarrow> u8" where
  "etharp_hdr_put h opcode hwsrc ipsrc hwdst ipdst m =
     (let m = write_str (h + 6) (le16 (lwip_htons opcode)) m;
          m = write_str (h + 8) hwsrc m;
          m = write_str (h + 18) hwdst m;
          m = write_str (h + 14) (addr_bytes ipsrc) m;
          m = write_str (h + 24) (addr_bytes ipdst) m;
          m = write_str h (le16 (lwip_htons 1)) m;
          m = write_str (h + 2) (le16 (lwip_htons ETHTYPE_IP)) m
      in write_str (h + 4) [6, 4] m)"

definition etharp_raw ::
  "'w linkoutput \<Rightarrow> addr \<Rightarrow> eth_addr \<Rightarrow> eth_addr \<Rightarrow> eth_addr \<Rightarrow> u32 \<Rightarrow> eth_addr \<Rightarrow> u32 \<Rightarrow> u16 \<Rightarrow>
   'w link_state \<Rightarrow> (err_t \<times> 'w link_state) option" where
  "etharp_raw lo netif ethsrc_addr ethdst_addr hwsrc_addr ipsrc_addr hwdst_addr ipdst_addr opcode s =
     do {
       (p, b) \<leftarrow> pbuf_alloc PBUF_LINK SIZEOF_ETHARP_HDR PBUF_RAM (pbm s);
       let s = s\<lparr>pbm := b\<rparr>;
       if p = NULL then Some (ERR_MEM, ETHARP_STATS_INC sp_memerr_update s)
       else do {
         c \<leftarrow> getp p b;
         let m = etharp_hdr_put (pb_payload c) opcode hwsrc_addr ipsrc_addr hwdst_addr ipdst_addr (bytes b);
         let s = s\<lparr>pbm := b\<lparr>bytes := m\<rparr>\<rparr>;
         (_, s) \<leftarrow> (if ip4_addr_islinklocal ipsrc_addr
           then ethernet_output lo netif p ethsrc_addr ethbroadcast ETHTYPE_ARP s
           else ethernet_output lo netif p ethsrc_addr ethdst_addr ETHTYPE_ARP s);
         let s = ETHARP_STATS_INC sp_xmit_update s;
         (_, b) \<leftarrow> pbuf_free p (pbm s);
         Some (ERR_OK, s\<lparr>pbm := b\<rparr>)
       }
     }"

definition etharp_request_dst :: "'w linkoutput \<Rightarrow> addr \<Rightarrow> u32 \<Rightarrow> eth_addr \<Rightarrow> 'w link_state \<Rightarrow> (err_t \<times> 'w link_state) option" where
  "etharp_request_dst lo netif ipaddr hw_dst_addr s =
     do {
       nif \<leftarrow> netifs s netif;
       etharp_raw lo netif (nif_hwaddr nif) hw_dst_addr (nif_hwaddr nif) (nif_ip_addr nif) ethzero ipaddr ARP_REQUEST s
     }"

definition etharp_request :: "'w linkoutput \<Rightarrow> addr \<Rightarrow> u32 \<Rightarrow> 'w link_state \<Rightarrow> (err_t \<times> 'w link_state) option" where
  "etharp_request lo netif ipaddr s = etharp_request_dst lo netif ipaddr ethbroadcast s"

definition etharp_acd_probe :: "'w linkoutput \<Rightarrow> addr \<Rightarrow> u32 \<Rightarrow> 'w link_state \<Rightarrow> (err_t \<times> 'w link_state) option" where
  "etharp_acd_probe lo netif ipaddr s =
     do {
       nif \<leftarrow> netifs s netif;
       etharp_raw lo netif (nif_hwaddr nif) ethbroadcast (nif_hwaddr nif) IPADDR_ANY ethzero ipaddr ARP_REQUEST s
     }"

definition etharp_acd_announce :: "'w linkoutput \<Rightarrow> addr \<Rightarrow> u32 \<Rightarrow> 'w link_state \<Rightarrow> (err_t \<times> 'w link_state) option" where
  "etharp_acd_announce lo netif ipaddr s =
     do {
       nif \<leftarrow> netifs s netif;
       etharp_raw lo netif (nif_hwaddr nif) ethbroadcast (nif_hwaddr nif) ipaddr ethzero ipaddr ARP_REQUEST s
     }"

section \<open>The table\<close>

partial_function (option) free_etharp_q :: "addr \<Rightarrow> 'w link_state \<Rightarrow> 'w link_state option" where
  "free_etharp_q q s =
     (if q = NULL then Some s
      else do {
        r \<leftarrow> q_ents s q;
        (_, b) \<leftarrow> pbuf_free (q_p r) (pbm s);
        free_etharp_q (q_next r) (s\<lparr>pbm := b, arp_queue := do_memp_free_pool q (arp_queue s), q_ents := (q_ents s)(q := None)\<rparr>)
      })"

definition etharp_free_entry :: "nat \<Rightarrow> 'w link_state \<Rightarrow> 'w link_state option" where
  "etharp_free_entry i s =
     do {
       s \<leftarrow> (if ae_q (arp_table s ! i) \<noteq> NULL then do {
               s \<leftarrow> free_etharp_q (ae_q (arp_table s ! i)) s;
               Some (upd_entry i (\<lambda>e. e\<lparr>ae_q := NULL\<rparr>) s)
             } else Some s);
       Some (upd_entry i (\<lambda>e. e\<lparr>ae_state := ETHARP_STATE_EMPTY, ae_ctime := 0, ae_netif := NULL,
               ae_ipaddr := 0, ae_ethaddr := ethzero\<rparr>) s)
     }"

text \<open>One entry in \<open>etharp_tmr\<close>, and the loop over the table.\<close>

definition tmr_entry :: "'w linkoutput \<Rightarrow> nat \<Rightarrow> 'w link_state \<Rightarrow> 'w link_state option" where
  "tmr_entry lo i s =
     (if ae_state (arp_table s ! i) \<noteq> ETHARP_STATE_EMPTY then
        (let s = upd_entry i (\<lambda>e. e\<lparr>ae_ctime := ae_ctime e + 1\<rparr>) s; e = arp_table s ! i in
         if ae_ctime e \<ge> ARP_MAXAGE \<or> ae_state e = ETHARP_STATE_PENDING \<and> ae_ctime e \<ge> ARP_MAXPENDING
         then etharp_free_entry i s
         else if ae_state e = ETHARP_STATE_STABLE_REREQUESTING_1
         then Some (upd_entry i (\<lambda>e. e\<lparr>ae_state := ETHARP_STATE_STABLE_REREQUESTING_2\<rparr>) s)
         else if ae_state e = ETHARP_STATE_STABLE_REREQUESTING_2
         then Some (upd_entry i (\<lambda>e. e\<lparr>ae_state := ETHARP_STATE_STABLE\<rparr>) s)
         else if ae_state e = ETHARP_STATE_PENDING
         then map_option snd (etharp_request lo (ae_netif e) (ae_ipaddr e) s)
         else Some s)
      else Some s)"

function tmr_loop :: "'w linkoutput \<Rightarrow> nat \<Rightarrow> 'w link_state \<Rightarrow> 'w link_state option" where
  "tmr_loop lo i s =
     (if i < ARP_TABLE_SIZE then do { s \<leftarrow> tmr_entry lo i s; tmr_loop lo (i + 1) s } else Some s)"
  by pat_completeness auto
termination by (relation "measure (\<lambda>(_, i, _). ARP_TABLE_SIZE - i)") auto

definition etharp_tmr :: "'w linkoutput \<Rightarrow> 'w link_state \<Rightarrow> 'w link_state option" where
  "etharp_tmr lo s = tmr_loop lo 0 s"

text \<open>
  \<open>etharp_find_entry\<close>. The candidates that the search remembers; the search ends early with the index of a
  match. The argument \<open>ipaddr\<close> is \<open>None\<close> for \<open>NULL\<close>. The result is an index, or \<open>ERR_MEM\<close>, which the code
  returns as a negative number.
\<close>

record arp_cand =
  c_old_pending :: nat
  c_old_stable :: nat
  c_empty :: nat
  c_old_queue :: nat
  c_age_queue :: u16
  c_age_pending :: u16
  c_age_stable :: u16

definition cand_init :: arp_cand where
  "cand_init = \<lparr>c_old_pending = ARP_TABLE_SIZE, c_old_stable = ARP_TABLE_SIZE, c_empty = ARP_TABLE_SIZE,
     c_old_queue = ARP_TABLE_SIZE, c_age_queue = 0, c_age_pending = 0, c_age_stable = 0\<rparr>"

definition cand_step :: "nat \<Rightarrow> etharp_entry \<Rightarrow> arp_cand \<Rightarrow> arp_cand" where
  "cand_step i e c =
     (if c_empty c = ARP_TABLE_SIZE \<and> ae_state e = ETHARP_STATE_EMPTY then c\<lparr>c_empty := i\<rparr>
      else if ae_state e \<noteq> ETHARP_STATE_EMPTY then
        (if ae_state e = ETHARP_STATE_PENDING then
           (if ae_q e \<noteq> NULL then
              (if ae_ctime e \<ge> c_age_queue c then c\<lparr>c_old_queue := i, c_age_queue := ae_ctime e\<rparr> else c)
            else
              (if ae_ctime e \<ge> c_age_pending c then c\<lparr>c_old_pending := i, c_age_pending := ae_ctime e\<rparr> else c))
         else if stable (ae_state e) then
           (if ae_ctime e \<ge> c_age_stable c then c\<lparr>c_old_stable := i, c_age_stable := ae_ctime e\<rparr> else c)
         else c)
      else c)"

definition arp_match :: "u32 option \<Rightarrow> addr \<Rightarrow> etharp_entry \<Rightarrow> bool" where
  "arp_match ipaddr netif e \<longleftrightarrow> ae_state e \<noteq> ETHARP_STATE_EMPTY \<and> ipaddr = Some (ae_ipaddr e) \<and> (netif = NULL \<or> netif = ae_netif e)"

fun find_loop :: "u32 option \<Rightarrow> addr \<Rightarrow> etharp_entry list \<Rightarrow> nat \<Rightarrow> arp_cand \<Rightarrow> nat + arp_cand" where
  "find_loop ipaddr netif [] i c = Inr c"
| "find_loop ipaddr netif (e # es) i c =
     (if arp_match ipaddr netif e then Inl i else find_loop ipaddr netif es (i + 1) (cand_step i e c))"

definition find_select :: "arp_cand \<Rightarrow> nat option" where
  "find_select c =
     (if c_old_stable c < ARP_TABLE_SIZE then Some (c_old_stable c)
      else if c_old_pending c < ARP_TABLE_SIZE then Some (c_old_pending c)
      else if c_old_queue c < ARP_TABLE_SIZE then Some (c_old_queue c)
      else None)"

definition find_fill :: "u32 option \<Rightarrow> addr \<Rightarrow> nat \<Rightarrow> 'w link_state \<Rightarrow> 'w link_state" where
  "find_fill ipaddr netif i s =
     (let s = (case ipaddr of Some ip \<Rightarrow> upd_entry i (\<lambda>e. e\<lparr>ae_ipaddr := ip\<rparr>) s | None \<Rightarrow> s)
      in upd_entry i (\<lambda>e. e\<lparr>ae_ctime := 0, ae_netif := netif\<rparr>) s)"

definition etharp_find_entry :: "u32 option \<Rightarrow> u8 \<Rightarrow> addr \<Rightarrow> 'w link_state \<Rightarrow> ((err_t + nat) \<times> 'w link_state) option" where
  "etharp_find_entry ipaddr flags netif s =
     (case find_loop ipaddr netif (arp_table s) 0 cand_init of
        Inl i \<Rightarrow> Some (Inr i, s)
      | Inr c \<Rightarrow>
          (if flags AND ETHARP_FLAG_FIND_ONLY \<noteq> 0 \<or> c_empty c = ARP_TABLE_SIZE \<and> flags AND ETHARP_FLAG_TRY_HARD = 0
           then Some (Inl ERR_MEM, s)
           else if c_empty c < ARP_TABLE_SIZE then Some (Inr (c_empty c), find_fill ipaddr netif (c_empty c) s)
           else (case find_select c of
               None \<Rightarrow> Some (Inl ERR_MEM, s)
             | Some i \<Rightarrow> do { s \<leftarrow> etharp_free_entry i s; Some (Inr i, find_fill ipaddr netif i s) })))"

text \<open>The loop of \<open>etharp_update_arp_entry\<close> that sends the packets waiting for entry \<open>i\<close>.\<close>

partial_function (option) send_queue :: "'w linkoutput \<Rightarrow> addr \<Rightarrow> eth_addr \<Rightarrow> nat \<Rightarrow> 'w link_state \<Rightarrow> 'w link_state option" where
  "send_queue lo netif ethaddr i s =
     (if ae_q (arp_table s ! i) \<noteq> NULL then do {
        let q = ae_q (arp_table s ! i);
        r \<leftarrow> q_ents s q;
        let s = upd_entry i (\<lambda>e. e\<lparr>ae_q := q_next r\<rparr>) s;
        let s = s\<lparr>arp_queue := do_memp_free_pool q (arp_queue s), q_ents := (q_ents s)(q := None)\<rparr>;
        nif \<leftarrow> netifs s netif;
        (_, s) \<leftarrow> ethernet_output lo netif (q_p r) (nif_hwaddr nif) ethaddr ETHTYPE_IP s;
        (_, b) \<leftarrow> pbuf_free (q_p r) (pbm s);
        send_queue lo netif ethaddr i (s\<lparr>pbm := b\<rparr>)
      } else Some s)"

definition etharp_update_arp_entry ::
  "'w linkoutput \<Rightarrow> addr \<Rightarrow> u32 \<Rightarrow> eth_addr \<Rightarrow> u8 \<Rightarrow> 'w link_state \<Rightarrow> (err_t \<times> 'w link_state) option" where
  "etharp_update_arp_entry lo netif ipaddr ethaddr flags s =
     do {
       nif \<leftarrow> netifs s netif;
       if ip4_addr_isany ipaddr \<or> ip4_addr_isbroadcast_u32 ipaddr nif \<or> ip4_addr_ismulticast ipaddr
       then Some (ERR_ARG, s)
       else do {
         (r, s) \<leftarrow> etharp_find_entry (Some ipaddr) flags netif s;
         (case r of
            Inl e \<Rightarrow> Some (e, s)
          | Inr i \<Rightarrow> do {
              let s = upd_entry i (\<lambda>e. e\<lparr>ae_state := ETHARP_STATE_STABLE, ae_netif := netif, ae_ethaddr := ethaddr, ae_ctime := 0\<rparr>) s;
              s \<leftarrow> send_queue lo netif ethaddr i s;
              Some (ERR_OK, s)
            })
       }
     }"

fun cleanup_loop :: "addr \<Rightarrow> nat list \<Rightarrow> 'w link_state \<Rightarrow> 'w link_state option" where
  "cleanup_loop netif [] s = Some s"
| "cleanup_loop netif (i # js) s =
     do {
       s \<leftarrow> (if ae_state (arp_table s ! i) \<noteq> ETHARP_STATE_EMPTY \<and> ae_netif (arp_table s ! i) = netif
             then etharp_free_entry i s else Some s);
       cleanup_loop netif js s
     }"

definition etharp_cleanup_netif :: "addr \<Rightarrow> 'w link_state \<Rightarrow> 'w link_state option" where
  "etharp_cleanup_netif netif s = cleanup_loop netif [0..<ARP_TABLE_SIZE] s"

text \<open>
  \<open>etharp_find_addr\<close> and \<open>etharp_get_entry\<close> return pointers into the table: the model returns the index, or
  \<open>None\<close> for \<open>-1\<close> and for \<open>0\<close>, and the values pointed to.
\<close>

definition etharp_find_addr :: "addr \<Rightarrow> u32 \<Rightarrow> 'w link_state \<Rightarrow> (nat \<times> eth_addr \<times> u32) option option" where
  "etharp_find_addr netif ipaddr s =
     do {
       (r, s) \<leftarrow> etharp_find_entry (Some ipaddr) ETHARP_FLAG_FIND_ONLY netif s;
       (case r of
          Inr i \<Rightarrow> Some (if stable (ae_state (arp_table s ! i))
                         then Some (i, ae_ethaddr (arp_table s ! i), ae_ipaddr (arp_table s ! i)) else None)
        | Inl _ \<Rightarrow> Some None)
     }"

definition etharp_get_entry :: "nat \<Rightarrow> 'w link_state \<Rightarrow> (u32 \<times> addr \<times> eth_addr) option" where
  "etharp_get_entry i s =
     (if i < ARP_TABLE_SIZE \<and> stable (ae_state (arp_table s ! i))
      then Some (ae_ipaddr (arp_table s ! i), ae_netif (arp_table s ! i), ae_ethaddr (arp_table s ! i)) else None)"

section \<open>Output\<close>

text \<open>The first part of \<open>etharp_output_to_arp_index\<close>: an entry that is about to expire is asked for again.\<close>

definition arp_rerequest :: "'w linkoutput \<Rightarrow> addr \<Rightarrow> nat \<Rightarrow> 'w link_state \<Rightarrow> 'w link_state option" where
  "arp_rerequest lo netif arp_idx s =
     (let e = arp_table s ! arp_idx; asked = upd_entry arp_idx (\<lambda>e. e\<lparr>ae_state := ETHARP_STATE_STABLE_REREQUESTING_1\<rparr>) in
      if ae_state e = ETHARP_STATE_STABLE then
        (if ae_ctime e \<ge> ARP_AGE_REREQUEST_USED_BROADCAST
         then map_option (\<lambda>(r, s). if r = ERR_OK then asked s else s) (etharp_request lo netif (ae_ipaddr e) s)
         else if ae_ctime e \<ge> ARP_AGE_REREQUEST_USED_UNICAST
         then map_option (\<lambda>(r, s). if r = ERR_OK then asked s else s) (etharp_request_dst lo netif (ae_ipaddr e) (ae_ethaddr e) s)
         else Some s)
      else Some s)"

definition etharp_output_to_arp_index :: "'w linkoutput \<Rightarrow> addr \<Rightarrow> addr \<Rightarrow> nat \<Rightarrow> 'w link_state \<Rightarrow> (err_t \<times> 'w link_state) option" where
  "etharp_output_to_arp_index lo netif q arp_idx s =
     do {
       s \<leftarrow> arp_rerequest lo netif arp_idx s;
       nif \<leftarrow> netifs s netif;
       ethernet_output lo netif q (nif_hwaddr nif) (ae_ethaddr (arp_table s ! arp_idx)) ETHTYPE_IP s
     }"

text \<open>The search in \<open>etharp_query\<close> for a pbuf whose data is volatile.\<close>

definition PBUF_NEEDS_COPY :: "pbuf \<Rightarrow> bool" where
  "PBUF_NEEDS_COPY b \<longleftrightarrow> pb_type_internal b AND 0x40 \<noteq> 0"

partial_function (option) copy_needed :: "addr \<Rightarrow> pb_state \<Rightarrow> bool option" where
  "copy_needed p b =
     (if p = NULL then Some False
      else do { c \<leftarrow> getp p b; if PBUF_NEEDS_COPY c then Some True else copy_needed (pb_next c) b })"

text \<open>The walk to the last element of a queue, counting, and the append.\<close>

partial_function (option) append_loop :: "addr \<Rightarrow> addr \<Rightarrow> nat \<Rightarrow> 'w link_state \<Rightarrow> (nat \<times> 'w link_state) option" where
  "append_loop new_entry r qlen s =
     do {
       e \<leftarrow> q_ents s r;
       if q_next e \<noteq> NULL then append_loop new_entry (q_next e) (qlen + 1) s
       else Some (qlen, s\<lparr>q_ents := (q_ents s)(r \<mapsto> e\<lparr>q_next := new_entry\<rparr>)\<rparr>)
     }"

text \<open>The part of \<open>etharp_query\<close> that queues the packet \<open>p\<close> on entry \<open>i\<close>.\<close>

definition enqueue :: "nat \<Rightarrow> addr \<Rightarrow> 'w link_state \<Rightarrow> (err_t \<times> 'w link_state) option" where
  "enqueue i p s =
     (let (new_entry, pool) = do_memp_malloc_pool (arp_queue s); s = s\<lparr>arp_queue := pool\<rparr> in
      if new_entry \<noteq> NULL then do {
        let s = s\<lparr>q_ents := (q_ents s)(new_entry \<mapsto> \<lparr>q_next = NULL, q_p = p\<rparr>)\<rparr>;
        (qlen, s) \<leftarrow> (if ae_q (arp_table s ! i) \<noteq> NULL then append_loop new_entry (ae_q (arp_table s ! i)) 1 s
                      else Some (0, upd_entry i (\<lambda>e. e\<lparr>ae_q := new_entry\<rparr>) s));
        s \<leftarrow> (if qlen \<ge> ARP_QUEUE_LEN then do {
                let old = ae_q (arp_table s ! i);
                first \<leftarrow> q_ents s old;
                let s = upd_entry i (\<lambda>e. e\<lparr>ae_q := q_next first\<rparr>) s;
                (_, b) \<leftarrow> pbuf_free (q_p first) (pbm s);
                Some (s\<lparr>pbm := b, arp_queue := do_memp_free_pool old (arp_queue s), q_ents := (q_ents s)(old := None)\<rparr>)
              } else Some s);
        Some (ERR_OK, s)
      } else do {
        (_, b) \<leftarrow> pbuf_free p (pbm s);
        Some (ERR_MEM, s\<lparr>pbm := b\<rparr>)
      })"

text \<open>The rest of \<open>etharp_query\<close> once the entry is there: \<open>None\<close> for \<open>q\<close> stands for \<open>NULL\<close>.\<close>

definition query_packet :: "'w linkoutput \<Rightarrow> addr \<Rightarrow> eth_addr \<Rightarrow> addr \<Rightarrow> nat \<Rightarrow> err_t \<Rightarrow> 'w link_state \<Rightarrow> (err_t \<times> 'w link_state) option" where
  "query_packet lo netif srcaddr q i result s =
     (if stable (ae_state (arp_table s ! i)) then
        ethernet_output lo netif q srcaddr (ae_ethaddr (arp_table s ! i)) ETHTYPE_IP (s\<lparr>etharp_cached_entry := of_nat i\<rparr>)
      else if ae_state (arp_table s ! i) = ETHARP_STATE_PENDING then do {
        cn \<leftarrow> copy_needed q (pbm s);
        (p, b) \<leftarrow> (if cn then pbuf_clone PBUF_LINK PBUF_RAM q (pbm s)
                  else do { b \<leftarrow> pbuf_ref q (pbm s); Some (q, b) });
        let s = s\<lparr>pbm := b\<rparr>;
        if p \<noteq> NULL then enqueue i p s
        else Some (ERR_MEM, ETHARP_STATS_INC sp_memerr_update s)
      }
      else Some (result, s))"

definition etharp_query :: "'w linkoutput \<Rightarrow> addr \<Rightarrow> u32 \<Rightarrow> addr \<Rightarrow> 'w link_state \<Rightarrow> (err_t \<times> 'w link_state) option" where
  "etharp_query lo netif ipaddr q s =
     do {
       nif \<leftarrow> netifs s netif;
       if ip4_addr_isbroadcast_u32 ipaddr nif \<or> ip4_addr_ismulticast ipaddr \<or> ip4_addr_isany ipaddr
       then Some (ERR_ARG, s)
       else do {
         (i_err, s) \<leftarrow> etharp_find_entry (Some ipaddr) ETHARP_FLAG_TRY_HARD netif s;
         (case i_err of
            Inl e \<Rightarrow> Some (e, if q \<noteq> NULL then ETHARP_STATS_INC sp_memerr_update s else s)
          | Inr i \<Rightarrow> do {
              let is_new_entry = (ae_state (arp_table s ! i) = ETHARP_STATE_EMPTY);
              let s = (if is_new_entry
                       then upd_entry i (\<lambda>e. e\<lparr>ae_state := ETHARP_STATE_PENDING, ae_netif := netif\<rparr>) s else s);
              (result, s) \<leftarrow> (if is_new_entry \<or> q = NULL then do {
                  (result, s) \<leftarrow> etharp_request lo netif ipaddr s;
                  Some (result,
                    if result = ERR_OK \<and> ae_state (arp_table s ! i) = ETHARP_STATE_PENDING \<and> \<not> is_new_entry
                    then upd_entry i (\<lambda>e. e\<lparr>ae_ctime := 0\<rparr>) s else s)
                } else Some (ERR_MEM, s));
              if q = NULL then Some (result, s)
              else query_packet lo netif (nif_hwaddr nif) q i result s
            })
       }
     }"

text \<open>The search of \<open>etharp_output\<close> for a usable entry.\<close>

definition arp_usable :: "addr \<Rightarrow> u32 \<Rightarrow> etharp_entry \<Rightarrow> bool" where
  "arp_usable netif dst_addr e \<longleftrightarrow> stable (ae_state e) \<and> ae_netif e = netif \<and> dst_addr = ae_ipaddr e"

fun output_search :: "addr \<Rightarrow> u32 \<Rightarrow> etharp_entry list \<Rightarrow> nat \<Rightarrow> nat option" where
  "output_search netif dst_addr [] i = None"
| "output_search netif dst_addr (e # es) i =
     (if arp_usable netif dst_addr e then Some i else output_search netif dst_addr es (i + 1))"

definition mcast_addr :: "u32 \<Rightarrow> eth_addr" where
  "mcast_addr ipaddr = [0x01, 0x00, 0x5E, ucast (drop_bit 8 ipaddr) AND 0x7F, ucast (drop_bit 16 ipaddr), ucast (drop_bit 24 ipaddr)]"

definition etharp_output :: "'w linkoutput \<Rightarrow> addr \<Rightarrow> addr \<Rightarrow> u32 \<Rightarrow> 'w link_state \<Rightarrow> (err_t \<times> 'w link_state) option" where
  "etharp_output lo netif q ipaddr s =
     do {
       nif \<leftarrow> netifs s netif;
       if ip4_addr_isbroadcast_u32 ipaddr nif then
         ethernet_output lo netif q (nif_hwaddr nif) ethbroadcast ETHTYPE_IP s
       else if ip4_addr_ismulticast ipaddr then
         ethernet_output lo netif q (nif_hwaddr nif) (mcast_addr ipaddr) ETHTYPE_IP s
       else do {
         dst \<leftarrow> (if \<not> ip4_addr_net_eq ipaddr (nif_ip_addr nif) (nif_netmask nif) \<and> \<not> ip4_addr_islinklocal ipaddr then do {
                   c \<leftarrow> getp q (pbm s);
                   let iphdr_src = rd32 (bytes (pbm s)) (pb_payload c + 12);
                   Some (if \<not> ip4_addr_islinklocal iphdr_src
                         then (if \<not> ip4_addr_isany (nif_gw nif) then Some (nif_gw nif) else None)
                         else Some ipaddr)
                 } else Some (Some ipaddr));
         (case dst of
            None \<Rightarrow> Some (ERR_RTE, s)
          | Some dst_addr \<Rightarrow>
              (if arp_usable netif dst_addr (arp_table s ! unat (etharp_cached_entry s)) then
                 etharp_output_to_arp_index lo netif q (unat (etharp_cached_entry s)) (ETHARP_STATS_INC sp_cachehit_update s)
               else (case output_search netif dst_addr (arp_table s) 0 of
                   Some i \<Rightarrow> etharp_output_to_arp_index lo netif q i (s\<lparr>etharp_cached_entry := of_nat i\<rparr>)
                 | None \<Rightarrow> etharp_query lo netif dst_addr q s)))
       }
     }"


section \<open>What the operations leave alone\<close>

text \<open>Sending touches the packet buffers, the driver and the statistics only.\<close>

definition same_arp :: "'w link_state \<Rightarrow> 'w link_state \<Rightarrow> bool" where
  "same_arp s t \<longleftrightarrow> netif_list t = netif_list s \<and> netifs t = netifs s \<and> arp_table t = arp_table s \<and>
     etharp_cached_entry t = etharp_cached_entry s \<and> arp_queue t = arp_queue s \<and> q_ents t = q_ents s \<and>
     acds t = acds s \<and> rand_state t = rand_state s"

lemma same_arp_refl [simp]: "same_arp s s"
  by (simp add: same_arp_def)

lemma same_arp_trans: "same_arp s t \<Longrightarrow> same_arp t u \<Longrightarrow> same_arp s u"
  by (simp add: same_arp_def)

lemma same_arp_upd [simp]:
  "same_arp s (t\<lparr>pbm := b\<rparr>) = same_arp s t" "same_arp s (t\<lparr>wire := w\<rparr>) = same_arp s t"
  "same_arp s (ETHARP_STATS_INC f t) = same_arp s t" "same_arp s (LINK_STATS_INC f t) = same_arp s t"
  "same_arp (s\<lparr>pbm := b\<rparr>) t = same_arp s t" "same_arp (s\<lparr>wire := w\<rparr>) t = same_arp s t"
  "same_arp (ETHARP_STATS_INC f s) t = same_arp s t" "same_arp (LINK_STATS_INC f s) t = same_arp s t"
  by (simp_all add: same_arp_def ETHARP_STATS_INC_def LINK_STATS_INC_def)

lemma ethernet_output_same: "ethernet_output lo netif p src dst ty s = Some (e, s') \<Longrightarrow> same_arp s s'"
  by (auto simp: ethernet_output_def Let_def split: Option.bind_splits prod.splits if_splits)

lemma etharp_raw_same: "etharp_raw lo netif a b c d e f g s = Some (r, s') \<Longrightarrow> same_arp s s'"
  by (auto simp: etharp_raw_def Let_def split: Option.bind_splits prod.splits if_splits
      dest!: ethernet_output_same intro: same_arp_trans)

lemma etharp_request_same:
  "etharp_request_dst lo netif ip mac s = Some (r, s') \<Longrightarrow> same_arp s s'"
  "etharp_request lo netif ip s = Some (r, s') \<Longrightarrow> same_arp s s'"
  "etharp_acd_probe lo netif ip s = Some (r, s') \<Longrightarrow> same_arp s s'"
  "etharp_acd_announce lo netif ip s = Some (r, s') \<Longrightarrow> same_arp s s'"
  by (auto simp: etharp_request_def etharp_request_dst_def etharp_acd_probe_def etharp_acd_announce_def
      split: Option.bind_splits dest: etharp_raw_same)

lemma upd_entry_simps [simp]:
  "arp_table (upd_entry i f s) = (arp_table s)[i := f (arp_table s ! i)]"
  "netifs (upd_entry i f s) = netifs s" "netif_list (upd_entry i f s) = netif_list s"
  "arp_queue (upd_entry i f s) = arp_queue s" "q_ents (upd_entry i f s) = q_ents s"
  "etharp_cached_entry (upd_entry i f s) = etharp_cached_entry s" "pbm (upd_entry i f s) = pbm s" "wire (upd_entry i f s) = wire s"
  "acds (upd_entry i f s) = acds s" "rand_state (upd_entry i f s) = rand_state s"
  "stats_etharp (upd_entry i f s) = stats_etharp s" "stats_link (upd_entry i f s) = stats_link s"
  by (simp_all add: upd_entry_def)

section \<open>The invariant of the table\<close>

text \<open>The pool of queue elements has one element for every place in the queues.\<close>

definition memp_ARP_QUEUE :: "addr \<Rightarrow> memp_desc" where
  "memp_ARP_QUEUE base = \<lparr>md_size = 8, md_num = 30, md_base = base\<rparr>"

abbreviation qnexts :: "'w link_state \<Rightarrow> addr \<Rightarrow> addr option" where
  "qnexts s \<equiv> \<lambda>a. map_option q_next (q_ents s a)"

definition elems_of :: "(nat \<Rightarrow> addr list) \<Rightarrow> addr set" where
  "elems_of Q = (\<Union>i<ARP_TABLE_SIZE. set (Q i))"

definition queues_ok :: "memp_desc \<Rightarrow> 'w link_state \<Rightarrow> (nat \<Rightarrow> addr list) \<Rightarrow> bool" where
  "queues_ok d s Q \<longleftrightarrow> md_num d = 30 \<and> pool_inv d (arp_queue s) (elems_of Q) \<and> dom (q_ents s) = elems_of Q \<and>
     (\<forall>i<ARP_TABLE_SIZE. linked (qnexts s) (ae_q (arp_table s ! i)) (Q i) \<and>
        (ae_state (arp_table s ! i) \<noteq> ETHARP_STATE_PENDING \<longrightarrow> Q i = []) \<and>
        (\<forall>j<ARP_TABLE_SIZE. i \<noteq> j \<longrightarrow> set (Q i) \<inter> set (Q j) = {})) \<and>
     (\<forall>e \<in> ran (q_ents s). q_p e \<noteq> NULL)"

text \<open>No two entries in use are for the same address on the same interface, and none is older than its state allows.\<close>

definition table_ok :: "etharp_entry list \<Rightarrow> bool" where
  "table_ok t \<longleftrightarrow> length t = ARP_TABLE_SIZE \<and>
     (\<forall>i<ARP_TABLE_SIZE. ae_state (t ! i) \<noteq> ETHARP_STATE_EMPTY \<longrightarrow>
        ae_ctime (t ! i) < ARP_MAXAGE \<and> (ae_state (t ! i) = ETHARP_STATE_PENDING \<longrightarrow> ae_ctime (t ! i) < ARP_MAXPENDING) \<and>
        (\<forall>j<ARP_TABLE_SIZE. j \<noteq> i \<longrightarrow> ae_state (t ! j) \<noteq> ETHARP_STATE_EMPTY \<longrightarrow>
           ae_ipaddr (t ! i) \<noteq> ae_ipaddr (t ! j) \<or> ae_netif (t ! i) \<noteq> ae_netif (t ! j)))"

definition arp_inv :: "memp_desc \<Rightarrow> 'w link_state \<Rightarrow> (nat \<Rightarrow> addr list) \<Rightarrow> bool" where
  "arp_inv d s Q \<longleftrightarrow> table_ok (arp_table s) \<and> queues_ok d s Q \<and> (\<forall>i<ARP_TABLE_SIZE. length (Q i) \<le> ARP_QUEUE_LEN) \<and>
     unat (etharp_cached_entry s) < ARP_TABLE_SIZE \<and> netifs s NULL = None"

text \<open>The packets waiting for entry \<open>i\<close>, oldest first.\<close>

definition waiting :: "'w link_state \<Rightarrow> (nat \<Rightarrow> addr list) \<Rightarrow> nat \<Rightarrow> addr list" where
  "waiting s Q i = map (\<lambda>a. q_p (the (q_ents s a))) (Q i)"

lemma arp_size [simp]: "ARP_TABLE_SIZE = 10" "ARP_QUEUE_LEN = 3"
  by (simp_all add: const_defs)

lemma arp_inv_same: "arp_inv d s Q \<Longrightarrow> same_arp s t \<Longrightarrow> arp_inv d t Q"
  by (simp add: arp_inv_def queues_ok_def same_arp_def)

lemma waiting_same: "same_arp s t \<Longrightarrow> waiting t Q i = waiting s Q i"
  by (simp add: waiting_def same_arp_def)

section \<open>Searching the table\<close>

text \<open>What the candidates are after the entries \<open>pre\<close>: the first empty entry, and the last among the oldest of each kind.\<close>

definition oldest :: "(etharp_entry \<Rightarrow> bool) \<Rightarrow> etharp_entry list \<Rightarrow> nat \<Rightarrow> u16 \<Rightarrow> bool" where
  "oldest P t i age \<longleftrightarrow>
     (if \<exists>e \<in> set t. P e then i < length t \<and> P (t ! i) \<and> age = ae_ctime (t ! i) \<and>
        (\<forall>j<length t. P (t ! j) \<longrightarrow> ae_ctime (t ! j) \<le> age \<and> (i < j \<longrightarrow> ae_ctime (t ! j) < age))
      else i = 10 \<and> age = 0)"

abbreviation is_empty :: "etharp_entry \<Rightarrow> bool" where "is_empty e \<equiv> ae_state e = ETHARP_STATE_EMPTY"
abbreviation is_stable :: "etharp_entry \<Rightarrow> bool" where "is_stable e \<equiv> stable (ae_state e)"
abbreviation is_pending :: "etharp_entry \<Rightarrow> bool" where "is_pending e \<equiv> ae_state e = ETHARP_STATE_PENDING \<and> ae_q e = NULL"
abbreviation is_queued :: "etharp_entry \<Rightarrow> bool" where "is_queued e \<equiv> ae_state e = ETHARP_STATE_PENDING \<and> ae_q e \<noteq> NULL"

definition first_empty :: "etharp_entry list \<Rightarrow> nat \<Rightarrow> bool" where
  "first_empty t i \<longleftrightarrow> (if \<exists>e \<in> set t. is_empty e then i < length t \<and> is_empty (t ! i) \<and> (\<forall>j<i. \<not> is_empty (t ! j)) else i = 10)"

definition cand_ok :: "etharp_entry list \<Rightarrow> arp_cand \<Rightarrow> bool" where
  "cand_ok t c \<longleftrightarrow> first_empty t (c_empty c) \<and> oldest is_stable t (c_old_stable c) (c_age_stable c) \<and>
     oldest is_pending t (c_old_pending c) (c_age_pending c) \<and> oldest is_queued t (c_old_queue c) (c_age_queue c)"

lemma oldest_snoc:
  assumes "oldest P t i age"
  shows "oldest P (t @ [e]) (if P e \<and> ae_ctime e \<ge> age then length t else i) (if P e \<and> ae_ctime e \<ge> age then ae_ctime e else age)"
  using assms unfolding oldest_def
  by (auto simp: nth_append less_Suc_eq split: if_splits intro: le_neq_trans dest: leD)

lemma first_empty_snoc:
  "first_empty t i \<Longrightarrow> length t < 10 \<Longrightarrow> first_empty (t @ [e]) (if i = 10 \<and> is_empty e then length t else i)"
  unfolding first_empty_def by (auto simp: nth_append split: if_splits)

lemma cand_step_ok:
  assumes "cand_ok t c" and "length t < 10"
  shows "cand_ok (t @ [e]) (cand_step (length t) e c)"
proof -
  have c: "first_empty t (c_empty c)" "oldest is_stable t (c_old_stable c) (c_age_stable c)"
    "oldest is_pending t (c_old_pending c) (c_age_pending c)" "oldest is_queued t (c_old_queue c) (c_age_queue c)"
    using assms(1) by (simp_all add: cand_ok_def)
  note first_empty_snoc [OF c(1) assms(2), of e] oldest_snoc [OF c(2), of e] oldest_snoc [OF c(3), of e] oldest_snoc [OF c(4), of e]
  then show ?thesis
    by (cases "ae_state e") (auto simp: cand_ok_def cand_step_def stable_def split: if_splits)
qed

lemma find_loop_ok:
  assumes "cand_ok pre c" and "length (pre @ es) = 10"
  shows "case find_loop ip netif es (length pre) c of
     Inl i \<Rightarrow> length pre \<le> i \<and> i < 10 \<and> arp_match ip netif ((pre @ es) ! i) \<and> (\<forall>j<i. length pre \<le> j \<longrightarrow> \<not> arp_match ip netif ((pre @ es) ! j))
   | Inr c' \<Rightarrow> (\<forall>e \<in> set es. \<not> arp_match ip netif e) \<and> cand_ok (pre @ es) c'"
  using assms
proof (induction es arbitrary: pre c)
  case Nil
  then show ?case by simp
next
  case (Cons e es)
  show ?case
  proof (cases "arp_match ip netif e")
    case True
    then show ?thesis using Cons.prems(2) by simp
  next
    case False
    have "cand_ok (pre @ [e]) (cand_step (length pre) e c)" using Cons.prems by (intro cand_step_ok) simp_all
    note ih = Cons.IH [OF this, simplified]
    have eq: "find_loop ip netif (e # es) (length pre) c = find_loop ip netif es (Suc (length pre)) (cand_step (length pre) e c)"
      using False by simp
    show ?thesis
    proof (cases "find_loop ip netif es (Suc (length pre)) (cand_step (length pre) e c)")
      case (Inl i)
      have "\<not> arp_match ip netif ((pre @ e # es) ! j)" if "j < i" "length pre \<le> j" for j
        using that ih Inl Cons.prems(2) False by (cases "j = length pre") simp_all
      then show ?thesis using ih Inl Cons.prems(2) unfolding eq by simp
    next
      case (Inr c')
      then show ?thesis using ih Cons.prems(2) False unfolding eq by simp
    qed
  qed
qed

lemma cand_init_ok: "cand_ok [] cand_init"
  by (simp add: cand_ok_def cand_init_def first_empty_def oldest_def)

section \<open>Releasing an entry\<close>

fun free_all :: "addr list \<Rightarrow> pb_state \<Rightarrow> pb_state option" where
  "free_all [] b = Some b"
| "free_all (p # ps) b = do { (_, b) \<leftarrow> pbuf_free p b; free_all ps b }"

definition entry_clear :: etharp_entry where
  "entry_clear = \<lparr>ae_q = NULL, ae_ipaddr = 0, ae_netif = NULL, ae_ethaddr = ethzero, ae_ctime = 0, ae_state = ETHARP_STATE_EMPTY\<rparr>"

text \<open>The elements \<open>as\<close> go back to the pool.\<close>

definition release :: "addr list \<Rightarrow> 'w link_state \<Rightarrow> 'w link_state" where
  "release as s = s\<lparr>arp_queue := fold do_memp_free_pool as (arp_queue s), q_ents := q_ents s |` (- set as)\<rparr>"

lemma release_simps [simp]:
  "arp_table (release as s) = arp_table s" "netifs (release as s) = netifs s" "pbm (release as s) = pbm s" "wire (release as s) = wire s"
  "etharp_cached_entry (release as s) = etharp_cached_entry s" "release [] s = s"
  "release as (s\<lparr>pbm := b\<rparr>) = (release as s)\<lparr>pbm := b\<rparr>" "upd_entry i f (release as s) = release as (upd_entry i f s)"
  by (simp_all add: release_def upd_entry_def restrict_map_def Compl_eq)

lemma release_Cons: "release (a # as) s = release as (release [a] s)"
  by (simp add: release_def restrict_map_def fun_eq_iff)

lemma release_one: "release [a] s = s\<lparr>arp_queue := do_memp_free_pool a (arp_queue s), q_ents := (q_ents s)(a := None)\<rparr>"
  by (simp add: release_def restrict_complement_singleton_eq)

lemma free_etharp_q_eq:
  assumes "linked (qnexts s) q as"
  shows "free_etharp_q q s = map_option (\<lambda>b. (release as s)\<lparr>pbm := b\<rparr>) (free_all (map (\<lambda>a. q_p (the (q_ents s a))) as) (pbm s))"
  using assms
proof (induction as arbitrary: q s)
  case Nil
  then show ?case by (simp add: free_etharp_q.simps)
next
  case (Cons a as)
  then obtain r where r: "q = a" "a \<noteq> NULL" "q_ents s a = Some r" "linked (qnexts s) (q_next r) as" by auto
  have a: "a \<notin> set as" using linked_distinct [OF Cons.prems] by simp
  show ?case
  proof (cases "pbuf_free (q_p r) (pbm s)")
    case None
    then show ?thesis using r by (simp add: free_etharp_q.simps)
  next
    case (Some x)
    let ?s = "(release [a] s)\<lparr>pbm := snd x\<rparr>"
    have "linked (qnexts ?s) (q_next r) as" using r(4) a
      by (subst linked_cong [of as "qnexts ?s" "qnexts s"]) (auto simp: release_def restrict_map_def)
    from Cons.IH [OF this]
    have "free_etharp_q (q_next r) ?s = map_option (\<lambda>b. (release as ?s)\<lparr>pbm := b\<rparr>) (free_all (map (\<lambda>a. q_p (the (q_ents s a))) as) (snd x))"
      using a by (auto simp: release_def restrict_map_def intro!: arg_cong [where f = "map_option _"] arg_cong2 [where f = free_all] map_cong)
    moreover have "free_etharp_q q s = free_etharp_q (q_next r) ?s"
      using Some r by (cases x) (simp add: free_etharp_q.simps [of a] release_one, intro arg_cong [where f = "free_etharp_q _"] link_state.equality, simp_all)
    ultimately show ?thesis using Some r by (cases x) (simp add: release_Cons [of a as] option.map_comp comp_def)
  qed
qed

lemma pool_fold_free:
  "pool_inv d p A \<Longrightarrow> distinct as \<Longrightarrow> set as \<subseteq> A \<Longrightarrow> pool_inv d (fold do_memp_free_pool as p) (A - set as)"
proof (induction as arbitrary: p A)
  case (Cons a as)
  have "pool_inv d (do_memp_free_pool a p) (A - {a})" using Cons.prems by (intro memp.release_ok) auto
  from Cons.IH [OF this] Cons.prems have "pool_inv d (fold do_memp_free_pool as (do_memp_free_pool a p)) (A - {a} - set as)" by auto
  moreover have "A - {a} - set as = A - set (a # as)" by auto
  ultimately show ?case by simp
qed simp

lemma queues_okD:
  assumes "queues_ok d s Q" and "i < 10"
  shows "linked (qnexts s) (ae_q (arp_table s ! i)) (Q i)" "NULL \<notin> set (Q i)" "ae_state (arp_table s ! i) \<noteq> ETHARP_STATE_PENDING \<Longrightarrow> Q i = []"
    "j < 10 \<Longrightarrow> i \<noteq> j \<Longrightarrow> set (Q i) \<inter> set (Q j) = {}" "set (Q i) \<subseteq> elems_of Q" "distinct (Q i)" "ae_q (arp_table s ! i) = NULL \<longleftrightarrow> Q i = []"
proof -
  show l: "linked (qnexts s) (ae_q (arp_table s ! i)) (Q i)" using assms by (simp add: queues_ok_def)
  show "NULL \<notin> set (Q i)" by (rule linked_nonnull [OF l])
  show "ae_state (arp_table s ! i) \<noteq> ETHARP_STATE_PENDING \<Longrightarrow> Q i = []" using assms by (simp add: queues_ok_def)
  show "j < 10 \<Longrightarrow> i \<noteq> j \<Longrightarrow> set (Q i) \<inter> set (Q j) = {}" using assms by (simp add: queues_ok_def)
  show "set (Q i) \<subseteq> elems_of Q" using assms(2) by (auto simp: elems_of_def)
  show "distinct (Q i)" by (rule linked_distinct [OF l])
  show "ae_q (arp_table s ! i) = NULL \<longleftrightarrow> Q i = []" using l by (cases "Q i") auto
qed

text \<open>Taking the elements \<open>as\<close> off the front of queue \<open>i\<close>.\<close>

lemma elems_of_upd: "i < 10 \<Longrightarrow> elems_of (Q(i := qs)) = (\<Union>j\<in>{..<10} - {i}. set (Q j)) \<union> set qs"
  by (force simp: elems_of_def split: if_splits)

lemma elems_of_split:
  assumes "queues_ok d s Q" and "i < 10"
  shows "elems_of Q = (\<Union>j\<in>{..<10} - {i}. set (Q j)) \<union> set (Q i)" "(\<Union>j\<in>{..<10} - {i}. set (Q j)) \<inter> set (Q i) = {}"
  using assms queues_okD(4) [OF assms(1)] by (auto simp: elems_of_def)

lemma queues_ok_release:
  assumes q: "queues_ok d s Q" and i: "i < 10" and Qi: "Q i = as @ bs" and e: "ae_q e = hd (bs @ [NULL])"
    and st: "ae_state e \<noteq> ETHARP_STATE_PENDING \<Longrightarrow> bs = []" and t: "length (arp_table s) = 10"
  shows "queues_ok d (release as (s\<lparr>arp_table := (arp_table s)[i := e]\<rparr>)) (Q(i := bs))"
proof -
  let ?s = "release as (s\<lparr>arp_table := (arp_table s)[i := e]\<rparr>)"
  note D = queues_okD [OF q]
  have dis: "distinct (as @ bs)" using D(6) [OF i] Qi by simp
  note sp = elems_of_split [OF q i, unfolded Qi]
  have el: "elems_of (Q(i := bs)) = elems_of Q - set as"
    unfolding elems_of_upd [OF i] sp(1) using sp(2) dis by auto
  have ents: "q_ents ?s a = (if a \<in> set as then None else q_ents s a)" for a by (simp add: release_def restrict_map_def)
  have "pool_inv d (arp_queue s) (elems_of Q)" using q by (simp add: queues_ok_def)
  then have pool: "pool_inv d (arp_queue ?s) (elems_of (Q(i := bs)))"
    unfolding el using dis D(5) [OF i] Qi by (simp add: release_def) (rule pool_fold_free, auto)
  have "dom (q_ents s) = elems_of Q" "\<forall>e \<in> ran (q_ents s). q_p e \<noteq> NULL" "md_num d = 30" using q by (simp_all add: queues_ok_def)
  then have d: "dom (q_ents ?s) = elems_of (Q(i := bs))" "\<forall>e \<in> ran (q_ents ?s). q_p e \<noteq> NULL"
    unfolding el by (auto simp: ents ran_def dom_def split: if_splits)
  have lk: "linked (qnexts ?s) p qs = linked (qnexts s) p qs" if "set qs \<inter> set as = {}" for p qs
    by (rule linked_cong) (use that in \<open>auto simp: ents\<close>)
  have "linked (qnexts s) (hd (bs @ [NULL])) bs" using D(1) [OF i] linked_nonnull [OF D(1) [OF i]] Qi
    by (cases bs) (auto dest: linked_suffix)
  then have "linked (qnexts ?s) (ae_q (arp_table ?s ! j)) ((Q(i := bs)) j)" if "j < 10" for j
    using that lk [of "Q j"] lk [of bs] D(1) [OF that] D(4) [OF that i] dis Qi i t e by (cases "j = i") auto
  moreover have "(Q(i := bs)) j = []" if "j < 10" "ae_state (arp_table ?s ! j) \<noteq> ETHARP_STATE_PENDING" for j
    using that D(3) [OF that(1)] st t by (cases "j = i") auto
  moreover have "set ((Q(i := bs)) j) \<inter> set ((Q(i := bs)) k) = {}" if "j < 10" "k < 10" "j \<noteq> k" for j k
    using that D(4) [OF that(1,2)] D(4) [OF i that(2)] Qi by (cases "j = i"; cases "k = i") (auto dest: D(4) [OF that(1) i])
  ultimately show ?thesis using pool d \<open>md_num d = 30\<close> unfolding queues_ok_def by simp
qed

lemma arp_inv_pbm [simp]: "arp_inv d (s\<lparr>pbm := b\<rparr>) Q = arp_inv d s Q"
  by (simp add: arp_inv_def queues_ok_def)

lemma entry_clear_eq:
  "ae_q e = NULL \<Longrightarrow> e\<lparr>ae_state := ETHARP_STATE_EMPTY, ae_ctime := 0, ae_netif := NULL, ae_ipaddr := 0, ae_ethaddr := ethzero\<rparr> = entry_clear"
  by (cases e) (simp add: entry_clear_def)

lemma table_unique:
  "table_ok t \<Longrightarrow> i < 10 \<Longrightarrow> j < 10 \<Longrightarrow> \<not> is_empty (t ! i) \<Longrightarrow> \<not> is_empty (t ! j) \<Longrightarrow>
     ae_ipaddr (t ! i) = ae_ipaddr (t ! j) \<Longrightarrow> ae_netif (t ! i) = ae_netif (t ! j) \<Longrightarrow> i = j"
  unfolding table_ok_def arp_size by blast

lemma free_entry_eq:
  assumes q: "queues_ok d s Q" and i: "i < 10" and t: "length (arp_table s) = 10"
  shows "etharp_free_entry i s =
    map_option (\<lambda>b. (release (Q i) (s\<lparr>arp_table := (arp_table s)[i := entry_clear]\<rparr>))\<lparr>pbm := b\<rparr>) (free_all (waiting s Q i) (pbm s))"
proof (cases "Q i = []")
  case True
  then have "ae_q (arp_table s ! i) = NULL" using queues_okD(7) [OF q i] by simp
  then show ?thesis using True
    by (simp add: etharp_free_entry_def waiting_def upd_entry_def entry_clear_eq)
next
  case False
  then have n: "ae_q (arp_table s ! i) \<noteq> NULL" using queues_okD(7) [OF q i] by simp
  note f = free_etharp_q_eq [OF queues_okD(1) [OF q i]]
  have "upd_entry i (\<lambda>e. e\<lparr>ae_state := ETHARP_STATE_EMPTY, ae_ctime := 0, ae_netif := NULL, ae_ipaddr := 0, ae_ethaddr := ethzero\<rparr>)
      (upd_entry i (\<lambda>e. e\<lparr>ae_q := NULL\<rparr>) ((release (Q i) s)\<lparr>pbm := b\<rparr>)) =
    (release (Q i) (s\<lparr>arp_table := (arp_table s)[i := entry_clear]\<rparr>))\<lparr>pbm := b\<rparr>" for b
    using i t by (intro link_state.equality) (simp_all add: upd_entry_def release_def entry_clear_eq [of "(arp_table s ! i)\<lparr>ae_q := NULL\<rparr>", simplified])
  then show ?thesis using n
    by (simp add: etharp_free_entry_def f waiting_def bind_map_option option.map_comp comp_def map_conv_bind_option)
qed

lemma table_ok_upd:
  assumes "table_ok t" and "i < 10"
    and "ae_state e = ETHARP_STATE_EMPTY \<or> ae_ctime e < ARP_MAXAGE \<and> (ae_state e = ETHARP_STATE_PENDING \<longrightarrow> ae_ctime e < ARP_MAXPENDING) \<and>
      (\<forall>j<10. j \<noteq> i \<longrightarrow> ae_state (t ! j) \<noteq> ETHARP_STATE_EMPTY \<longrightarrow> ae_ipaddr e \<noteq> ae_ipaddr (t ! j) \<or> ae_netif e \<noteq> ae_netif (t ! j))"
  shows "table_ok (t[i := e])"
  using assms unfolding table_ok_def arp_size by (auto simp: nth_list_update)

lemma queues_ok_upd:
  assumes "queues_ok d s Q" and "i < 10" and "length (arp_table s) = 10"
    and "ae_q e = ae_q (arp_table s ! i)" and "ae_state e \<noteq> ETHARP_STATE_PENDING \<longrightarrow> Q i = []"
  shows "queues_ok d (s\<lparr>arp_table := (arp_table s)[i := e]\<rparr>) Q"
  using assms unfolding queues_ok_def arp_size by (auto simp: nth_list_update)

lemma arp_inv_upd:
  assumes "arp_inv d s Q" and "i < 10" and "ae_q (f (arp_table s ! i)) = ae_q (arp_table s ! i)"
    and "ae_state (f (arp_table s ! i)) \<noteq> ETHARP_STATE_PENDING \<longrightarrow> Q i = []" and "table_ok ((arp_table s)[i := f (arp_table s ! i)])"
  shows "arp_inv d (upd_entry i f s) Q"
  using assms queues_ok_upd [of d s Q i "f (arp_table s ! i)"] by (simp add: arp_inv_def upd_entry_def table_ok_def)

lemma free_entry_inv:
  assumes "arp_inv d s Q" and "i < 10"
  shows "arp_inv d (release (Q i) (s\<lparr>arp_table := (arp_table s)[i := entry_clear]\<rparr>)) (Q(i := []))"
  using assms queues_ok_release [of d s Q i "Q i" "[]" entry_clear] table_ok_upd [of "arp_table s" i entry_clear]
  by (simp add: arp_inv_def entry_clear_def table_ok_def)

section \<open>Finding an entry\<close>

text \<open>The entry that makes room: the oldest stable one, else the oldest pending one without packets, else the oldest pending one.\<close>

definition victim :: "etharp_entry list \<Rightarrow> nat \<Rightarrow> bool" where
  "victim t i \<longleftrightarrow>
     (if \<exists>e \<in> set t. is_stable e then oldest is_stable t i (ae_ctime (t ! i))
      else if \<exists>e \<in> set t. is_pending e then oldest is_pending t i (ae_ctime (t ! i))
      else oldest is_queued t i (ae_ctime (t ! i)))"

lemma oldest_some: "oldest P t i a \<Longrightarrow> \<exists>e \<in> set t. P e \<Longrightarrow> i < length t \<and> a = ae_ctime (t ! i)"
  by (simp add: oldest_def)

lemma oldest_none: "oldest P t i a \<Longrightarrow> \<not> (\<exists>e \<in> set t. P e) \<Longrightarrow> i = 10"
  by (simp add: oldest_def)

lemma find_select_ok:
  assumes c: "cand_ok t c" and t: "length t = 10" and ne: "\<forall>e \<in> set t. \<not> is_empty e"
  shows "\<exists>i<10. find_select c = Some i \<and> victim t i"
proof -
  have o: "oldest is_stable t (c_old_stable c) (c_age_stable c)" "oldest is_pending t (c_old_pending c) (c_age_pending c)"
    "oldest is_queued t (c_old_queue c) (c_age_queue c)" using c by (simp_all add: cand_ok_def)
  obtain e where "e \<in> set t" using t by (cases t) auto
  then have "(\<exists>e \<in> set t. is_stable e) \<or> (\<exists>e \<in> set t. is_pending e) \<or> (\<exists>e \<in> set t. is_queued e)"
    using ne by (cases "ae_state e") (auto simp: stable_def)
  then show ?thesis
    using oldest_some [OF o(1)] oldest_some [OF o(2)] oldest_some [OF o(3)] oldest_none [OF o(1)] oldest_none [OF o(2)] o t
    unfolding find_select_def victim_def arp_size
    by (cases "\<exists>e \<in> set t. is_stable e"; cases "\<exists>e \<in> set t. is_pending e") auto
qed

lemma find_cases:
  assumes "length (arp_table s) = 10"
  obtains (match) i where "i < 10" "arp_match ip netif (arp_table s ! i)" "find_loop ip netif (arp_table s) 0 cand_init = Inl i"
    "\<forall>j<i. \<not> arp_match ip netif (arp_table s ! j)"
  | (none) c where "\<forall>i<10. \<not> arp_match ip netif (arp_table s ! i)" "cand_ok (arp_table s) c"
    "find_loop ip netif (arp_table s) 0 cand_init = Inr c"
  using find_loop_ok [OF cand_init_ok, of "arp_table s" ip netif] assms that
  by (cases "find_loop ip netif (arp_table s) 0 cand_init") (auto simp: all_set_conv_all_nth)

text \<open>Everything that \<open>etharp_find_entry\<close> does, on a table that fulfils the invariant.\<close>

lemma find_entry_ok:
  assumes inv: "arp_inv d s Q" and nif: "netif \<noteq> NULL"
  shows "(\<forall>i<10. arp_match (Some ip) netif (arp_table s ! i) \<longrightarrow> etharp_find_entry (Some ip) flags netif s = Some (Inr i, s)) \<and>
    ((\<forall>i<10. \<not> arp_match (Some ip) netif (arp_table s ! i)) \<longrightarrow>
      (if flags AND ETHARP_FLAG_FIND_ONLY \<noteq> 0 then etharp_find_entry (Some ip) flags netif s = Some (Inl ERR_MEM, s)
       else if \<exists>e \<in> set (arp_table s). is_empty e then
         \<exists>i<10. first_empty (arp_table s) i \<and> etharp_find_entry (Some ip) flags netif s = Some (Inr i, find_fill (Some ip) netif i s)
       else if flags AND ETHARP_FLAG_TRY_HARD = 0 then etharp_find_entry (Some ip) flags netif s = Some (Inl ERR_MEM, s)
       else \<exists>i<10. victim (arp_table s) i \<and> etharp_find_entry (Some ip) flags netif s =
         map_option (\<lambda>b. (Inr i, find_fill (Some ip) netif i ((release (Q i) (s\<lparr>arp_table := (arp_table s)[i := entry_clear]\<rparr>))\<lparr>pbm := b\<rparr>)))
           (free_all (waiting s Q i) (pbm s))))"
proof -
  have t: "length (arp_table s) = 10" and tok: "table_ok (arp_table s)" and q: "queues_ok d s Q"
    using inv by (simp_all add: arp_inv_def table_ok_def)
  show ?thesis
  proof (rule find_cases [OF t, of "Some ip" netif])
    fix i assume m: "i < 10" "arp_match (Some ip) netif (arp_table s ! i)" "find_loop (Some ip) netif (arp_table s) 0 cand_init = Inl i"
    have "j = i" if "j < 10" "arp_match (Some ip) netif (arp_table s ! j)" for j
      using table_unique [OF tok that(1) m(1)] that(2) m(2) nif by (auto simp: arp_match_def)
    moreover have "etharp_find_entry (Some ip) flags netif s = Some (Inr i, s)" using m(3) by (simp add: etharp_find_entry_def)
    ultimately show ?thesis
      by (intro conjI impI allI) (simp, use m(1,2) in blast)
  next
    fix c assume c: "\<forall>i<10. \<not> arp_match (Some ip) netif (arp_table s ! i)" "cand_ok (arp_table s) c"
      "find_loop (Some ip) netif (arp_table s) 0 cand_init = Inr c"
    have fe: "first_empty (arp_table s) (c_empty c)" using c(2) by (simp add: cand_ok_def)
    show ?thesis
    proof (cases "\<exists>e \<in> set (arp_table s). is_empty e")
      case True
      then have "c_empty c < 10" using fe t by (simp add: first_empty_def)
      then show ?thesis using c fe True by (auto simp: etharp_find_entry_def)
    next
      case False
      then have ce: "c_empty c = 10" using fe by (simp add: first_empty_def)
      obtain i where i: "i < 10" "find_select c = Some i" "victim (arp_table s) i" using find_select_ok [OF c(2) t] False by auto
      have "etharp_find_entry (Some ip) flags netif s = map_option (\<lambda>b. (Inr i, find_fill (Some ip) netif i
          ((release (Q i) (s\<lparr>arp_table := (arp_table s)[i := entry_clear]\<rparr>))\<lparr>pbm := b\<rparr>))) (free_all (waiting s Q i) (pbm s))"
        if "flags AND ETHARP_FLAG_FIND_ONLY = 0" "flags AND ETHARP_FLAG_TRY_HARD \<noteq> 0"
        using that c(3) ce i(2) free_entry_eq [OF q i(1) t]
        by (simp add: etharp_find_entry_def bind_map_option option.map_comp comp_def map_conv_bind_option)
      then show ?thesis using c ce i False by (auto simp: etharp_find_entry_def)
    qed
  qed
qed

lemma find_fill_eq:
  assumes "i < length (arp_table s)"
  shows "find_fill (Some ip) netif i s = upd_entry i (\<lambda>e. e\<lparr>ae_ipaddr := ip, ae_ctime := 0, ae_netif := netif\<rparr>) s"
  using assms by (simp add: find_fill_def upd_entry_def)

lemma find_fill_inv:
  assumes "arp_inv d s Q" and "i < 10" and "is_empty (arp_table s ! i)"
  shows "arp_inv d (find_fill (Some ip) netif i s) Q"
proof -
  have t: "table_ok (arp_table s)" "length (arp_table s) = 10" and q: "queues_ok d s Q" using assms(1) by (simp_all add: arp_inv_def table_ok_def)
  have "Q i = []" using queues_okD(3) [OF q assms(2)] assms(3) by simp
  then show ?thesis unfolding find_fill_eq [of i s, unfolded t(2), OF assms(2)] using assms t(1)
    by (intro arp_inv_upd table_ok_upd) simp_all
qed

text \<open>The state after \<open>etharp_find_entry\<close>: only the entry it returns is for the address.\<close>

lemma find_entry_inv:
  assumes inv: "arp_inv d s Q" and nif: "netif \<noteq> NULL" and f: "etharp_find_entry (Some ip) flags netif s = Some (Inr i, s1)"
  shows "\<exists>Q1. arp_inv d s1 Q1 \<and> i < 10 \<and> ae_ipaddr (arp_table s1 ! i) = ip \<and> ae_netif (arp_table s1 ! i) = netif \<and>
    (\<forall>j<10. j \<noteq> i \<longrightarrow> \<not> is_empty (arp_table s1 ! j) \<longrightarrow> ip \<noteq> ae_ipaddr (arp_table s1 ! j) \<or> netif \<noteq> ae_netif (arp_table s1 ! j)) \<and>
    (if is_empty (arp_table s1 ! i) then Q1 i = [] \<and> ae_ctime (arp_table s1 ! i) = 0 else s1 = s \<and> Q1 = Q) \<and> netifs s1 = netifs s \<and> wire s1 = wire s"
proof -
  have t: "table_ok (arp_table s)" "length (arp_table s) = 10" and q: "queues_ok d s Q" using inv by (simp_all add: arp_inv_def table_ok_def)
  note F = find_entry_ok [OF inv nif, of ip flags]
  show ?thesis
  proof (cases "\<exists>i<10. arp_match (Some ip) netif (arp_table s ! i)")
    case True
    then obtain k where k: "k < 10" "arp_match (Some ip) netif (arp_table s ! k)" by blast
    then have "s1 = s" "i = k" using F f by auto
    then show ?thesis using k inv nif table_unique [OF t(1), of k] by (intro exI [of _ Q]) (auto simp: arp_match_def)
  next
    case False
    have other: "\<not> is_empty (arp_table s ! j) \<Longrightarrow> ip \<noteq> ae_ipaddr (arp_table s ! j) \<or> netif \<noteq> ae_netif (arp_table s ! j)" if "j < 10" for j
      using False that by (auto simp: arp_match_def)
    consider (empty) "i < 10" "first_empty (arp_table s) i" "\<exists>e \<in> set (arp_table s). is_empty e" "s1 = find_fill (Some ip) netif i s"
      | (recycle) b where "i < 10" "s1 = find_fill (Some ip) netif i ((release (Q i) (s\<lparr>arp_table := (arp_table s)[i := entry_clear]\<rparr>))\<lparr>pbm := b\<rparr>)"
    proof -
      have N: "if flags AND ETHARP_FLAG_FIND_ONLY \<noteq> 0 then etharp_find_entry (Some ip) flags netif s = Some (Inl ERR_MEM, s)
       else if \<exists>e \<in> set (arp_table s). is_empty e then
         \<exists>i<10. first_empty (arp_table s) i \<and> etharp_find_entry (Some ip) flags netif s = Some (Inr i, find_fill (Some ip) netif i s)
       else if flags AND ETHARP_FLAG_TRY_HARD = 0 then etharp_find_entry (Some ip) flags netif s = Some (Inl ERR_MEM, s)
       else \<exists>i<10. victim (arp_table s) i \<and> etharp_find_entry (Some ip) flags netif s =
         map_option (\<lambda>b. (Inr i, find_fill (Some ip) netif i ((release (Q i) (s\<lparr>arp_table := (arp_table s)[i := entry_clear]\<rparr>))\<lparr>pbm := b\<rparr>)))
           (free_all (waiting s Q i) (pbm s))"
        using conjunct2 [OF F] False by blast
      show thesis
        by (rule disjE [OF excluded_middle [of "\<exists>e \<in> set (arp_table s). is_empty e"]])
          (use N f in \<open>auto simp: eq_commute [of "Some _" "map_option _ _"] split: if_splits intro: that\<close>)
    qed
    then show ?thesis
    proof cases
      case empty
      then have e: "is_empty (arp_table s ! i)" by (simp add: first_empty_def)
      then have "Q i = []" using queues_okD(3) [OF q empty(1)] by simp
      moreover have "arp_inv d s1 Q" unfolding empty(4) by (rule find_fill_inv [OF inv empty(1) e])
      ultimately show ?thesis using empty(1,4) e other t(2) by (intro exI [of _ Q]) (simp add: find_fill_eq)
    next
      case recycle
      let ?s = "(release (Q i) (s\<lparr>arp_table := (arp_table s)[i := entry_clear]\<rparr>))\<lparr>pbm := b\<rparr>"
      have "arp_inv d ?s (Q(i := []))" using free_entry_inv [OF inv recycle(1)] by simp
      then have "arp_inv d s1 (Q(i := []))" unfolding recycle(2) using recycle(1) t(2)
        by (intro find_fill_inv) (simp_all add: entry_clear_def)
      then show ?thesis using recycle other t(2) by (intro exI [of _ "Q(i := [])"]) (simp add: find_fill_eq entry_clear_def)
    qed
  qed
qed

lemma find_entry_error: "etharp_find_entry ip flags netif s = Some (Inl e, s') \<Longrightarrow> s' = s \<and> e = ERR_MEM"
  by (auto simp: etharp_find_entry_def split: sum.splits if_splits option.splits Option.bind_splits)

section \<open>The queues\<close>

lemma append_loop_eq:
  assumes "linked (qnexts s) r qs" and "qs \<noteq> []"
  shows "append_loop new r n s = Some (n + length qs - 1, s\<lparr>q_ents := (q_ents s)(last qs \<mapsto> (the (q_ents s (last qs)))\<lparr>q_next := new\<rparr>)\<rparr>)"
  using assms
proof (induction qs arbitrary: r n)
  case (Cons q qs)
  then obtain e where e: "r = q" "q_ents s q = Some e" "linked (qnexts s) (q_next e) qs" by auto
  show ?case
  proof (cases "qs = []")
    case True
    then show ?thesis using e by (simp add: append_loop.simps fun_upd_def)
  next
    case False
    then have "q_next e \<noteq> NULL" using e(3) by (cases qs) auto
    then show ?thesis using Cons.IH [OF e(3) False, of "n + 1"] e False by (subst append_loop.simps) (simp add: fun_upd_def)
  qed
qed simp

lemma linked_snoc_new:
  assumes "linked (qnexts s) r qs" and "new \<noteq> NULL" and "new \<notin> set qs" and "qs \<noteq> []"
    and "q_ents t = (q_ents s)(new \<mapsto> e, last qs \<mapsto> (the (q_ents s (last qs)))\<lparr>q_next := new\<rparr>)" and "q_next e = NULL"
  shows "linked (qnexts t) r (qs @ [new])"
  using assms
proof (induction qs arbitrary: r)
  case (Cons q qs)
  then obtain c where c: "r = q" "q \<noteq> NULL" "q_ents s q = Some c" "linked (qnexts s) (q_next c) qs" by auto
  show ?case
  proof (cases "qs = []")
    case True
    then show ?thesis using Cons.prems c by simp
  next
    case False
    have "q \<notin> set qs" using linked_distinct [OF Cons.prems(1)] by simp
    then have "q \<noteq> last qs" using False by (metis last_in_set)
    moreover have "linked (qnexts t) (q_next c) (qs @ [new])"
      using Cons.IH [OF c(4) Cons.prems(2)] Cons.prems False by simp
    ultimately show ?thesis using c Cons.prems False by simp
  qed
qed simp

text \<open>The state after a new element has been put at the end of queue \<open>i\<close>.\<close>

definition enq_state :: "nat \<Rightarrow> addr \<Rightarrow> addr \<Rightarrow> memp_pool \<Rightarrow> (nat \<Rightarrow> addr list) \<Rightarrow> 'w link_state \<Rightarrow> 'w link_state" where
  "enq_state i new p pool Q s =
     (if Q i = [] then upd_entry i (\<lambda>e. e\<lparr>ae_q := new\<rparr>) (s\<lparr>arp_queue := pool, q_ents := (q_ents s)(new \<mapsto> \<lparr>q_next = NULL, q_p = p\<rparr>)\<rparr>)
      else s\<lparr>arp_queue := pool, q_ents := (q_ents s)(new \<mapsto> \<lparr>q_next = NULL, q_p = p\<rparr>,
               last (Q i) \<mapsto> (the (q_ents s (last (Q i))))\<lparr>q_next := new\<rparr>)\<rparr>)"

lemma queues_ok_enq:
  assumes q: "queues_ok d s Q" and i: "i < 10" and pe: "ae_state (arp_table s ! i) = ETHARP_STATE_PENDING" and t: "length (arp_table s) = 10"
    and new: "do_memp_malloc_pool (arp_queue s) = (new, pool)" "new \<noteq> NULL" and p: "p \<noteq> NULL"
  shows "queues_ok d (enq_state i new p pool Q s) (Q(i := Q i @ [new]))"
    and "j < 10 \<Longrightarrow> waiting (enq_state i new p pool Q s) (Q(i := Q i @ [new])) j = (if j = i then waiting s Q i @ [p] else waiting s Q j)"
    and "new \<notin> elems_of Q"
proof -
  let ?t = "enq_state i new p pool Q s" and ?Q = "Q(i := Q i @ [new])"
  note D = queues_okD [OF q]
  have pi: "pool_inv d (arp_queue s) (elems_of Q)" and dm: "dom (q_ents s) = elems_of Q" "md_num d = 30"
    and pn: "\<forall>e \<in> ran (q_ents s). q_p e \<noteq> NULL" using q by (simp_all add: queues_ok_def)
  from memp.alloc_ok [OF pi new(1,2)] have n: "new \<notin> elems_of Q" "pool_inv d pool (insert new (elems_of Q))" by simp_all
  show "new \<notin> elems_of Q" by (rule n(1))
  have nQ: "new \<notin> set (Q j)" if "j < 10" for j using n(1) D(5) [OF that] by auto
  have el: "elems_of ?Q = insert new (elems_of Q)" using elems_of_upd [OF i, of Q] elems_of_split(1) [OF q i] by simp
  have lq: "last (Q i) \<in> elems_of Q" if "Q i \<noteq> []" using D(5) [OF i] that by auto
  have ents: "q_ents ?t a = (if Q i \<noteq> [] \<and> a = last (Q i) then Some ((the (q_ents s a))\<lparr>q_next := new\<rparr>)
      else if a = new then Some \<lparr>q_next = NULL, q_p = p\<rparr> else q_ents s a)" for a
    using nQ [OF i] by (auto simp: enq_state_def)
  have ent: "q_ents s a = Some (the (q_ents s a))" if "a \<in> elems_of Q" for a using that dm(1) by (metis domIff option.collapse)
  have tab: "arp_table ?t = (arp_table s)[i := (arp_table s ! i)\<lparr>ae_q := hd (Q i @ [new])\<rparr>]"
    using D(1) [OF i] t i by (cases "Q i") (auto simp: enq_state_def list_update_same_conv)
  have pool: "arp_queue ?t = pool" by (simp add: enq_state_def)
  have lk: "linked (qnexts ?t) (ae_q (arp_table ?t ! j)) (?Q j)" if j: "j < 10" for j
  proof (cases "j = i")
    case True
    show ?thesis
    proof (cases "Q i = []")
      case True
      then show ?thesis using \<open>j = i\<close> i t tab new(2) ents by simp
    next
      case False
      have "linked (qnexts ?t) (ae_q (arp_table s ! i)) (Q i @ [new])"
        by (rule linked_snoc_new [OF D(1) [OF i] new(2) nQ [OF i] False, where e = "\<lparr>q_next = NULL, q_p = p\<rparr>"]) (use False in \<open>simp_all add: enq_state_def\<close>)
      then show ?thesis using \<open>j = i\<close> False i t tab by (cases "Q i") auto
    qed
  next
    case False
    have "linked (qnexts ?t) (ae_q (arp_table s ! j)) (Q j) = linked (qnexts s) (ae_q (arp_table s ! j)) (Q j)"
      by (rule linked_cong) (use D(4) [OF j i False] nQ [OF j] in \<open>auto simp: ents\<close>)
    then show ?thesis using D(1) [OF j] False tab by simp
  qed
  have "dom (q_ents ?t) = elems_of ?Q" unfolding el using dm(1) lq by (auto simp: ents dom_def split: if_splits)
  moreover have "\<forall>e \<in> ran (q_ents ?t). q_p e \<noteq> NULL"
  proof -
    have lp: "q_p (the (q_ents s (last (Q i)))) \<noteq> NULL" if "Q i \<noteq> []" using pn ent [OF lq [OF that]] by (metis ranI)
    have "q_p e \<noteq> NULL" if "q_ents ?t a = Some e" for a e
      using that lp pn p unfolding ents by (cases "Q i \<noteq> [] \<and> a = last (Q i)"; cases "a = new") (auto intro: ranI)
    then show ?thesis by (auto simp: ran_def)
  qed
  moreover have "?Q j = []" if "j < 10" "ae_state (arp_table ?t ! j) \<noteq> ETHARP_STATE_PENDING" for j
    using that D(3) [OF that(1)] pe t tab by (cases "j = i") auto
  moreover have "set (?Q j) \<inter> set (?Q k) = {}" if "j < 10" "k < 10" "j \<noteq> k" for j k
    using that D(4) [OF that(1,2)] nQ by (auto simp: fun_upd_apply)
  ultimately show "queues_ok d ?t ?Q" using lk n(2) dm(2) unfolding queues_ok_def arp_size pool el by simp
  have w: "q_p (the (q_ents ?t a)) = q_p (the (q_ents s a))" if "a \<noteq> new" for a using that by (simp add: ents)
  have wn: "q_p (the (q_ents ?t new)) = p" using lq n(1) by (auto simp: ents)
  have ww: "map (\<lambda>a. q_p (the (q_ents ?t a))) (Q j) = map (\<lambda>a. q_p (the (q_ents s a))) (Q j)" if "j < 10" for j
    using nQ [OF that] by (intro map_cong refl w) auto
  show "j < 10 \<Longrightarrow> waiting ?t ?Q j = (if j = i then waiting s Q i @ [p] else waiting s Q j)"
    using ww wn i by (simp add: waiting_def)
qed

lemma queues_full:
  assumes q: "queues_ok d s Q" and len: "\<forall>j<10. length (Q j) \<le> 3" and f: "do_memp_malloc_pool (arp_queue s) = (NULL, pool)" and j: "j < 10"
  shows "length (Q j) = 3"
proof (rule ccontr)
  assume "length (Q j) \<noteq> 3"
  then have lt: "length (Q j) < 3" using len j by (simp add: le_neq_implies_less)
  have pi: "pool_inv d (arp_queue s) (elems_of Q)" and n: "md_num d = 30" using q by (simp_all add: queues_ok_def)
  then have "elems_of Q = pool_elems d" "wf_desc d" using memp.alloc_fail [OF pi f] by (simp_all add: pool_inv_def)
  then have "30 \<le> (\<Sum>k<10. card (set (Q k)))" using card_pool_elems [of d] n card_UN_le [of "{..<10::nat}" "\<lambda>k. set (Q k)"] by (simp add: elems_of_def)
  also have "\<dots> \<le> (\<Sum>k<10. length (Q k))" by (rule sum_mono) (rule card_length)
  also have "\<dots> < (\<Sum>k<(10::nat). 3)" using len lt j by (intro sum_strict_mono_ex1) auto
  finally show False by simp
qed

text \<open>What queueing leaves of the table.\<close>

definition same_keys :: "'w link_state \<Rightarrow> 'w link_state \<Rightarrow> bool" where
  "same_keys s t \<longleftrightarrow> map (\<lambda>e. e\<lparr>ae_q := NULL\<rparr>) (arp_table t) = map (\<lambda>e. e\<lparr>ae_q := NULL\<rparr>) (arp_table s) \<and> netifs t = netifs s \<and>
     etharp_cached_entry t = etharp_cached_entry s \<and> wire t = wire s"

lemma same_keys_nth:
  assumes "same_keys s t" and "j < length (arp_table s)"
  shows "ae_state (arp_table t ! j) = ae_state (arp_table s ! j)" "ae_ipaddr (arp_table t ! j) = ae_ipaddr (arp_table s ! j)"
    "ae_netif (arp_table t ! j) = ae_netif (arp_table s ! j)" "ae_ctime (arp_table t ! j) = ae_ctime (arp_table s ! j)"
    "ae_ethaddr (arp_table t ! j) = ae_ethaddr (arp_table s ! j)" "length (arp_table t) = length (arp_table s)"
proof -
  have l: "length (arp_table t) = length (arp_table s)" using assms(1) by (auto simp: same_keys_def dest: map_eq_imp_length_eq)
  then have "(arp_table t ! j)\<lparr>ae_q := NULL\<rparr> = (arp_table s ! j)\<lparr>ae_q := NULL\<rparr>"
    using assms by (auto simp: same_keys_def list_eq_iff_nth_eq)
  then show "ae_state (arp_table t ! j) = ae_state (arp_table s ! j)" "ae_ipaddr (arp_table t ! j) = ae_ipaddr (arp_table s ! j)"
    "ae_netif (arp_table t ! j) = ae_netif (arp_table s ! j)" "ae_ctime (arp_table t ! j) = ae_ctime (arp_table s ! j)"
    "ae_ethaddr (arp_table t ! j) = ae_ethaddr (arp_table s ! j)"
    by (cases "arp_table t ! j", cases "arp_table s ! j", simp)+
  show "length (arp_table t) = length (arp_table s)" by (rule l)
qed

lemma same_keys_trans: "same_keys s t \<Longrightarrow> same_keys t u \<Longrightarrow> same_keys s u"
  by (simp add: same_keys_def)

lemma same_keys_upd: "i < length (arp_table s) \<Longrightarrow> same_keys s (release as (upd_entry i (\<lambda>e. e\<lparr>ae_q := x\<rparr>) s))"
  by (simp add: same_keys_def map_update list_update_same_conv)

lemma table_ok_same_keys: "same_keys s t \<Longrightarrow> table_ok (arp_table s) \<Longrightarrow> table_ok (arp_table t)"
  unfolding table_ok_def using same_keys_nth [of s t] by (simp add: same_keys_nth(6) [of s t 0])

lemma enqueue_ok:
  assumes inv: "arp_inv d s Q" and i: "i < 10" and pe: "ae_state (arp_table s ! i) = ETHARP_STATE_PENDING" and p: "p \<noteq> NULL"
  obtains (queued) t Q' where "length (Q i) < 3" "enqueue i p s = Some (ERR_OK, t)" "arp_inv d t Q'" "same_keys s t" "pbm t = pbm s"
      "\<forall>j<10. waiting t Q' j = (if j = i then waiting s Q i @ [p] else waiting s Q j)"
  | (dropped) t Q' where "length (Q i) = 3" "enqueue i p s = map_option (\<lambda>(_, b). (ERR_OK, t\<lparr>pbm := b\<rparr>)) (pbuf_free (hd (waiting s Q i)) (pbm s))"
      "arp_inv d t Q'" "same_keys s t" "\<forall>j<10. waiting t Q' j = (if j = i then tl (waiting s Q i) @ [p] else waiting s Q j)"
  | (full) t where "\<forall>j<10. length (Q j) = 3" "enqueue i p s = map_option (\<lambda>(_, b). (ERR_MEM, t\<lparr>pbm := b\<rparr>)) (pbuf_free p (pbm s))"
      "arp_inv d t Q" "same_keys s t" "\<forall>j<10. waiting t Q j = waiting s Q j"
proof -
  have t: "table_ok (arp_table s)" "length (arp_table s) = 10" and q: "queues_ok d s Q" and len: "\<forall>j<10. length (Q j) \<le> 3"
    and rest: "unat (etharp_cached_entry s) < 10" "netifs s NULL = None" using inv by (simp_all add: arp_inv_def table_ok_def)
  note D = queues_okD [OF q]
  obtain new pool where m: "do_memp_malloc_pool (arp_queue s) = (new, pool)" by (cases "do_memp_malloc_pool (arp_queue s)")
  show thesis
  proof (cases "new = NULL")
    case True
    have pi: "pool_inv d (arp_queue s) (elems_of Q)" using q by (simp add: queues_ok_def)
    have "pool_inv d pool (elems_of Q)" by (rule conjunct2 [OF memp.alloc_fail [OF pi m [unfolded True]]])
    then have "arp_inv d (s\<lparr>arp_queue := pool\<rparr>) Q" using inv by (simp add: arp_inv_def queues_ok_def)
    moreover have "enqueue i p s = map_option (\<lambda>(_, b). (ERR_MEM, s\<lparr>arp_queue := pool, pbm := b\<rparr>)) (pbuf_free p (pbm s))"
      using m True by (simp add: enqueue_def map_conv_bind_option split_def comp_def)
    moreover have "\<forall>j<10. length (Q j) = 3" using queues_full [OF q len m [unfolded True]] by blast
    moreover have "same_keys s (s\<lparr>arp_queue := pool\<rparr>)" "\<forall>j<10. waiting (s\<lparr>arp_queue := pool\<rparr>) Q j = waiting s Q j"
      by (simp_all add: same_keys_def waiting_def)
    ultimately show thesis by (blast intro: full)
  next
    case False
    let ?t = "enq_state i new p pool Q s" and ?Q = "Q(i := Q i @ [new])"
    note e = queues_ok_enq [OF q i pe t(2) m False p]
    have n: "new \<notin> set (Q i)" using e(3) D(5) [OF i] by auto
    have sk: "same_keys s ?t" using t(2) i by (simp add: same_keys_def enq_state_def map_update list_update_same_conv)
    have run: "enqueue i p s = (do { s \<leftarrow> (if length (Q i) \<ge> 3 then do {
                let old = ae_q (arp_table ?t ! i);
                first \<leftarrow> q_ents ?t old;
                let s = upd_entry i (\<lambda>e. e\<lparr>ae_q := q_next first\<rparr>) ?t;
                (_, b) \<leftarrow> pbuf_free (q_p first) (pbm s);
                Some (s\<lparr>pbm := b, arp_queue := do_memp_free_pool old (arp_queue s), q_ents := (q_ents s)(old := None)\<rparr>)
              } else Some ?t); Some (ERR_OK, s) })"
    proof (cases "Q i = []")
      case True
      then show ?thesis using D(7) [OF i] m False by (simp add: enqueue_def enq_state_def)
    next
      case ne: False
      let ?s = "s\<lparr>arp_queue := pool, q_ents := (q_ents s)(new \<mapsto> \<lparr>q_next = NULL, q_p = p\<rparr>)\<rparr>"
      have "linked (qnexts ?s) (ae_q (arp_table s ! i)) (Q i)"
        using D(1) [OF i] n by (subst linked_cong [of "Q i" "qnexts ?s" "qnexts s"]) auto
      from append_loop_eq [OF this ne, of new 1] ne n
      have "append_loop new (ae_q (arp_table s ! i)) 1 ?s = Some (length (Q i), ?t)"
        by (cases "last (Q i) = new") (auto simp: enq_state_def dest: last_in_set)
      then show ?thesis using ne D(7) [OF i] m False by (simp add: enqueue_def)
    qed
    show thesis
    proof (cases "length (Q i) < 3")
      case True
      have "arp_inv d ?t ?Q" using e(1) True len rest table_ok_same_keys [OF sk t(1)] by (simp add: arp_inv_def enq_state_def)
      then show thesis using queued [of ?t ?Q] True run sk e(2) by (simp add: enq_state_def)
    next
      case ge: False
      then have l3: "length (Q i) = 3" using len i by (simp add: le_antisym)
      then obtain a as where Qi: "Q i = a # as" by (cases "Q i") auto
      have lt: "linked (qnexts ?t) (ae_q (arp_table ?t ! i)) (a # as @ [new])" using queues_okD(1) [OF e(1) i] Qi by simp
      then obtain c where c: "ae_q (arp_table ?t ! i) = a" "q_ents ?t a = Some c" "linked (qnexts ?t) (q_next c) (as @ [new])" by auto
      have nx: "q_next c = hd (as @ [new])" using c(3) by (cases as) auto
      have nx': "hd (as @ [new, NULL]) = hd (as @ [new])" by (cases as) auto
      have tl10: "length (arp_table ?t) = 10" using same_keys_nth(6) [OF sk] t(2) i by simp
      let ?u = "release [a] (upd_entry i (\<lambda>e. e\<lparr>ae_q := q_next c\<rparr>) ?t)" and ?R = "Q(i := as @ [new])"
      have "queues_ok d ?u (?Q(i := as @ [new]))"
        using queues_ok_release [OF e(1) i, of "[a]" "as @ [new]" "(arp_table ?t ! i)\<lparr>ae_q := q_next c\<rparr>"] Qi nx tl10
          same_keys_nth(1) [OF sk, of i] pe i t(2) nx' by (simp add: upd_entry_def)
      then have qu: "queues_ok d ?u ?R" by simp
      have su: "same_keys s ?u" by (rule same_keys_trans [OF sk same_keys_upd]) (use tl10 i in simp)
      have w: "waiting ?u ?R j = (if j = i then tl (waiting s Q i) @ [p] else waiting s Q j)" if j: "j < 10" for j
      proof -
        have aj: "a \<notin> set (?R j)" using linked_distinct [OF lt] D(4) [OF j i] Qi by (cases "j = i") auto
        have "waiting ?u ?R j = map (\<lambda>x. q_p (the (q_ents ?t x))) (?R j)"
          unfolding waiting_def using aj by (intro map_cong refl) (auto simp: release_one)
        also have "\<dots> = (if j = i then tl (waiting ?t ?Q i) else waiting ?t ?Q j)" using Qi by (simp add: waiting_def)
        also have "\<dots> = (if j = i then tl (waiting s Q i @ [p]) else waiting s Q j)" using e(2) [OF j] e(2) [OF i] by simp
        finally show ?thesis using Qi by (simp add: waiting_def)
      qed
      have "q_p c = q_p (the (q_ents ?t a))" using c(2) by simp
      also have "\<dots> = hd (waiting ?t ?Q i)" using Qi by (simp add: waiting_def)
      also have "\<dots> = hd (waiting s Q i)" using e(2) [OF i] Qi by (simp add: waiting_def)
      finally have pc: "q_p c = hd (waiting s Q i)" .
      have "arp_inv d ?u ?R" using qu su table_ok_same_keys [OF su t(1)] len l3 Qi rest by (simp add: arp_inv_def enq_state_def release_def)
      moreover have "pbm ?t = pbm s" by (simp add: enq_state_def)
      then have "enqueue i p s = map_option (\<lambda>(_, b). (ERR_OK, ?u\<lparr>pbm := b\<rparr>)) (pbuf_free (hd (waiting s Q i)) (pbm s))"
        unfolding run using ge c pc
        by (cases "pbuf_free (hd (waiting s Q i)) (pbm s)") (auto simp: Let_def release_one intro!: link_state.equality)
      ultimately show thesis using dropped [of ?u ?R] l3 su w by blast
    qed
  qed
qed

text \<open>The sending loop: the queue is emptied, and its packets go out in order.\<close>

fun send_all :: "'w linkoutput \<Rightarrow> addr \<Rightarrow> eth_addr \<Rightarrow> eth_addr \<Rightarrow> addr list \<Rightarrow> 'w link_state \<Rightarrow> 'w link_state option" where
  "send_all lo netif src dst [] s = Some s"
| "send_all lo netif src dst (p # ps) s =
     do {
       (_, s) \<leftarrow> ethernet_output lo netif p src dst ETHTYPE_IP s;
       (_, b) \<leftarrow> pbuf_free p (pbm s);
       send_all lo netif src dst ps (s\<lparr>pbm := b\<rparr>)
     }"

definition set_arp :: "etharp_entry list \<Rightarrow> memp_pool \<Rightarrow> (addr \<Rightarrow> etharp_q_entry option) \<Rightarrow> 'w link_state \<Rightarrow> 'w link_state" where
  "set_arp T P E s = s\<lparr>arp_table := T, arp_queue := P, q_ents := E\<rparr>"

lemma set_arp_simps [simp]:
  "pbm (set_arp T P E s) = pbm s" "wire (set_arp T P E s) = wire s" "netifs (set_arp T P E s) = netifs s"
  "set_arp T P E (s\<lparr>pbm := b\<rparr>) = (set_arp T P E s)\<lparr>pbm := b\<rparr>" "set_arp T P E (s\<lparr>wire := w\<rparr>) = (set_arp T P E s)\<lparr>wire := w\<rparr>"
  "set_arp T P E (LINK_STATS_INC f s) = LINK_STATS_INC f (set_arp T P E s)" "set_arp T P E (set_arp T' P' E' s) = set_arp T P E s"
  "same_arp s t \<Longrightarrow> same_arp (set_arp T P E s) (set_arp T P E t)"
  by (simp_all add: set_arp_def LINK_STATS_INC_def same_arp_def)

lemma ethernet_output_set_arp:
  "ethernet_output lo netif p src dst ty (set_arp T P E s) = map_option (\<lambda>(e, t). (e, set_arp T P E t)) (ethernet_output lo netif p src dst ty s)"
  by (auto simp: ethernet_output_def Let_def map_conv_bind_option split: Option.bind_split prod.splits)

lemma send_all_set_arp:
  "send_all lo netif src dst ps (set_arp T P E s) = map_option (set_arp T P E) (send_all lo netif src dst ps s)"
proof (induction ps arbitrary: s)
  case (Cons p ps)
  show ?case
  proof (cases "ethernet_output lo netif p src dst ETHTYPE_IP s")
    case None
    then show ?thesis by (simp add: ethernet_output_set_arp)
  next
    case (Some x)
    obtain e t where x: "x = (e, t)" by (cases x)
    show ?thesis using Some x Cons.IH [of "t\<lparr>pbm := b\<rparr>" for b]
      by (cases "pbuf_free p (pbm t)") (auto simp: ethernet_output_set_arp)
  qed
qed simp

lemma send_all_same: "send_all lo netif src dst ps s = Some t \<Longrightarrow> same_arp s t"
proof (induction ps arbitrary: s)
  case (Cons p ps)
  then obtain e s1 c b where 1: "ethernet_output lo netif p src dst ETHTYPE_IP s = Some (e, s1)" "pbuf_free p (pbm s1) = Some (c, b)"
    "send_all lo netif src dst ps (s1\<lparr>pbm := b\<rparr>) = Some t" by (auto split: Option.bind_splits)
  from ethernet_output_same [OF 1(1)] Cons.IH [OF 1(3)] show ?case by (auto intro: same_arp_trans)
qed simp

lemma release_set_arp:
  "release as (upd_entry i f s) = set_arp ((arp_table s)[i := f (arp_table s ! i)]) (fold do_memp_free_pool as (arp_queue s)) (q_ents s |` (- set as)) s"
  by (simp add: release_def upd_entry_def set_arp_def)

lemma send_queue_eq:
  assumes "linked (qnexts s) (ae_q (arp_table s ! i)) as" and "i < length (arp_table s)" and "netifs s netif = Some nif"
  shows "send_queue lo netif mac i s = send_all lo netif (nif_hwaddr nif) mac (map (\<lambda>a. q_p (the (q_ents s a))) as)
    (release as (upd_entry i (\<lambda>e. e\<lparr>ae_q := NULL\<rparr>) s))"
  using assms
proof (induction as arbitrary: s)
  case Nil
  then have "upd_entry i (\<lambda>e. e\<lparr>ae_q := NULL\<rparr>) s = s"
    by (intro link_state.equality) (simp_all add: list_update_same_conv etharp_entry.equality)
  then show ?case using Nil by (simp add: send_queue.simps [of lo netif mac i s])
next
  case (Cons a as)
  then obtain r where r: "ae_q (arp_table s ! i) = a" "a \<noteq> NULL" "q_ents s a = Some r" "linked (qnexts s) (q_next r) as" by auto
  have a: "a \<notin> set as" using linked_distinct [OF Cons.prems(1)] by simp
  let ?s1 = "release [a] (upd_entry i (\<lambda>e. e\<lparr>ae_q := q_next r\<rparr>) s)"
  have run: "send_queue lo netif mac i s = do {
        (_, s) \<leftarrow> ethernet_output lo netif (q_p r) (nif_hwaddr nif) mac ETHTYPE_IP ?s1;
        (_, b) \<leftarrow> pbuf_free (q_p r) (pbm s);
        send_queue lo netif mac i (s\<lparr>pbm := b\<rparr>) }"
    using r Cons.prems by (subst send_queue.simps) (simp add: Let_def release_one)
  let ?T = "(arp_table s)[i := (arp_table s ! i)\<lparr>ae_q := NULL\<rparr>]" and ?P = "fold do_memp_free_pool (a # as) (arp_queue s)"
    and ?E = "q_ents s |` (- set (a # as))"
  have goal: "release (a # as) (upd_entry i (\<lambda>e. e\<lparr>ae_q := NULL\<rparr>) s) = set_arp ?T ?P ?E ?s1"
    unfolding release_set_arp by simp
  show ?case
  proof (cases "ethernet_output lo netif (q_p r) (nif_hwaddr nif) mac ETHTYPE_IP ?s1")
    case None
    then show ?thesis unfolding run goal using r by (simp add: ethernet_output_set_arp)
  next
    case (Some x)
    obtain e t where x: "x = (e, t)" by (cases x)
    have sa: "same_arp ?s1 t" using Some x ethernet_output_same by blast
    show ?thesis
    proof (cases "pbuf_free (q_p r) (pbm t)")
      case None
      then show ?thesis unfolding run goal using r Some x by (simp add: ethernet_output_set_arp)
    next
      case f: (Some y)
      obtain c b where y: "y = (c, b)" by (cases y)
      let ?t = "t\<lparr>pbm := b\<rparr>"
      have t: "arp_table ?t = (arp_table s)[i := (arp_table s ! i)\<lparr>ae_q := q_next r\<rparr>]" "q_ents ?t = q_ents s |` (- {a})"
        "arp_queue ?t = do_memp_free_pool a (arp_queue s)" "netifs ?t = netifs s"
        using sa by (simp_all add: same_arp_def release_def)
      have "linked (qnexts ?t) (ae_q (arp_table ?t ! i)) as"
        using r(4) a Cons.prems(2) t by (subst linked_cong [of as "qnexts ?t" "qnexts s"]) (auto simp: restrict_map_def)
      from Cons.IH [OF this] Cons.prems(2,3) t(1,4)
      have "send_queue lo netif mac i ?t = send_all lo netif (nif_hwaddr nif) mac (map (\<lambda>a. q_p (the (q_ents ?t a))) as)
          (release as (upd_entry i (\<lambda>e. e\<lparr>ae_q := NULL\<rparr>) ?t))" by simp
      moreover have "map (\<lambda>a. q_p (the (q_ents ?t a))) as = map (\<lambda>a. q_p (the (q_ents s a))) as"
        using a unfolding t(2) by (intro map_cong refl) (auto simp: restrict_map_def)
      moreover have "release as (upd_entry i (\<lambda>e. e\<lparr>ae_q := NULL\<rparr>) ?t) = set_arp ?T ?P ?E ?t"
      proof -
        have "q_ents s |` (- {a}) |` (- set as) = ?E" by (simp add: restrict_map_def fun_eq_iff)
        then show ?thesis unfolding release_set_arp t(1-3) using Cons.prems(2) by simp
      qed
      ultimately have "send_queue lo netif mac i ?t = send_all lo netif (nif_hwaddr nif) mac (map (\<lambda>a. q_p (the (q_ents s a))) as) (set_arp ?T ?P ?E ?t)"
        by (simp only:)
      then show ?thesis unfolding run goal using r Some x f y by (simp add: ethernet_output_set_arp)
    qed
  qed
qed

lemma update_inv:
  assumes inv: "arp_inv d s Q" and i: "i < 10" and key: "ae_ipaddr (arp_table s ! i) = ip"
    and other: "\<forall>j<10. j \<noteq> i \<longrightarrow> \<not> is_empty (arp_table s ! j) \<longrightarrow> ip \<noteq> ae_ipaddr (arp_table s ! j) \<or> netif \<noteq> ae_netif (arp_table s ! j)"
  shows "arp_inv d (release (Q i) (upd_entry i (\<lambda>e. e\<lparr>ae_state := ETHARP_STATE_STABLE, ae_netif := netif, ae_ethaddr := mac, ae_ctime := 0, ae_q := NULL\<rparr>) s)) (Q(i := []))"
proof -
  let ?e = "(arp_table s ! i)\<lparr>ae_state := ETHARP_STATE_STABLE, ae_netif := netif, ae_ethaddr := mac, ae_ctime := 0, ae_q := NULL\<rparr>"
  have t: "table_ok (arp_table s)" "length (arp_table s) = 10" and q: "queues_ok d s Q" using inv by (simp_all add: arp_inv_def table_ok_def)
  have "table_ok ((arp_table s)[i := ?e])" by (rule table_ok_upd [OF t(1) i]) (use other key in \<open>auto simp: const_defs\<close>)
  then show ?thesis using queues_ok_release [OF q i, of "Q i" "[]" ?e] t(2) inv by (simp add: arp_inv_def upd_entry_def)
qed

lemma update_arp_eq:
  assumes nif: "netifs s netif = Some nif" and uni: "\<not> (ip4_addr_isany ip \<or> ip4_addr_isbroadcast_u32 ip nif \<or> ip4_addr_ismulticast ip)"
    and f: "etharp_find_entry (Some ip) flags netif s = Some (Inr i, s1)" and inv: "arp_inv d s1 Q1" "i < 10" "netifs s1 = netifs s"
  shows "etharp_update_arp_entry lo netif ip mac flags s = map_option (\<lambda>t. (ERR_OK, t)) (send_all lo netif (nif_hwaddr nif) mac (waiting s1 Q1 i)
    (release (Q1 i) (upd_entry i (\<lambda>e. e\<lparr>ae_state := ETHARP_STATE_STABLE, ae_netif := netif, ae_ethaddr := mac, ae_ctime := 0, ae_q := NULL\<rparr>) s1)))"
proof -
  let ?s = "upd_entry i (\<lambda>e. e\<lparr>ae_state := ETHARP_STATE_STABLE, ae_netif := netif, ae_ethaddr := mac, ae_ctime := 0\<rparr>) s1"
  have t: "length (arp_table s1) = 10" and q: "queues_ok d s1 Q1" using inv(1) by (simp_all add: arp_inv_def table_ok_def)
  have "linked (qnexts ?s) (ae_q (arp_table ?s ! i)) (Q1 i)" using queues_okD(1) [OF q inv(2)] inv(2) t by simp
  from send_queue_eq [OF this, of netif nif lo mac] inv(2,3) nif t
  have "send_queue lo netif mac i ?s = send_all lo netif (nif_hwaddr nif) mac (waiting s1 Q1 i)
      (release (Q1 i) (upd_entry i (\<lambda>e. e\<lparr>ae_q := NULL\<rparr>) ?s))" by (simp add: waiting_def)
  also have "upd_entry i (\<lambda>e. e\<lparr>ae_q := NULL\<rparr>) ?s =
      upd_entry i (\<lambda>e. e\<lparr>ae_state := ETHARP_STATE_STABLE, ae_netif := netif, ae_ethaddr := mac, ae_ctime := 0, ae_q := NULL\<rparr>) s1"
    using inv(2) t by (simp add: upd_entry_def)
  finally show ?thesis using nif uni f by (simp add: etharp_update_arp_entry_def map_conv_bind_option comp_def)
qed

lemma netif_not_null: "arp_inv d s Q \<Longrightarrow> netifs s netif = Some nif \<Longrightarrow> netif \<noteq> NULL"
  by (cases "netif = NULL") (auto simp: arp_inv_def)

lemma update_arp_inv:
  assumes inv: "arp_inv d s Q" and u: "etharp_update_arp_entry lo netif ip mac flags s = Some (r, s')"
  shows "\<exists>Q'. arp_inv d s' Q'"
proof -
  obtain nif where nif: "netifs s netif = Some nif" using u by (auto simp: etharp_update_arp_entry_def split: Option.bind_splits)
  show ?thesis
  proof (cases "ip4_addr_isany ip \<or> ip4_addr_isbroadcast_u32 ip nif \<or> ip4_addr_ismulticast ip")
    case True
    then show ?thesis using u nif inv by (auto simp: etharp_update_arp_entry_def)
  next
    case uni: False
    then obtain x s1 where f: "etharp_find_entry (Some ip) flags netif s = Some (x, s1)"
      using u nif by (auto simp: etharp_update_arp_entry_def split: Option.bind_splits)
    show ?thesis
    proof (cases x)
      case (Inl e)
      then show ?thesis using f u nif uni inv find_entry_error [of "Some ip" flags netif s e s1] by (auto simp: etharp_update_arp_entry_def)
    next
      case (Inr i)
      obtain Q1 where Q1: "arp_inv d s1 Q1" "i < 10" "ae_ipaddr (arp_table s1 ! i) = ip" "netifs s1 = netifs s"
        "\<forall>j<10. j \<noteq> i \<longrightarrow> \<not> is_empty (arp_table s1 ! j) \<longrightarrow> ip \<noteq> ae_ipaddr (arp_table s1 ! j) \<or> netif \<noteq> ae_netif (arp_table s1 ! j)"
        using find_entry_inv [OF inv netif_not_null [OF inv nif] f [unfolded Inr]] by blast
      note eq = update_arp_eq [OF nif uni f [unfolded Inr] Q1(1,2,4), of lo mac]
      have "arp_inv d s' (Q1(i := []))"
        using u unfolding eq by (auto dest!: send_all_same intro: arp_inv_same [OF update_inv [OF Q1(1,2,3,5)]])
      then show ?thesis by blast
    qed
  qed
qed

text \<open>The other queues keep their packets when queue \<open>i\<close> is given back.\<close>

lemma waiting_release:
  assumes "queues_ok d s Q" and "i < 10" and "j < 10" and "j \<noteq> i"
  shows "waiting (release (Q i) (s\<lparr>arp_table := t\<rparr>)) (Q(i := [])) j = waiting s Q j"
  using queues_okD(4) [OF assms(1,3,2)] assms(4) unfolding waiting_def release_def by (auto simp: restrict_map_def)

lemma tmr_entry_inv:
  assumes inv: "arp_inv d s Q" and i: "i < 10" and u: "tmr_entry lo i s = Some s'"
  shows "\<exists>Q'. arp_inv d s' Q' \<and> netifs s' = netifs s \<and> (\<forall>j<10. j \<noteq> i \<longrightarrow> waiting s' Q' j = waiting s Q j) \<and> waiting s' Q' i \<in> {[], waiting s Q i}"
proof (cases "is_empty (arp_table s ! i)")
  case True
  then show ?thesis using u inv by (auto simp: tmr_entry_def)
next
  case False
  let ?e = "(arp_table s ! i)\<lparr>ae_ctime := ae_ctime (arp_table s ! i) + 1\<rparr>" and ?s = "upd_entry i (\<lambda>e. e\<lparr>ae_ctime := ae_ctime e + 1\<rparr>) s"
  have t: "table_ok (arp_table s)" "length (arp_table s) = 10" and q: "queues_ok d s Q" using inv by (simp_all add: arp_inv_def table_ok_def)
  have q1: "queues_ok d ?s Q" using queues_ok_upd [OF q i t(2), of ?e] queues_okD(3) [OF q i] by (auto simp: upd_entry_def)
  have other: "\<forall>j<10. j \<noteq> i \<longrightarrow> \<not> is_empty (arp_table s ! j) \<longrightarrow>
      ae_ipaddr (arp_table s ! i) \<noteq> ae_ipaddr (arp_table s ! j) \<or> ae_netif (arp_table s ! i) \<noteq> ae_netif (arp_table s ! j)"
    using t(1) i False unfolding table_ok_def arp_size by blast
  show ?thesis
  proof (cases "ae_ctime ?e \<ge> ARP_MAXAGE \<or> ae_state ?e = ETHARP_STATE_PENDING \<and> ae_ctime ?e \<ge> ARP_MAXPENDING")
    case True
    let ?r = "release (Q i) (s\<lparr>arp_table := (arp_table s)[i := entry_clear]\<rparr>)"
    from True have "etharp_free_entry i ?s = Some s'" using u False i t(2) by (simp add: tmr_entry_def Let_def)
    then obtain b where s': "s' = (release (Q i) (?s\<lparr>arp_table := (arp_table ?s)[i := entry_clear]\<rparr>))\<lparr>pbm := b\<rparr>"
      using free_entry_eq [OF q1 i] t(2) by (auto simp: waiting_def)
    also have "?s\<lparr>arp_table := (arp_table ?s)[i := entry_clear]\<rparr> = s\<lparr>arp_table := (arp_table s)[i := entry_clear]\<rparr>" by (simp add: upd_entry_def)
    finally have s': "s' = ?r\<lparr>pbm := b\<rparr>" .
    have "waiting s' (Q(i := [])) j = waiting s Q j" if "j < 10" "j \<noteq> i" for j
      unfolding s' using waiting_release [OF q i that] by (simp add: waiting_def)
    moreover have "waiting s' (Q(i := [])) i = []" "netifs s' = netifs s" by (simp_all add: waiting_def s')
    moreover have "arp_inv d s' (Q(i := []))" unfolding s' using free_entry_inv [OF inv i] by simp
    ultimately show ?thesis by blast
  next
    case young: False
    have tk: "table_ok ((arp_table s)[i := ?e\<lparr>ae_state := st\<rparr>])" if "st = ETHARP_STATE_PENDING \<longrightarrow> ae_state ?e = ETHARP_STATE_PENDING" for st
      by (rule table_ok_upd [OF t(1) i]) (use young other that in auto)
    have "arp_inv d ?s Q" using q1 inv tk [of "ae_state ?e"] by (simp add: arp_inv_def)
    moreover have "arp_inv d (upd_entry i (\<lambda>e. e\<lparr>ae_state := st\<rparr>) ?s) Q" if "stable (ae_state ?e)" "stable st" for st
      by (rule arp_inv_upd [OF calculation i]) (use that tk [of st] queues_okD(3) [OF q i] i t(2) in \<open>auto simp: stable_def\<close>)
    ultimately have "arp_inv d s' Q" using u False young i t(2) arp_inv_same [of d ?s Q s']
      by (auto simp: tmr_entry_def Let_def stable_def split: if_splits dest: etharp_request_same)
    moreover have "netifs s' = netifs s \<and> q_ents s' = q_ents s" using u False young i t(2)
      by (auto simp: tmr_entry_def Let_def same_arp_def split: if_splits dest!: etharp_request_same)
    ultimately show ?thesis by (intro exI [of _ Q]) (simp add: waiting_def)
  qed
qed

declare tmr_loop.simps [simp del]

lemma tmr_loop_inv: "arp_inv d s Q \<Longrightarrow> tmr_loop lo i s = Some s' \<Longrightarrow> \<exists>Q'. arp_inv d s' Q'"
proof (induction lo i s arbitrary: Q rule: tmr_loop.induct)
  case (1 lo i s)
  show ?case
  proof (cases "i < 10")
    case True
    then obtain s1 where s1: "tmr_entry lo i s = Some s1" "tmr_loop lo (i + 1) s1 = Some s'"
      using "1.prems"(2) by (subst (asm) tmr_loop.simps) (auto split: Option.bind_splits)
    obtain Q1 where "arp_inv d s1 Q1" using tmr_entry_inv [OF "1.prems"(1) True s1(1)] by blast
    then show ?thesis using "1.IH" [OF _ s1(1) _ s1(2)] True by simp
  next
    case False
    then show ?thesis using "1.prems" by (auto simp: tmr_loop.simps [of lo i s])
  qed
qed

lemma cleanup_loop_inv: "arp_inv d s Q \<Longrightarrow> \<forall>j \<in> set js. j < 10 \<Longrightarrow> cleanup_loop netif js s = Some s' \<Longrightarrow> \<exists>Q'. arp_inv d s' Q'"
proof (induction js arbitrary: s Q)
  case (Cons i js)
  have i: "i < 10" using Cons.prems(2) by simp
  have t: "length (arp_table s) = 10" and q: "queues_ok d s Q" using Cons.prems(1) by (simp_all add: arp_inv_def table_ok_def)
  obtain s1 where s1: "(if ae_state (arp_table s ! i) \<noteq> ETHARP_STATE_EMPTY \<and> ae_netif (arp_table s ! i) = netif then etharp_free_entry i s else Some s) = Some s1"
    "cleanup_loop netif js s1 = Some s'" using Cons.prems(3) by (auto split: Option.bind_splits)
  have "\<exists>Q1. arp_inv d s1 Q1"
    using s1(1) Cons.prems(1) free_entry_eq [OF q i t] free_entry_inv [OF Cons.prems(1) i]
    by (auto simp: eq_commute [of "Some _" "map_option _ _"] split: if_splits)
  then show ?case using Cons.IH [OF _ _ s1(2)] Cons.prems(2) by auto
qed auto

lemma cached_inv: "arp_inv d s Q \<Longrightarrow> i < 10 \<Longrightarrow> arp_inv d (s\<lparr>etharp_cached_entry := of_nat i\<rparr>) Q"
  by (simp add: arp_inv_def queues_ok_def unat_of_nat_id)

lemma stats_inv [simp]: "arp_inv d (ETHARP_STATS_INC f s) Q = arp_inv d s Q"
  by (simp add: arp_inv_def queues_ok_def ETHARP_STATS_INC_def)

lemma enqueue_inv:
  assumes "arp_inv d s Q" and "i < 10" and "ae_state (arp_table s ! i) = ETHARP_STATE_PENDING" and "p \<noteq> NULL" and "enqueue i p s = Some (r, s')"
  shows "\<exists>Q'. arp_inv d s' Q'"
  by (rule enqueue_ok [OF assms(1-4)]) (use assms(5) in \<open>auto simp: eq_commute [of "Some _" "map_option _ _"]\<close>)

lemma query_packet_inv:
  assumes inv: "arp_inv d s Q" and i: "i < 10" and u: "query_packet lo netif src q i result s = Some (r, s')"
  shows "\<exists>Q'. arp_inv d s' Q'"
proof (cases "stable (ae_state (arp_table s ! i))")
  case True
  then have "same_arp (s\<lparr>etharp_cached_entry := of_nat i\<rparr>) s'" using u by (auto simp: query_packet_def dest: ethernet_output_same)
  then show ?thesis using arp_inv_same [OF cached_inv [OF inv i]] by blast
next
  case False
  then consider "s' = s" | p b where "ae_state (arp_table s ! i) = ETHARP_STATE_PENDING" "p \<noteq> NULL" "enqueue i p (s\<lparr>pbm := b\<rparr>) = Some (r, s')"
    | b where "s' = ETHARP_STATS_INC sp_memerr_update (s\<lparr>pbm := b\<rparr>)"
    using u by (auto simp: query_packet_def Let_def split: if_splits Option.bind_splits)
  then show ?thesis
  proof cases
    case 2
    then show ?thesis using enqueue_inv [of d "s\<lparr>pbm := b\<rparr>" Q i p r s'] inv i by simp
  qed (use inv in \<open>auto intro: exI [of _ Q]\<close>)
qed

lemma pending_inv:
  assumes inv: "arp_inv d s Q" and i: "i < 10" and e: "is_empty (arp_table s ! i)" and key: "ae_ipaddr (arp_table s ! i) = ip" "ae_ctime (arp_table s ! i) = 0"
    and other: "\<forall>j<10. j \<noteq> i \<longrightarrow> \<not> is_empty (arp_table s ! j) \<longrightarrow> ip \<noteq> ae_ipaddr (arp_table s ! j) \<or> netif \<noteq> ae_netif (arp_table s ! j)"
  shows "arp_inv d (upd_entry i (\<lambda>e. e\<lparr>ae_state := ETHARP_STATE_PENDING, ae_netif := netif\<rparr>) s) Q"
proof (rule arp_inv_upd [OF inv i])
  have t: "table_ok (arp_table s)" using inv by (simp add: arp_inv_def)
  show "table_ok ((arp_table s)[i := (arp_table s ! i)\<lparr>ae_state := ETHARP_STATE_PENDING, ae_netif := netif\<rparr>])"
    by (rule table_ok_upd [OF t i]) (use other key in \<open>auto simp: const_defs\<close>)
qed simp_all

lemma ctime_zero_inv:
  assumes inv: "arp_inv d s Q" and i: "i < 10" and e: "\<not> is_empty (arp_table s ! i)"
  shows "arp_inv d (upd_entry i (\<lambda>e. e\<lparr>ae_ctime := 0\<rparr>) s) Q"
proof (rule arp_inv_upd [OF inv i])
  have t: "table_ok (arp_table s)" and q: "queues_ok d s Q" using inv by (simp_all add: arp_inv_def)
  show "table_ok ((arp_table s)[i := (arp_table s ! i)\<lparr>ae_ctime := 0\<rparr>])"
    by (rule table_ok_upd [OF t i]) (use t i e in \<open>auto simp: table_ok_def const_defs\<close>)
  show "ae_state ((arp_table s ! i)\<lparr>ae_ctime := 0\<rparr>) \<noteq> ETHARP_STATE_PENDING \<longrightarrow> Q i = []" using queues_okD(3) [OF q i] by simp
qed simp

lemma find_entry_fresh:
  assumes "arp_inv d s Q" and "netif \<noteq> NULL" and "etharp_find_entry (Some ip) flags netif s = Some (Inr i, s1)" and "is_empty (arp_table s1 ! i)"
  shows "ae_ctime (arp_table s1 ! i) = 0"
  using find_entry_inv [OF assms(1-3)] assms(4) by auto

lemma query_inv:
  assumes inv: "arp_inv d s Q" and u: "etharp_query lo netif ip q s = Some (r, s')"
  shows "\<exists>Q'. arp_inv d s' Q'"
proof -
  obtain nif where nif: "netifs s netif = Some nif" using u by (auto simp: etharp_query_def split: Option.bind_splits)
  show ?thesis
  proof (cases "ip4_addr_isbroadcast_u32 ip nif \<or> ip4_addr_ismulticast ip \<or> ip4_addr_isany ip")
    case True
    then show ?thesis using u nif inv by (auto simp: etharp_query_def)
  next
    case uni: False
    then obtain x s1 where f: "etharp_find_entry (Some ip) ETHARP_FLAG_TRY_HARD netif s = Some (x, s1)"
      using u nif by (auto simp: etharp_query_def split: Option.bind_splits)
    show ?thesis
    proof (cases x)
      case (Inl e)
      then show ?thesis using f u nif uni inv find_entry_error [of "Some ip" ETHARP_FLAG_TRY_HARD netif s e s1] by (auto simp: etharp_query_def)
    next
      case (Inr i)
      obtain Q1 where Q1: "arp_inv d s1 Q1" "i < 10" "ae_ipaddr (arp_table s1 ! i) = ip"
        "\<forall>j<10. j \<noteq> i \<longrightarrow> \<not> is_empty (arp_table s1 ! j) \<longrightarrow> ip \<noteq> ae_ipaddr (arp_table s1 ! j) \<or> netif \<noteq> ae_netif (arp_table s1 ! j)"
        using find_entry_inv [OF inv netif_not_null [OF inv nif] f [unfolded Inr]] by blast
      let ?s2 = "if is_empty (arp_table s1 ! i) then upd_entry i (\<lambda>e. e\<lparr>ae_state := ETHARP_STATE_PENDING, ae_netif := netif\<rparr>) s1 else s1"
      have c0: "ae_ctime (arp_table s1 ! i) = 0" if "is_empty (arp_table s1 ! i)" by (rule find_entry_fresh [OF inv netif_not_null [OF inv nif] f [unfolded Inr] that])
      have i2: "arp_inv d ?s2 Q1" using pending_inv [OF Q1(1,2) _ Q1(3) c0 Q1(4)] Q1(1) by simp
      obtain res s3 where s3: "(if is_empty (arp_table s1 ! i) \<or> q = NULL then do {
            (result, s) \<leftarrow> etharp_request lo netif ip ?s2;
            Some (result, if result = ERR_OK \<and> ae_state (arp_table s ! i) = ETHARP_STATE_PENDING \<and> \<not> is_empty (arp_table s1 ! i)
                then upd_entry i (\<lambda>e. e\<lparr>ae_ctime := 0\<rparr>) s else s) } else Some (ERR_MEM, ?s2)) = Some (res, s3)"
        "(if q = NULL then Some (res, s3) else query_packet lo netif (nif_hwaddr nif) q i res s3) = Some (r, s')"
        using u nif uni f Inr unfolding etharp_query_def Let_def by (auto split: Option.bind_splits prod.splits if_splits)
      have "arp_inv d s3 Q1"
        using s3(1) i2 Q1(2) by (auto split: if_splits Option.bind_splits dest!: etharp_request_same intro!: ctime_zero_inv intro: arp_inv_same)
      then show ?thesis using s3(2) query_packet_inv [OF _ Q1(2)] by (auto split: if_splits)
    qed
  qed
qed

lemma output_search_ok:
  "output_search netif ip es k = Some i \<Longrightarrow> k \<le> i \<and> i < k + length es \<and> arp_usable netif ip (es ! (i - k))"
  by (induction es arbitrary: k) (force split: if_splits simp: nth_Cons')+

lemma output_search_None: "output_search netif ip es k = None \<longleftrightarrow> (\<forall>e \<in> set es. \<not> arp_usable netif ip e)"
  by (induction es arbitrary: k) auto

lemma rerequest_inv:
  assumes inv: "arp_inv d s Q" and i: "i < 10" and st: "ae_state (arp_table s ! i) = ETHARP_STATE_STABLE"
  shows "arp_inv d (upd_entry i (\<lambda>e. e\<lparr>ae_state := ETHARP_STATE_STABLE_REREQUESTING_1\<rparr>) s) Q"
proof (rule arp_inv_upd [OF inv i])
  have t: "table_ok (arp_table s)" and q: "queues_ok d s Q" using inv by (simp_all add: arp_inv_def)
  show "table_ok ((arp_table s)[i := (arp_table s ! i)\<lparr>ae_state := ETHARP_STATE_STABLE_REREQUESTING_1\<rparr>])"
    by (rule table_ok_upd [OF t i]) (use t i st in \<open>auto simp: table_ok_def\<close>)
  show "ae_state ((arp_table s ! i)\<lparr>ae_state := ETHARP_STATE_STABLE_REREQUESTING_1\<rparr>) \<noteq> ETHARP_STATE_PENDING \<longrightarrow> Q i = []"
    using queues_okD(3) [OF q i] st by simp
qed simp

lemma arp_rerequest_inv:
  assumes inv: "arp_inv d s Q" and i: "i < 10" and u: "arp_rerequest lo netif i s = Some s'"
  shows "arp_inv d s' Q"
proof -
  have r: "arp_inv d t Q" "ae_state (arp_table s ! i) = ETHARP_STATE_STABLE \<Longrightarrow>
      arp_inv d (upd_entry i (\<lambda>e. e\<lparr>ae_state := ETHARP_STATE_STABLE_REREQUESTING_1\<rparr>) t) Q" if "same_arp s t" for t
    using arp_inv_same [OF inv that] rerequest_inv [OF arp_inv_same [OF inv that] i] that by (simp_all add: same_arp_def)
  show ?thesis using u inv r etharp_request_same(1) [of lo netif _ _ s] etharp_request_same(2) [of lo netif _ s]
    by (auto simp: arp_rerequest_def Let_def split: if_splits)
qed

lemma output_to_index_inv:
  assumes "arp_inv d s Q" and "i < 10" and "etharp_output_to_arp_index lo netif q i s = Some (r, s')"
  shows "arp_inv d s' Q"
  using assms arp_rerequest_inv [OF assms(1,2)]
  by (auto simp: etharp_output_to_arp_index_def split: Option.bind_splits dest!: ethernet_output_same intro: arp_inv_same)

lemma output_inv:
  assumes inv: "arp_inv d s Q" and u: "etharp_output lo netif q ip s = Some (r, s')"
  shows "\<exists>Q'. arp_inv d s' Q'"
proof -
  have c: "unat (etharp_cached_entry s) < 10" and t: "length (arp_table s) = 10" using inv by (simp_all add: arp_inv_def table_ok_def)
  consider (direct) src dst where "ethernet_output lo netif q src dst ETHTYPE_IP s = Some (r, s')" | (unrouted) "s' = s"
    | (cached) "etharp_output_to_arp_index lo netif q (unat (etharp_cached_entry s)) (ETHARP_STATS_INC sp_cachehit_update s) = Some (r, s')"
    | (found) dst i where "output_search netif dst (arp_table s) 0 = Some i" "etharp_output_to_arp_index lo netif q i (s\<lparr>etharp_cached_entry := of_nat i\<rparr>) = Some (r, s')"
    | (query) dst where "etharp_query lo netif dst q s = Some (r, s')"
    using u unfolding etharp_output_def by (auto simp: Let_def split: Option.bind_splits if_splits option.splits)
  then show ?thesis
  proof cases
    case direct
    then show ?thesis using arp_inv_same [OF inv ethernet_output_same] by blast
  next
    case unrouted
    then show ?thesis using inv by blast
  next
    case cached
    then show ?thesis using output_to_index_inv [OF _ c cached] inv by auto
  next
    case found
    then have "i < 10" using output_search_ok [OF found(1)] t by simp
    then show ?thesis using output_to_index_inv [OF cached_inv [OF inv] _ found(2)] by blast
  next
    case query
    then show ?thesis using query_inv [OF inv] by blast
  qed
qed

section \<open>Reachable states\<close>

text \<open>
  The states that the functions of the file reach from the initial one, in which static memory is zero and the
  pool has just been set up. Other code may do anything to the rest of the state between two calls.
\<close>

inductive arp_reach :: "'w linkoutput \<Rightarrow> memp_desc \<Rightarrow> 'w link_state \<Rightarrow> bool" for lo d where
  arp_start: "wf_desc d \<Longrightarrow> md_num d = 30 \<Longrightarrow> mp_stats pool = stats_mem_zero \<Longrightarrow> arp_queue s = memp_init_pool d pool \<Longrightarrow>
    arp_table s = replicate ARP_TABLE_SIZE entry_clear \<Longrightarrow> q_ents s = Map.empty \<Longrightarrow> etharp_cached_entry s = 0 \<Longrightarrow>
    netifs s NULL = None \<Longrightarrow> arp_reach lo d s"
| arp_tick: "arp_reach lo d s \<Longrightarrow> etharp_tmr lo s = Some s' \<Longrightarrow> arp_reach lo d s'"
| arp_learn: "arp_reach lo d s \<Longrightarrow> etharp_update_arp_entry lo netif ip mac flags s = Some (r, s') \<Longrightarrow> arp_reach lo d s'"
| arp_query: "arp_reach lo d s \<Longrightarrow> etharp_query lo netif ip q s = Some (r, s') \<Longrightarrow> arp_reach lo d s'"
| arp_output: "arp_reach lo d s \<Longrightarrow> etharp_output lo netif q ip s = Some (r, s') \<Longrightarrow> arp_reach lo d s'"
| arp_cleanup: "arp_reach lo d s \<Longrightarrow> etharp_cleanup_netif netif s = Some s' \<Longrightarrow> arp_reach lo d s'"
| arp_other: "arp_reach lo d s \<Longrightarrow> arp_table s' = arp_table s \<Longrightarrow> arp_queue s' = arp_queue s \<Longrightarrow> q_ents s' = q_ents s \<Longrightarrow>
    etharp_cached_entry s' = etharp_cached_entry s \<Longrightarrow> netifs s' NULL = None \<Longrightarrow> arp_reach lo d s'"

lemma arp_reach_ok: "arp_reach lo d s \<Longrightarrow> \<exists>Q. arp_inv d s Q"
proof (induction rule: arp_reach.induct)
  case (arp_start pool s)
  have e: "elems_of (\<lambda>_. []) = {}" by (simp add: elems_of_def)
  have "pool_inv d (arp_queue s) {}" using memp_init_pool_inv [OF arp_start(1,3)] arp_start(4) by simp
  then have "arp_inv d s (\<lambda>_. [])"
    using arp_start by (simp add: arp_inv_def queues_ok_def table_ok_def e entry_clear_def)
  then show ?case by blast
next
  case (arp_tick s s')
  then show ?case using tmr_loop_inv by (auto simp: etharp_tmr_def)
next
  case (arp_learn s netif ip mac flags r s')
  then show ?case using update_arp_inv by blast
next
  case (arp_query s netif ip q r s')
  then show ?case using query_inv by blast
next
  case (arp_output s netif q ip r s')
  then show ?case using output_inv by blast
next
  case (arp_cleanup s netif s')
  then show ?case using cleanup_loop_inv [of d s _ "[0..<10]" netif s'] by (auto simp: etharp_cleanup_netif_def)
next
  case (arp_other s s')
  then show ?case by (auto simp: arp_inv_def queues_ok_def)
qed

section \<open>Ageing\<close>

text \<open>What one call of \<open>etharp_tmr\<close> does to an entry.\<close>

definition arp_aged :: "etharp_entry \<Rightarrow> etharp_entry" where
  "arp_aged e =
     (if is_empty e then e
      else if ae_ctime e + 1 \<ge> ARP_MAXAGE \<or> ae_state e = ETHARP_STATE_PENDING \<and> ae_ctime e + 1 \<ge> ARP_MAXPENDING then entry_clear
      else e\<lparr>ae_ctime := ae_ctime e + 1,
             ae_state := (if ae_state e = ETHARP_STATE_STABLE_REREQUESTING_1 then ETHARP_STATE_STABLE_REREQUESTING_2
                          else if ae_state e = ETHARP_STATE_STABLE_REREQUESTING_2 then ETHARP_STATE_STABLE else ae_state e)\<rparr>)"

lemma tmr_entry_table:
  assumes inv: "arp_inv d s Q" and i: "i < 10" and u: "tmr_entry lo i s = Some s'"
  shows "arp_table s' = (arp_table s)[i := arp_aged (arp_table s ! i)]"
proof (cases "is_empty (arp_table s ! i)")
  case True
  then show ?thesis using u by (simp add: tmr_entry_def arp_aged_def)
next
  case False
  let ?e = "(arp_table s ! i)\<lparr>ae_ctime := ae_ctime (arp_table s ! i) + 1\<rparr>" and ?s = "upd_entry i (\<lambda>e. e\<lparr>ae_ctime := ae_ctime e + 1\<rparr>) s"
  have t: "length (arp_table s) = 10" and q: "queues_ok d s Q" using inv by (simp_all add: arp_inv_def table_ok_def)
  have q1: "queues_ok d ?s Q" using queues_ok_upd [OF q i t, of ?e] queues_okD(3) [OF q i] by (auto simp: upd_entry_def)
  show ?thesis
  proof (cases "ae_ctime ?e \<ge> ARP_MAXAGE \<or> ae_state ?e = ETHARP_STATE_PENDING \<and> ae_ctime ?e \<ge> ARP_MAXPENDING")
    case True
    then have "etharp_free_entry i ?s = Some s'" using u False i t by (simp add: tmr_entry_def Let_def)
    then show ?thesis using free_entry_eq [OF q1 i] t True False by (auto simp: arp_aged_def)
  next
    case young: False
    note young' = young [simplified]
    have "arp_table s' = (arp_table s)[i := ?e\<lparr>ae_state := ae_state (arp_aged (arp_table s ! i))\<rparr>]"
    proof (cases "ae_state (arp_table s ! i) = ETHARP_STATE_PENDING")
      case True
      then obtain r where "etharp_request lo (ae_netif ?e) (ae_ipaddr ?e) ?s = Some (r, s')"
        using u False young' i t by (auto simp: tmr_entry_def Let_def)
      from etharp_request_same(2) [OF this] have "arp_table s' = arp_table ?s" by (simp add: same_arp_def)
      then show ?thesis using True young' by (cases "arp_table s ! i") (simp add: arp_aged_def)
    next
      case np: False
      then show ?thesis using u False young' i t
        by (cases "ae_state (arp_table s ! i)"; cases "arp_table s ! i") (auto simp: tmr_entry_def Let_def arp_aged_def)
    qed
    moreover have "?e\<lparr>ae_state := ae_state (arp_aged (arp_table s ! i))\<rparr> = arp_aged (arp_table s ! i)"
      using False young' by (auto simp: arp_aged_def)
    ultimately show ?thesis by simp
  qed
qed

lemma tmr_loop_table:
  "arp_inv d s Q \<Longrightarrow> tmr_loop lo i s = Some s' \<Longrightarrow> arp_table s' = take i (arp_table s) @ map arp_aged (drop i (arp_table s))"
proof (induction lo i s arbitrary: Q rule: tmr_loop.induct)
  case (1 lo i s)
  have t: "length (arp_table s) = 10" using "1.prems"(1) by (simp add: arp_inv_def table_ok_def)
  show ?case
  proof (cases "i < 10")
    case True
    then obtain s1 where s1: "tmr_entry lo i s = Some s1" "tmr_loop lo (i + 1) s1 = Some s'"
      using "1.prems"(2) by (subst (asm) tmr_loop.simps) (auto split: Option.bind_splits)
    obtain Q1 where "arp_inv d s1 Q1" using tmr_entry_inv [OF "1.prems"(1) True s1(1)] by blast
    then have "arp_table s' = take (i + 1) (arp_table s1) @ map arp_aged (drop (i + 1) (arp_table s1))"
      using "1.IH" [OF _ s1(1) _ s1(2)] True by simp
    then show ?thesis using tmr_entry_table [OF "1.prems"(1) True s1(1)] True t
      by (simp add: take_Suc_conv_app_nth Cons_nth_drop_Suc [symmetric])
  next
    case False
    then show ?thesis using "1.prems"(2) t by (simp add: tmr_loop.simps [of lo i s])
  qed
qed

fun tmr_n :: "nat \<Rightarrow> 'w linkoutput \<Rightarrow> 'w link_state \<Rightarrow> 'w link_state option" where
  "tmr_n 0 lo s = Some s"
| "tmr_n (Suc n) lo s = do { s \<leftarrow> etharp_tmr lo s; tmr_n n lo s }"

lemma tmr_n_table:
  "arp_inv d s Q \<Longrightarrow> tmr_n n lo s = Some s' \<Longrightarrow> (\<exists>Q'. arp_inv d s' Q') \<and> arp_table s' = map (arp_aged ^^ n) (arp_table s)"
proof (induction n arbitrary: s Q)
  case (Suc n)
  then obtain s1 where s1: "etharp_tmr lo s = Some s1" "tmr_n n lo s1 = Some s'" by (auto split: Option.bind_splits)
  obtain Q1 where Q1: "arp_inv d s1 Q1" using tmr_loop_inv [OF Suc.prems(1) s1(1) [unfolded etharp_tmr_def]] by blast
  have "arp_table s1 = map arp_aged (arp_table s)" using tmr_loop_table [OF Suc.prems(1)] s1(1) by (simp add: etharp_tmr_def)
  then show ?case using Suc.IH [OF Q1 s1(2)] by (simp add: funpow_swap1 del: funpow.simps(2)) (simp add: funpow_swap1)
qed auto

lemma aged_empty: "is_empty e \<Longrightarrow> (arp_aged ^^ n) e = e"
  by (induction n) (simp_all add: arp_aged_def)

text \<open>An entry that is not refreshed has the age that has passed, until it is dropped.\<close>

lemma aged_ctime:
  assumes "unat (ae_ctime e) < 300"
  shows "is_empty ((arp_aged ^^ n) e) \<or> unat (ae_ctime ((arp_aged ^^ n) e)) = unat (ae_ctime e) + n \<and> unat (ae_ctime e) + n < 300 \<and>
    (ae_state e = ETHARP_STATE_PENDING \<longrightarrow> ae_state ((arp_aged ^^ n) e) = ETHARP_STATE_PENDING \<and> (n = 0 \<or> unat (ae_ctime e) + n < 5))"
proof (induction n)
  case (Suc n)
  define f where "f = (arp_aged ^^ n) e"
  have g: "(arp_aged ^^ Suc n) e = arp_aged f" by (simp add: f_def)
  show ?case
  proof (cases "is_empty f")
    case True
    then show ?thesis unfolding g by (simp add: arp_aged_def [of f])
  next
    case False
    then have ih: "unat (ae_ctime f) = unat (ae_ctime e) + n" "unat (ae_ctime e) + n < 300"
      "ae_state e = ETHARP_STATE_PENDING \<longrightarrow> ae_state f = ETHARP_STATE_PENDING" using Suc.IH by (auto simp: f_def)
    have u: "unat (ae_ctime f + 1) = unat (ae_ctime e) + n + 1" using ih by (subst unat_add_no_wrap) simp_all
    have ge: "ARP_MAXAGE \<le> ae_ctime f + 1 \<longleftrightarrow> 300 \<le> unat (ae_ctime e) + n + 1" "ARP_MAXPENDING \<le> ae_ctime f + 1 \<longleftrightarrow> 5 \<le> unat (ae_ctime e) + n + 1"
      using u by (simp_all add: word_le_nat_alt const_defs)
    show ?thesis unfolding g using False u ge ih(3) by (auto simp: arp_aged_def [of f] entry_clear_def)
  qed
qed (use assms in auto)

section \<open>Requests over a driver\<close>

text \<open>The 28 bytes of an ARP packet.\<close>

definition arp_packet :: "u16 \<Rightarrow> eth_addr \<Rightarrow> u32 \<Rightarrow> eth_addr \<Rightarrow> u32 \<Rightarrow> u8 list" where
  "arp_packet opcode hwsrc ipsrc hwdst ipdst =
     be16 1 @ be16 ETHTYPE_IP @ [6, 4] @ be16 opcode @ hwsrc @ addr_bytes ipsrc @ hwdst @ addr_bytes ipdst"

lemma length_addr_bytes [simp]: "length (addr_bytes a) = 4"
  by (simp add: addr_bytes_def)

lemma write_read:
  assumes "length cs = n"
  shows "map (write_str a cs m) [a..<a + n] = cs"
  using assms write_str_same by blast

lemma etharp_hdr_put_out:
  "x < h \<or> h + 28 \<le> x \<Longrightarrow> length hs = 6 \<Longrightarrow> length ht = 6 \<Longrightarrow> etharp_hdr_put h op hs ips ht ipd m x = m x"
  by (auto simp: etharp_hdr_put_def Let_def write_str_out)

lemma etharp_hdr_put_read:
  assumes "length hs = 6" and "length ht = 6"
  shows "map (etharp_hdr_put h op hs ips ht ipd m) [h..<h + 28] = arp_packet op hs ips ht ipd"
proof -
  let ?m1 = "write_str (h + 6) (be16 op) m"
  let ?m2 = "write_str (h + 8) hs ?m1"
  let ?m3 = "write_str (h + 18) ht ?m2"
  let ?m4 = "write_str (h + 14) (addr_bytes ips) ?m3"
  let ?m5 = "write_str (h + 24) (addr_bytes ipd) ?m4"
  let ?m6 = "write_str h (be16 1) ?m5"
  let ?m7 = "write_str (h + 2) (be16 ETHTYPE_IP) ?m6"
  let ?m8 = "write_str (h + 4) [6, 4] ?m7"
  note W = write_str_same' and O = write_str_other
  have "map ?m8 [h..<h + 2] = map ?m7 [h..<h + 2]" by (rule O) simp
  also have "\<dots> = map ?m6 [h..<h + 2]" by (rule O) simp
  also have "\<dots> = be16 1" by (rule W) simp
  finally have "map ?m8 [h..<h + 2] = be16 1" .
  moreover have "map ?m8 [h + 2..<h + 4] = be16 ETHTYPE_IP" by (subst O, simp, subst W, simp_all)
  moreover have "map ?m8 [h + 4..<h + 6] = [6, 4]" by (subst W) simp_all
  moreover have "map ?m8 [h + 6..<h + 8] = be16 op" by (subst O, (simp; fail))+ (subst W, simp_all)
  moreover have "map ?m8 [h + 8..<h + 14] = hs" by (subst O, (simp add: assms; fail))+ (subst W, simp_all add: assms)
  moreover have "map ?m8 [h + 14..<h + 18] = addr_bytes ips" by (subst O, (simp add: assms; fail))+ (subst W, simp_all)
  moreover have "map ?m8 [h + 18..<h + 24] = ht" by (subst O, (simp add: assms; fail))+ (subst W, simp_all add: assms)
  moreover have "map ?m8 [h + 24..<h + 28] = addr_bytes ipd" by (subst O, (simp; fail))+ (subst W, simp_all)
  moreover have "[h..<h + 28] = [h..<h + 2] @ [h + 2..<h + 4] @ [h + 4..<h + 6] @ [h + 6..<h + 8] @ [h + 8..<h + 14] @ [h + 14..<h + 18] @ [h + 18..<h + 24] @ [h + 24..<h + 28]"
    using upt_split_at [of h "h + 2" "h + 28"] upt_split_at [of "h + 2" "h + 4" "h + 28"] upt_split_at [of "h + 4" "h + 6" "h + 28"]
      upt_split_at [of "h + 6" "h + 8" "h + 28"] upt_split_at [of "h + 8" "h + 14" "h + 28"] upt_split_at [of "h + 14" "h + 18" "h + 28"]
      upt_split_at [of "h + 18" "h + 24" "h + 28"] by simp
  ultimately show ?thesis unfolding etharp_hdr_put_def Let_def le16_htons arp_packet_def by (simp only: map_append)
qed

text \<open>The heap lies outside the memory of the driver.\<close>

definition heap_apart :: "addr set \<Rightarrow> pb_state \<Rightarrow> bool" where
  "heap_apart D b \<longleftrightarrow> ram (pb_heap b) + ram_end < 2 ^ 32 \<and> {ram (pb_heap b)..<ram (pb_heap b) + ram_end} \<inter> D = {}"

lemma alloc_ram_ram:
  assumes inv: "pb_inv dR dP b" and a: "pbuf_alloc layer n PBUF_RAM b = Some (p, b')"
  shows "ram (pb_heap b') = ram (pb_heap b)"
proof -
  let ?k = "LWIP_MEM_ALIGN_SIZE (unat layer) + LWIP_MEM_ALIGN_SIZE (unat n)"
  have "LWIP_MEM_ALIGN_SIZE (unat layer) < 65540" "LWIP_MEM_ALIGN_SIZE (unat n) < 65540"
    using align_size_lt [of "unat layer"] align_size_lt [of "unat n"] unat_u16_less [of layer] unat_u16_less [of n] by linarith+
  then have k: "?k mod 2 ^ 32 = ?k" "(16 + ?k) mod 2 ^ 32 = 16 + ?k" "16 + ?k < 2 ^ 32" by simp_all
  obtain L where L: "heap_live (pb_heap b) L" using inv by (auto simp: pb_inv_def heap_part_def)
  obtain q h where m: "mem_malloc [] (16 + ?k) (pb_heap b) = Some (q, h)" using mem.malloc_returns [OF L k(3)] by blast
  have "pb_heap b' = h" using a m k by (auto simp: pbuf_alloc_def pbuf_alloc_ram_def Let_def init_alloced_eq split: if_splits)
  then show ?thesis using mem_malloc_ram [OF L k(3) m] by simp
qed

text \<open>Releasing a pbuf from the heap that nobody else refers to.\<close>

lemma free_ram_ok:
  assumes inv: "pb_inv dR dP b" and c: "pbufs b p = Some c" "pb_ref c = 1" "pb_next c = NULL" "src_of c = 0"
  shows "\<exists>k b'. pbuf_free p b = Some (k, b') \<and> pb_inv dR dP b' \<and> pbufs b' = (pbufs b)(p := None) \<and> bytes b' = bytes b \<and> ram (pb_heap b') = ram (pb_heap b)"
proof -
  have pn: "p \<noteq> NULL" using inv c(1) by (cases "p = NULL") (auto simp: pb_inv_def layout_def)
  have sc: "src_ok c" "\<not> is_custom c" "pbuf_get_allocsrc c = 0" using c(4) by (auto simp: src_of_def src_ok_def split: if_splits)
  have l: "linked (nexts b) p [p]" using c pn by simp
  have so: "\<forall>q \<in> set [p]. src_ok (pb b q)" using c(1) sc by simp
  obtain b' where b': "pbuf_free p b = Some (of_nat (length (freed b [p])), b')" "pb_inv dR dP b'" "pbufs b' = free_store (pbufs b) [p]" "bytes b' = bytes b"
    using pbuf_free_ok [OF inv l so] by blast
  let ?c = "c\<lparr>pb_ref := 0\<rparr>"
  have "pbuf_free p b = Some (1, pbuf_dealloc p ?c (putp p ?c b))"
    using pn c by (simp add: pbuf_free_def getp_def pbuf_free_loop.simps [of p] pbuf_free_loop.simps [of NULL] Let_def)
  moreover have "pb_heap (pbuf_dealloc p ?c (putp p ?c b)) = mem_free p (pb_heap b)"
    using sc by (simp add: pbuf_dealloc_def Let_def is_custom_def pbuf_get_allocsrc_def)
  ultimately have h: "pb_heap b' = mem_free p (pb_heap b)" using b'(1) by simp
  obtain L where L: "heap_live (pb_heap b) L" "srcs 0 b \<subseteq> fst ` L" using inv by (auto simp: pb_inv_def heap_part_def)
  have "p \<in> srcs 0 b" using c by (auto simp: srcs_def)
  then obtain n where "(p, n) \<in> L" using L(2) by force
  then show ?thesis using b' h mem_free_ram [OF L(1)] c by simp
qed

context link_driver
begin

text \<open>
  \<open>etharp_raw\<close> returns, and the pbufs are as before. A request that could be allocated goes to the driver as
  RFC 826 has it.
\<close>

lemma etharp_raw_ok:
  assumes inv: "pb_inv dR dP (pbm s)" and D: "heap_apart D (pbm s)" and rdy: "ready (wire s)"
    and mac: "length ethsrc = 6" "length ethdst = 6" "length hwsrc = 6" "length hwdst = 6"
  shows "\<exists>r s'. etharp_raw lo netif ethsrc ethdst hwsrc ipsrc hwdst ipdst opcode s = Some (r, s') \<and> pb_inv dR dP (pbm s') \<and> heap_apart D (pbm s') \<and>
    ready (wire s') \<and> pbufs (pbm s') = pbufs (pbm s) \<and> (\<forall>a. settled (pbm s) a \<and> a \<notin> D \<longrightarrow> bytes (pbm s') a = bytes (pbm s) a) \<and>
    (if r = ERR_OK then good (wire s) \<longrightarrow> last_frame (bytes (pbm s')) (wire s') =
       eth_padded ((if ip4_addr_islinklocal ipsrc then ethbroadcast else ethdst) @ ethsrc @ be16 ETHTYPE_ARP @ arp_packet opcode hwsrc ipsrc hwdst ipdst)
     else r = ERR_MEM \<and> wire s' = wire s)"
proof -
  have sz: "LWIP_MEM_ALIGN_SIZE (unat PBUF_LINK) = 16" "unat SIZEOF_ETHARP_HDR = 28" by (simp_all add: const_defs LWIP_MEM_ALIGN_SIZE_def)
  obtain p b where al: "pbuf_alloc PBUF_LINK SIZEOF_ETHARP_HDR PBUF_RAM (pbm s) = Some (p, b)" "pb_inv dR dP b" "bytes b = bytes (pbm s)"
    "if p = NULL then pbufs b = pbufs (pbm s)
     else p \<notin> dom (pbufs (pbm s)) \<and> pbufs b = (pbufs (pbm s))(p \<mapsto> new_pbuf (p + 16 + 16) SIZEOF_ETHARP_HDR SIZEOF_ETHARP_HDR PBUF_RAM 0) \<and>
       ram (pb_heap (pbm s)) \<le> p \<and> p + 16 + 16 + 28 \<le> ram (pb_heap (pbm s)) + ram_end \<and>
       (\<forall>L q m. heap_live (pb_heap (pbm s)) L \<and> (q, m) \<in> L \<longrightarrow> p + 16 + 16 + 28 \<le> q \<or> q + m \<le> p)"
    using pbuf_alloc_ram_ok [OF inv, of PBUF_LINK SIZEOF_ETHARP_HDR, unfolded sz] by blast
  have rm: "ram (pb_heap b) = ram (pb_heap (pbm s))" by (rule alloc_ram_ram [OF inv al(1)])
  show ?thesis
  proof (cases "p = NULL")
    case True
    then have "etharp_raw lo netif ethsrc ethdst hwsrc ipsrc hwdst ipdst opcode s = Some (ERR_MEM, ETHARP_STATS_INC sp_memerr_update (s\<lparr>pbm := b\<rparr>))"
      using al(1) by (simp add: etharp_raw_def)
    then show ?thesis using True al D rdy rm by (simp add: ETHARP_STATS_INC_def heap_apart_def)
  next
    case False
    let ?c = "new_pbuf (p + 32) 28 28 PBUF_RAM 0"
    have new: "p \<notin> dom (pbufs (pbm s))" "pbufs b = (pbufs (pbm s))(p \<mapsto> ?c)"
      and place: "ram (pb_heap (pbm s)) \<le> p" "p + 60 \<le> ram (pb_heap (pbm s)) + ram_end"
      and fresh: "\<And>L q m. heap_live (pb_heap (pbm s)) L \<Longrightarrow> (q, m) \<in> L \<Longrightarrow> p + 60 \<le> q \<or> q + m \<le> p" using al(4) False by (simp_all add: SIZEOF_ETHARP_HDR_def add.assoc)
    define m where "m = etharp_hdr_put (p + 32) opcode hwsrc ipsrc hwdst ipdst (bytes b)"
    let ?s = "s\<lparr>pbm := b\<lparr>bytes := m\<rparr>\<rparr>" and ?dst = "if ip4_addr_islinklocal ipsrc then ethbroadcast else ethdst"
    have c: "getp p (pbm ?s) = Some ?c" using new False by (simp add: getp_def)
    have cb: "getp p b = Some ?c" using new False by (simp add: getp_def)
    have pk: "packet (pbm ?s) p [p]" using new False by (simp add: packet_def tlen_def blen_def)
    have "blen (pbufs (pbm ?s)) p = 28" using new by (simp add: blen_def)
    then have "cells (pbufs (pbm ?s)) [p] = [p + 32..<p + 32 + 28]" using new unfolding cells_simps by simp
    then have cel: "cells (pbufs (pbm ?s)) [p] = [p + 32..<p + 60]" by (simp add: add.commute)
    have pd: "pdata (pbm ?s) [p] = arp_packet opcode hwsrc ipsrc hwdst ipdst"
      unfolding pdata_def cel using etharp_hdr_put_read [OF mac(3,4), of "p + 32"] by (simp add: m_def add.commute)
    have D0: "{p..<p + 60} \<inter> D = {}"
      using D place subset_trans [of "{p..<p + 60}" "{ram (pb_heap (pbm s))..<ram (pb_heap (pbm s)) + ram_end}"] unfolding heap_apart_def
      by (meson disjoint_iff atLeastLessThan_iff le_trans less_le_trans)
    have "\<exists>e m' w'. ethernet_output lo netif p ethsrc ?dst ETHTYPE_ARP ?s =
        Some (e, ?s\<lparr>pbm := (putp p (?c\<lparr>pb_payload := pb_payload ?c - 16, pb_len := pb_len ?c + 16, pb_tot_len := pb_tot_len ?c + 16\<rparr>) (pbm ?s))\<lparr>bytes := m'\<rparr>, wire := w'\<rparr>) \<and>
        ready w' \<and> (\<forall>a. a \<notin> D \<and> a \<notin> {pb_payload ?c - 16..<pb_payload ?c} \<longrightarrow> m' a = bytes (pbm ?s) a) \<and>
        (good (wire ?s) \<longrightarrow> e = ERR_OK \<and> last_frame m' w' = eth_padded (?dst @ ethsrc @ be16 ETHTYPE_ARP @ pdata (pbm ?s) [p]))"
    proof (rule ethernet_output_ok [OF pk c])
      show "unat (pb_tot_len ?c) + 16 \<le> 1536" "p + 32 \<le> pb_payload ?c" "pb_ref ?c \<noteq> 0" by simp_all
      show "pb_type_internal ?c AND PBUF_TYPE_FLAG_STRUCT_DATA_CONTIGUOUS \<noteq> 0" by (simp add: new_pbuf_def pbuf_type_bits_def const_defs)
      show "pb_payload ?c < 2 ^ 32" using D place by (simp add: heap_apart_def)
      have "set [p + 32..<p + 60] \<union> {pb_payload ?c - 16..<pb_payload ?c} \<subseteq> {p..<p + 60}" by auto
      then show "(set (cells (pbufs (pbm ?s)) [p]) \<union> {pb_payload ?c - 16..<pb_payload ?c}) \<inter> D = {}" unfolding cel using D0 by blast
      show "set (cells (pbufs (pbm ?s)) [p]) \<inter> {pb_payload ?c - 16..<pb_payload ?c} = {}" unfolding cel by auto
    qed (use mac rdy in \<open>simp_all add: ethbroadcast_def\<close>)
    then obtain e m' w' where eo: "ethernet_output lo netif p ethsrc ?dst ETHTYPE_ARP ?s =
        Some (e, ?s\<lparr>pbm := (putp p (?c\<lparr>pb_payload := pb_payload ?c - 16, pb_len := pb_len ?c + 16, pb_tot_len := pb_tot_len ?c + 16\<rparr>) (pbm ?s))\<lparr>bytes := m'\<rparr>, wire := w'\<rparr>)"
        "ready w'" "\<forall>a. a \<notin> D \<and> a \<notin> {pb_payload ?c - 16..<pb_payload ?c} \<longrightarrow> m' a = bytes (pbm ?s) a"
        "good (wire ?s) \<longrightarrow> e = ERR_OK \<and> last_frame m' w' = eth_padded (?dst @ ethsrc @ be16 ETHTYPE_ARP @ pdata (pbm ?s) [p])"
      by (elim exE conjE) (rule that)
    let ?c' = "?c\<lparr>pb_payload := pb_payload ?c - 16, pb_len := pb_len ?c + 16, pb_tot_len := pb_tot_len ?c + 16\<rparr>"
    let ?b = "(putp p ?c' (b\<lparr>bytes := m\<rparr>))\<lparr>bytes := m'\<rparr>"
    have sc: "src_of ?c' = src_of ?c" by (rule src_of_cong) simp_all
    have "pb_inv dR dP (b\<lparr>bytes := m\<rparr>)" using al(2) pb_inv_cong [of "b\<lparr>bytes := m\<rparr>" b] by simp
    then have "pb_inv dR dP (putp p ?c' (b\<lparr>bytes := m\<rparr>))" by (rule putp_inv [where b = ?c]) (use new sc in simp_all)
    then have "pb_inv dR dP ?b" using pb_inv_cong [of ?b "putp p ?c' (b\<lparr>bytes := m\<rparr>)"] by simp
    from free_ram_ok [OF this, of p ?c'] sc obtain k b' where fr: "pbuf_free p ?b = Some (k, b')" "pb_inv dR dP b'"
      "pbufs b' = (pbufs ?b)(p := None)" "bytes b' = m'" "ram (pb_heap b') = ram (pb_heap b)" by auto
    let ?s' = "(ETHARP_STATS_INC sp_xmit_update (?s\<lparr>pbm := ?b, wire := w'\<rparr>))\<lparr>pbm := b'\<rparr>"
    have run: "etharp_raw lo netif ethsrc ethdst hwsrc ipsrc hwdst ipdst opcode s = Some (ERR_OK, ?s')"
      using al(1) cb False eo(1) fr(1) by (auto simp: etharp_raw_def Let_def m_def [symmetric] ETHARP_STATS_INC_def split: if_splits intro!: link_state.equality)
    have same: "pbufs b' = pbufs (pbm s)" using fr(3) new by (auto simp: fun_eq_iff domIff)
    have keep: "m' a = bytes (pbm s) a" if "settled (pbm s) a" "a \<notin> D" for a
    proof -
      have "a < p \<or> p + 60 \<le> a"
        using that(1) place fresh unfolding settled_def in_heap_def by fastforce
      then show ?thesis using eo(3) that(2) al(3) mac by (auto simp: m_def etharp_hdr_put_out)
    qed
    show ?thesis using run same keep fr(2,4,5) rm D eo(2) eo(4) [unfolded pd]
      by (intro exI [of _ ERR_OK] exI [of _ ?s']) (simp add: heap_apart_def ETHARP_STATS_INC_def)
  qed
qed

end

section \<open>The timer over a driver\<close>

lemma plug_ram: "ram (plug_holes mem s) = ram s"
  by (simp add: plug_holes_def plug_prev_def plug_next_def Let_def set_next_def set_prev_def)

lemma mem_free_ram_any: "ram (mem_free p h) = ram h"
  unfolding mem_free_def Let_def
  by (simp add: plug_ram stats_inc_illegal_def stats_dec_used_def set_used_def)

lemma pbuf_free_loop_ram:
  assumes "pbuf_free_loop p c b = Some y"
  shows "ram (pb_heap (snd y)) = ram (pb_heap b)"
proof (rule pbuf_free_loop.raw_induct [of "\<lambda>p c b y. ram (pb_heap (snd y)) = ram (pb_heap b)", OF _ assms])
  have de: "ram (pb_heap (pbuf_dealloc p e s)) = ram (pb_heap s)" for p e s by (simp add: pbuf_dealloc_def Let_def mem_free_ram_any)
  show "ram (pb_heap (snd y)) = ram (pb_heap b)"
    if ih: "\<And>p c b y. loop p c b = Some y \<Longrightarrow> ram (pb_heap (snd y)) = ram (pb_heap b)"
      and run: "(if p = NULL then Some (c, b) else do { e \<leftarrow> getp p b; let e' = e\<lparr>pb_ref := pb_ref e - 1\<rparr>; let s = putp p e' b;
          if pb_ref e' = 0 then loop (pb_next e') (c + 1) (pbuf_dealloc p e' s) else Some (c, s) }) = Some y" for loop p c b y
  proof (cases "p = NULL")
    case False
    then obtain e where e: "getp p b = Some e" using run by (cases "getp p b") auto
    let ?e = "e\<lparr>pb_ref := pb_ref e - 1\<rparr>"
    show ?thesis
    proof (cases "pb_ref ?e = 0")
      case True
      then have "loop (pb_next ?e) (c + 1) (pbuf_dealloc p ?e (putp p ?e b)) = Some y" using run False e by (simp add: Let_def)
      then show ?thesis using ih de by simp
    qed (use run False e in auto)
  qed (use run in auto)
qed

lemma pbuf_free_ram: "pbuf_free p b = Some (k, b') \<Longrightarrow> ram (pb_heap b') = ram (pb_heap b)"
  by (auto simp: pbuf_free_def dest!: pbuf_free_loop_ram split: if_splits)

text \<open>The packets in \<open>P\<close> are chains \<open>C\<close> that do not share a pbuf.\<close>

definition chains_ok :: "pb_state \<Rightarrow> (addr \<Rightarrow> addr list) \<Rightarrow> addr set \<Rightarrow> bool" where
  "chains_ok b C P \<longleftrightarrow> (\<forall>p \<in> P. linked (nexts b) p (C p) \<and> (\<forall>q \<in> set (C p). src_ok (pb b q)) \<and>
     (\<forall>p' \<in> P. p \<noteq> p' \<longrightarrow> set (C p) \<inter> set (C p') = {}))"

lemma chains_ok_mono: "chains_ok b C P \<Longrightarrow> P' \<subseteq> P \<Longrightarrow> chains_ok b C P'"
  unfolding chains_ok_def by blast

lemma chains_ok_cong: "pbufs b' = pbufs b \<Longrightarrow> chains_ok b' C P = chains_ok b C P"
  by (simp add: chains_ok_def)

lemma free_all_ok:
  assumes "pb_inv dR dP b" and "chains_ok b C (set ps \<union> P)" and "distinct ps" and "set ps \<inter> P = {}"
  shows "\<exists>b'. free_all ps b = Some b' \<and> pb_inv dR dP b' \<and> chains_ok b' C P \<and> ram (pb_heap b') = ram (pb_heap b)"
  using assms
proof (induction ps arbitrary: b)
  case (Cons p ps)
  have p: "linked (nexts b) p (C p)" "\<forall>q \<in> set (C p). src_ok (pb b q)" using Cons.prems(2) by (auto simp: chains_ok_def)
  from pbuf_free_ok [OF Cons.prems(1) p] obtain k b1 where b1: "pbuf_free p b = Some (k, b1)" "pb_inv dR dP b1" "pbufs b1 = free_store (pbufs b) (C p)" by blast
  have same: "pbufs b1 q = pbufs b q" if "p' \<in> set ps \<union> P" "q \<in> set (C p')" for p' q
  proof -
    have "p' \<noteq> p" "p' \<in> set (p # ps) \<union> P" "p \<in> set (p # ps) \<union> P" using that(1) Cons.prems(3,4) by auto
    then have "set (C p) \<inter> set (C p') = {}" using Cons.prems(2) unfolding chains_ok_def by blast
    then show ?thesis unfolding b1(3) using that(2) by (intro free_store_other) blast
  qed
  have "linked (nexts b1) p' (C p') \<and> (\<forall>q \<in> set (C p'). src_ok (pb b1 q))" if "p' \<in> set ps \<union> P" for p'
  proof -
    have "linked (nexts b) p' (C p')" "\<forall>q \<in> set (C p'). src_ok (pb b q)" using Cons.prems(2) that by (auto simp: chains_ok_def)
    then show ?thesis using same [OF that] linked_cong [of "C p'" "nexts b1" "nexts b" p'] by simp
  qed
  then have "chains_ok b1 C (set ps \<union> P)" using Cons.prems(2) unfolding chains_ok_def by auto
  then show ?case using Cons.IH [OF b1(2)] Cons.prems(3,4) b1(1) pbuf_free_ram [OF b1(1)] by auto
qed simp

text \<open>
  A state in which the timer can run: the invariants hold, the driver is in order, no pbuf is part of two waiting packets, and the
  interfaces of the entries in use exist.
\<close>

definition all_waiting :: "'w link_state \<Rightarrow> (nat \<Rightarrow> addr list) \<Rightarrow> addr set" where
  "all_waiting s Q = (\<Union>i<10. set (waiting s Q i))"

definition arp_live :: "addr set \<Rightarrow> ('w \<Rightarrow> bool) \<Rightarrow> memp_desc \<Rightarrow> memp_desc \<Rightarrow> memp_desc \<Rightarrow> 'w link_state \<Rightarrow> (nat \<Rightarrow> addr list) \<Rightarrow> bool" where
  "arp_live D ready d dR dP s Q \<longleftrightarrow> arp_inv d s Q \<and> pb_inv dR dP (pbm s) \<and> heap_apart D (pbm s) \<and> ready (wire s) \<and>
     (\<exists>C. chains_ok (pbm s) C (all_waiting s Q)) \<and>
     (\<forall>i<10. distinct (waiting s Q i) \<and> (\<forall>j<10. j \<noteq> i \<longrightarrow> set (waiting s Q i) \<inter> set (waiting s Q j) = {}) \<and>
       (is_empty (arp_table s ! i) \<or> (\<exists>nif. netifs s (ae_netif (arp_table s ! i)) = Some nif \<and> length (nif_hwaddr nif) = 6)))"

lemma arp_liveD:
  assumes "arp_live D ready d dR dP s Q"
  shows "arp_inv d s Q" "pb_inv dR dP (pbm s)" "heap_apart D (pbm s)" "ready (wire s)" "length (arp_table s) = 10" "queues_ok d s Q"
  using assms by (simp_all add: arp_live_def arp_inv_def table_ok_def)

lemma aged_netif: "\<not> is_empty (arp_aged e) \<Longrightarrow> ae_netif (arp_aged e) = ae_netif e \<and> \<not> is_empty e"
  by (auto simp: arp_aged_def entry_clear_def split: if_splits)

text \<open>What of the state must be known after one entry.\<close>

lemma arp_live_step:
  assumes l: "arp_live D ready d dR dP s Q" and i: "i < 10" and u: "tmr_entry lo i s = Some s'"
    and pb: "pb_inv dR dP (pbm s')" "heap_apart D (pbm s')" "ready (wire s')"
    and ch: "\<And>Q'. (\<forall>j<10. j \<noteq> i \<longrightarrow> waiting s' Q' j = waiting s Q j) \<Longrightarrow> waiting s' Q' i \<in> {[], waiting s Q i} \<Longrightarrow> arp_inv d s' Q' \<Longrightarrow>
      \<exists>C. chains_ok (pbm s') C (all_waiting s' Q')"
  shows "\<exists>Q'. arp_live D ready d dR dP s' Q'"
proof -
  from tmr_entry_inv [OF arp_liveD(1) [OF l] i u] obtain Q' where Q': "arp_inv d s' Q'" "netifs s' = netifs s"
    "\<forall>j<10. j \<noteq> i \<longrightarrow> waiting s' Q' j = waiting s Q j" "waiting s' Q' i \<in> {[], waiting s Q i}" by blast
  have w: "waiting s' Q' j \<in> {[], waiting s Q j}" if "j < 10" for j using Q'(3,4) that by (cases "j = i") auto
  have t: "arp_table s' = (arp_table s)[i := arp_aged (arp_table s ! i)]" by (rule tmr_entry_table [OF arp_liveD(1) [OF l] i u])
  have "distinct (waiting s' Q' j)" if "j < 10" for j using w [OF that] l that by (auto simp: arp_live_def)
  moreover have "set (waiting s' Q' j) \<inter> set (waiting s' Q' k) = {}" if "j < 10" "k < 10" "k \<noteq> j" for j k
    using w [OF that(1)] w [OF that(2)] l that unfolding arp_live_def by fastforce
  moreover have "is_empty (arp_table s' ! j) \<or> (\<exists>nif. netifs s' (ae_netif (arp_table s' ! j)) = Some nif \<and> length (nif_hwaddr nif) = 6)" if j: "j < 10" for j
  proof -
    have "is_empty (arp_table s ! j) \<or> (\<exists>nif. netifs s (ae_netif (arp_table s ! j)) = Some nif \<and> length (nif_hwaddr nif) = 6)"
      using l j by (simp add: arp_live_def)
    then show ?thesis unfolding t Q'(2) using j i aged_netif [of "arp_table s ! i"] arp_liveD(5) [OF l] by (cases "j = i") auto
  qed
  ultimately show ?thesis using Q'(1) pb ch [OF Q'(3,4,1)] unfolding arp_live_def by blast
qed

context link_driver
begin

lemma tmr_entry_live:
  assumes l: "arp_live D ready d dR dP s Q" and i: "i < 10"
  shows "\<exists>s' Q'. tmr_entry lo i s = Some s' \<and> arp_live D ready d dR dP s' Q'"
proof -
  note D = arp_liveD [OF l]
  obtain C where C: "chains_ok (pbm s) C (all_waiting s Q)" using l by (auto simp: arp_live_def)
  have sub: "all_waiting t Q' \<subseteq> all_waiting s Q" if "\<forall>j<10. j \<noteq> i \<longrightarrow> waiting t Q' j = waiting s Q j" "waiting t Q' i \<in> {[], waiting s Q i}" for t Q'
  proof -
    have "set (waiting t Q' j) \<subseteq> set (waiting s Q j)" if "j < 10" for j
      using \<open>\<forall>j<10. j \<noteq> i \<longrightarrow> waiting t Q' j = waiting s Q j\<close> \<open>waiting t Q' i \<in> {[], waiting s Q i}\<close> that by (cases "j = i") auto
    then show ?thesis unfolding all_waiting_def by blast
  qed
  let ?s = "upd_entry i (\<lambda>e. e\<lparr>ae_ctime := ae_ctime e + 1\<rparr>) s" and ?e = "(arp_table s ! i)\<lparr>ae_ctime := ae_ctime (arp_table s ! i) + 1\<rparr>"
  have same: ?thesis if "tmr_entry lo i s = Some s'" "pbufs (pbm s') = pbufs (pbm s)" "pb_inv dR dP (pbm s')" "heap_apart D (pbm s')" "ready (wire s')" for s'
    using arp_live_step [OF l i that(1,3-5)] chains_ok_mono [OF C sub] chains_ok_cong [OF that(2)] that(1) by blast
  consider (empty) "is_empty (arp_table s ! i)"
    | (old) "\<not> is_empty (arp_table s ! i)" "ae_ctime ?e \<ge> ARP_MAXAGE \<or> ae_state ?e = ETHARP_STATE_PENDING \<and> ae_ctime ?e \<ge> ARP_MAXPENDING"
    | (young) "\<not> is_empty (arp_table s ! i)" "\<not> (ae_ctime ?e \<ge> ARP_MAXAGE \<or> ae_state ?e = ETHARP_STATE_PENDING \<and> ae_ctime ?e \<ge> ARP_MAXPENDING)" by blast
  then show ?thesis
  proof cases
    case empty
    then show ?thesis using l by (auto simp: tmr_entry_def)
  next
    case old
    let ?P = "\<Union>j\<in>{..<10} - {i}. set (waiting s Q j)"
    have "all_waiting s Q = set (waiting s Q i) \<union> ?P" using i by (auto simp: all_waiting_def)
    moreover have "set (waiting s Q i) \<inter> ?P = {}" "distinct (waiting s Q i)" using l i unfolding arp_live_def by blast+
    ultimately obtain b where b: "free_all (waiting s Q i) (pbm s) = Some b" "pb_inv dR dP b" "chains_ok b C ?P" "ram (pb_heap b) = ram (pb_heap (pbm s))"
      using free_all_ok [OF D(2), of C "waiting s Q i" ?P] C by auto
    have q1: "queues_ok d ?s Q" using queues_ok_upd [OF D(6) i D(5), of ?e] queues_okD(3) [OF D(6) i] by (auto simp: upd_entry_def)
    have "waiting ?s Q i = waiting s Q i" by (simp add: waiting_def)
    then obtain s' where s': "tmr_entry lo i s = Some s'" "pbm s' = b" "wire s' = wire s" "arp_table s' ! i = entry_clear"
      using free_entry_eq [OF q1 i] b(1) old i D(5) by (auto simp: tmr_entry_def Let_def)
    have "\<exists>C. chains_ok (pbm s') C (all_waiting s' Q')" if "\<forall>j<10. j \<noteq> i \<longrightarrow> waiting s' Q' j = waiting s Q j" "arp_inv d s' Q'" for Q'
    proof -
      have "Q' i = []" using that(2) queues_okD(3) [of d s' Q' i] i s'(4) by (simp add: arp_inv_def entry_clear_def)
      then have "waiting s' Q' i = []" by (simp add: waiting_def)
      then have "set (waiting s' Q' j) \<subseteq> ?P" if "j < 10" for j using \<open>\<forall>j<10. j \<noteq> i \<longrightarrow> waiting s' Q' j = waiting s Q j\<close> that by (cases "j = i") auto
      then have "all_waiting s' Q' \<subseteq> ?P" unfolding all_waiting_def by blast
      then show ?thesis using chains_ok_mono [OF b(3)] s'(2) by blast
    qed
    then show ?thesis using arp_live_step [OF l i s'(1)] s' b(2,4) D(3,4) by (auto simp: heap_apart_def)
  next
    case young
    note young' = young [simplified]
    show ?thesis
    proof (cases "ae_state (arp_table s ! i) = ETHARP_STATE_PENDING")
      case True
      obtain nif where nif: "netifs s (ae_netif (arp_table s ! i)) = Some nif" "length (nif_hwaddr nif) = 6" using l young(1) i by (auto simp: arp_live_def)
      from etharp_raw_ok [of dR dP ?s "nif_hwaddr nif" ethbroadcast "nif_hwaddr nif" ethzero "ae_netif (arp_table s ! i)" "nif_ip_addr nif" "ae_ipaddr (arp_table s ! i)" ARP_REQUEST]
      obtain r s' where "etharp_request lo (ae_netif (arp_table s ! i)) (ae_ipaddr (arp_table s ! i)) ?s = Some (r, s')" "pb_inv dR dP (pbm s')" "heap_apart D (pbm s')"
        "ready (wire s')" "pbufs (pbm s') = pbufs (pbm s)" using D nif by (auto simp: etharp_request_def etharp_request_dst_def ethbroadcast_def ethzero_def)
      then show ?thesis using same [of s'] True young' i D(5) by (simp add: tmr_entry_def Let_def)
    next
      case False
      then have "\<exists>s'. tmr_entry lo i s = Some s' \<and> pbm s' = pbm s \<and> wire s' = wire s"
        using young' i D(5) by (cases "ae_state (arp_table s ! i)") (simp_all add: tmr_entry_def Let_def)
      then show ?thesis using same D by (elim exE conjE) simp
    qed
  qed
qed

lemma tmr_loop_live: "arp_live D ready d dR dP s Q \<Longrightarrow> \<exists>s' Q'. tmr_loop lo i s = Some s' \<and> arp_live D ready d dR dP s' Q'"
proof (induction "10 - i" arbitrary: i s Q)
  case 0
  then show ?case by (auto simp: tmr_loop.simps [of lo i s])
next
  case (Suc n)
  then have i: "i < 10" "n = 10 - (i + 1)" by auto
  obtain s1 Q1 where s1: "tmr_entry lo i s = Some s1" "arp_live D ready d dR dP s1 Q1" using tmr_entry_live [OF Suc.prems i(1)] by blast
  then show ?case using Suc.hyps(1) [OF i(2) s1(2)] i(1) by (simp add: tmr_loop.simps [of lo i s])
qed

lemma tmr_n_live: "arp_live D ready d dR dP s Q \<Longrightarrow> \<exists>s' Q'. tmr_n n lo s = Some s' \<and> arp_live D ready d dR dP s' Q'"
proof (induction n arbitrary: s Q)
  case (Suc n)
  obtain s1 Q1 where "etharp_tmr lo s = Some s1" "arp_live D ready d dR dP s1 Q1" using tmr_loop_live [OF Suc.prems, of 0] by (auto simp: etharp_tmr_def)
  then show ?case using Suc.IH by auto
qed auto

text \<open>Entries that are not refreshed are gone after their time, with the packets that waited for them.\<close>

lemma expires:
  assumes l: "arp_live D ready d dR dP s Q"
  shows "\<exists>s' Q'. tmr_n n lo s = Some s' \<and> arp_live D ready d dR dP s' Q' \<and>
    (\<forall>i<10. is_empty (arp_table s' ! i) \<or> unat (ae_ctime (arp_table s' ! i)) = unat (ae_ctime (arp_table s ! i)) + n \<and> n < 300 \<and>
       (ae_state (arp_table s ! i) = ETHARP_STATE_PENDING \<longrightarrow> n < 5)) \<and>
    (300 \<le> n \<longrightarrow> q_ents s' = Map.empty \<and> pool_inv d (arp_queue s') {})"
proof -
  obtain s' Q' where s': "tmr_n n lo s = Some s'" "arp_live D ready d dR dP s' Q'" using tmr_n_live [OF l] by blast
  have t: "arp_table s' = map (arp_aged ^^ n) (arp_table s)" using tmr_n_table [OF arp_liveD(1) [OF l] s'(1)] by blast
  have e: "is_empty (arp_table s' ! i) \<or> unat (ae_ctime (arp_table s' ! i)) = unat (ae_ctime (arp_table s ! i)) + n \<and> n < 300 \<and>
       (ae_state (arp_table s ! i) = ETHARP_STATE_PENDING \<longrightarrow> n < 5)" if i: "i < 10" for i
  proof (cases "is_empty (arp_table s ! i)")
    case True
    then show ?thesis using t i arp_liveD(5) [OF l] aged_empty by simp
  next
    case False
    then have "unat (ae_ctime (arp_table s ! i)) < 300" using arp_liveD(1) [OF l] i by (auto simp: arp_inv_def table_ok_def word_less_nat_alt const_defs)
    from aged_ctime [OF this, of n] show ?thesis using t i arp_liveD(5) [OF l] by auto
  qed
  have "q_ents s' = Map.empty \<and> pool_inv d (arp_queue s') {}" if n: "300 \<le> n"
  proof -
    have "Q' i = []" if "i < 10" for i using queues_okD(3) [OF arp_liveD(6) [OF s'(2)] that] e [OF that] n by auto
    then have "elems_of Q' = {}" by (simp add: elems_of_def)
    then show ?thesis using arp_liveD(6) [OF s'(2)] by (auto simp: queues_ok_def)
  qed
  then show ?thesis using s' e by blast
qed

end

text \<open>Sending to a neighbour whose address is known.\<close>

lemma usable_unique:
  assumes "arp_inv d s Q" and "i < 10" and "j < 10" and "arp_usable netif ip (arp_table s ! i)" and "arp_usable netif ip (arp_table s ! j)"
  shows "i = j"
  using table_unique [of "arp_table s" i j] assms by (auto simp: arp_inv_def arp_usable_def stable_def)

lemma output_to_index:
  assumes "netifs s netif = Some nif" and "ae_ctime (arp_table s ! i) < ARP_AGE_REREQUEST_USED_UNICAST"
  shows "etharp_output_to_arp_index lo netif q i s = ethernet_output lo netif q (nif_hwaddr nif) (ae_ethaddr (arp_table s ! i)) ETHTYPE_IP s"
proof -
  have "\<not> ae_ctime (arp_table s ! i) \<ge> ARP_AGE_REREQUEST_USED_UNICAST" "\<not> ae_ctime (arp_table s ! i) \<ge> ARP_AGE_REREQUEST_USED_BROADCAST"
    using assms(2) by (auto simp: word_less_nat_alt word_le_nat_alt const_defs)
  then have "arp_rerequest lo netif i s = Some s" by (simp add: arp_rerequest_def Let_def)
  then show ?thesis using assms(1) by (simp add: etharp_output_to_arp_index_def)
qed

lemma output_known_eq:
  assumes inv: "arp_inv d s Q" and nif: "netifs s netif = Some nif" and uni: "\<not> ip4_addr_isbroadcast_u32 ip nif" "\<not> ip4_addr_ismulticast ip"
    and net: "ip4_addr_net_eq ip (nif_ip_addr nif) (nif_netmask nif)" and i: "i < 10" "arp_usable netif ip (arp_table s ! i)"
    and age: "ae_ctime (arp_table s ! i) < ARP_AGE_REREQUEST_USED_UNICAST"
  shows "\<exists>t. wire t = wire s \<and> pbm t = pbm s \<and> arp_table t = arp_table s \<and> unat (etharp_cached_entry t) = i \<and>
    etharp_output lo netif q ip s = ethernet_output lo netif q (nif_hwaddr nif) (ae_ethaddr (arp_table s ! i)) ETHTYPE_IP t"
proof (cases "arp_usable netif ip (arp_table s ! unat (etharp_cached_entry s))")
  case True
  have "unat (etharp_cached_entry s) < 10" using inv by (simp add: arp_inv_def)
  then have c: "unat (etharp_cached_entry s) = i" using usable_unique [OF inv _ i(1) True i(2)] by simp
  let ?t = "ETHARP_STATS_INC sp_cachehit_update s"
  have "netifs ?t netif = Some nif" "arp_table ?t = arp_table s" using nif by (simp_all add: ETHARP_STATS_INC_def)
  then have "etharp_output lo netif q ip s = ethernet_output lo netif q (nif_hwaddr nif) (ae_ethaddr (arp_table s ! i)) ETHTYPE_IP ?t"
    using nif uni net True age output_to_index [of ?t netif nif i lo q] by (simp add: etharp_output_def c)
  then show ?thesis using c by (intro exI [of _ ?t]) (simp add: ETHARP_STATS_INC_def)
next
  case False
  have t: "length (arp_table s) = 10" using inv by (simp add: arp_inv_def table_ok_def)
  then obtain j where j: "output_search netif ip (arp_table s) 0 = Some j"
    using output_search_None [of netif ip "arp_table s" 0] i nth_mem [of i "arp_table s"] by (cases "output_search netif ip (arp_table s) 0") auto
  then have "j = i" using output_search_ok [OF j] usable_unique [OF inv _ i(1) _ i(2)] t by simp
  let ?t = "s\<lparr>etharp_cached_entry := of_nat i\<rparr>"
  have "etharp_output lo netif q ip s = ethernet_output lo netif q (nif_hwaddr nif) (ae_ethaddr (arp_table s ! i)) ETHTYPE_IP ?t"
    using nif uni net False age output_to_index [of ?t netif nif i lo q] j \<open>j = i\<close> by (simp add: etharp_output_def)
  then show ?thesis using i(1) by (intro exI [of _ ?t]) (simp add: unat_of_nat_id)
qed

context link_driver
begin

lemma output_known:
  assumes inv: "arp_inv d s Q" and nif: "netifs s netif = Some nif" and uni: "\<not> ip4_addr_isbroadcast_u32 ip nif" "\<not> ip4_addr_ismulticast ip"
    and net: "ip4_addr_net_eq ip (nif_ip_addr nif) (nif_netmask nif)" and i: "i < 10" "arp_usable netif ip (arp_table s ! i)"
    and age: "ae_ctime (arp_table s ! i) < ARP_AGE_REREQUEST_USED_UNICAST"
    and pk: "packet (pbm s) p (p # qs)" and c: "getp p (pbm s) = Some c" and tot: "unat (pb_tot_len c) + 16 \<le> 1536"
    and cont: "pb_type_internal c AND PBUF_TYPE_FLAG_STRUCT_DATA_CONTIGUOUS \<noteq> 0"
    and pay: "p + 32 \<le> pb_payload c" "pb_payload c < 2 ^ 32" and ref: "pb_ref c \<noteq> 0"
    and D: "(set (cells (pbufs (pbm s)) (p # qs)) \<union> {pb_payload c - 16..<pb_payload c}) \<inter> D = {}"
    and room: "set (cells (pbufs (pbm s)) (p # qs)) \<inter> {pb_payload c - 16..<pb_payload c} = {}"
    and mac: "length (nif_hwaddr nif) = 6" "length (ae_ethaddr (arp_table s ! i)) = 6" and rdy: "ready (wire s)"
  shows "\<exists>e s'. etharp_output lo netif p ip s = Some (e, s') \<and> ready (wire s') \<and> arp_table s' = arp_table s \<and>
    (good (wire s) \<longrightarrow> e = ERR_OK \<and> last_frame (bytes (pbm s')) (wire s') =
       eth_padded (ae_ethaddr (arp_table s ! i) @ nif_hwaddr nif @ be16 ETHTYPE_IP @ pdata (pbm s) (p # qs)))"
proof -
  obtain t where t: "pbm t = pbm s" "wire t = wire s" "arp_table t = arp_table s"
    "etharp_output lo netif p ip s = ethernet_output lo netif p (nif_hwaddr nif) (ae_ethaddr (arp_table s ! i)) ETHTYPE_IP t"
    using output_known_eq [OF inv nif uni net i age, of lo p] by blast
  from ethernet_output_ok [of t p qs c "nif_hwaddr nif" "ae_ethaddr (arp_table s ! i)" netif ETHTYPE_IP, unfolded t(1,2), OF pk c tot cont pay ref D room mac rdy]
  show ?thesis unfolding t(4) using t(3) by force
qed

end

section \<open>Properties\<close>

text \<open>An initial state, with one interface at address 500.\<close>

definition demo_nif :: eth_netif where
  "demo_nif = \<lparr>nif_ip_addr = IP4_ADDR 192 168 0 2, nif_netmask = IP4_ADDR 255 255 255 0, nif_flags = NETIF_FLAG_BROADCAST,
     nif_next = NULL, nif_gw = IP4_ADDR 192 168 0 1, nif_hwaddr = [2, 0, 0, 0, 0, 1], nif_num = 0, nif_acd_list = NULL\<rparr>"

definition stats_proto_zero :: stats_proto where
  "stats_proto_zero = \<lparr>sp_xmit = 0, sp_recv = 0, sp_fw = 0, sp_drop = 0, sp_chkerr = 0, sp_lenerr = 0, sp_memerr = 0, sp_rterr = 0,
     sp_proterr = 0, sp_opterr = 0, sp_err = 0, sp_cachehit = 0\<rparr>"

definition demo_arp :: "unit link_state" where
  "demo_arp = \<lparr>netif_list = 500, netifs = [500 \<mapsto> demo_nif], arp_table = replicate ARP_TABLE_SIZE entry_clear, etharp_cached_entry = 0,
     arp_queue = memp_init_pool (memp_ARP_QUEUE 4000) memp_pool_zero, q_ents = Map.empty, acds = Map.empty, pbm = demo_pb,
     stats_etharp = stats_proto_zero, stats_link = stats_proto_zero, rand_state = (\<lambda>_. 0), wire = ()\<rparr>"

abbreviation demo_lo :: "unit linkoutput" where "demo_lo \<equiv> \<lambda>netif p b w. Some (ERR_OK, b, w)"
abbreviation demo_ip :: u32 where "demo_ip \<equiv> IP4_ADDR 192 168 0 7"
abbreviation demo_mac :: eth_addr where "demo_mac \<equiv> [2, 0, 0, 0, 0, 7]"

lemma demo_arp_reach: "arp_reach lo (memp_ARP_QUEUE 4000) demo_arp"
  by (rule arp_start [where pool = memp_pool_zero]) (simp_all add: demo_arp_def memp_ARP_QUEUE_def wf_desc_def memp_pool_zero_def)

lemma demo_unicast: "\<not> (ip4_addr_isany demo_ip \<or> ip4_addr_isbroadcast_u32 demo_ip demo_nif \<or> ip4_addr_ismulticast demo_ip)"
  by (simp add: ip4_addr_isany_def ip4_addr_isbroadcast_u32_def ip4_addr_ismulticast_def ip4_addr_net_eq_def demo_nif_def IP4_ADDR_def
      LWIP_MAKEU32_def lwip_htonl_def const_defs)

definition demo_entry :: etharp_entry where
  "demo_entry = \<lparr>ae_q = NULL, ae_ipaddr = demo_ip, ae_netif = 500, ae_ethaddr = demo_mac, ae_ctime = 0, ae_state = ETHARP_STATE_STABLE\<rparr>"

definition demo_learned :: "unit link_state" where
  "demo_learned = demo_arp\<lparr>arp_table := demo_entry # replicate 9 entry_clear\<rparr>"

lemma demo_learn: "etharp_update_arp_entry demo_lo 500 demo_ip demo_mac ETHARP_FLAG_TRY_HARD demo_arp = Some (ERR_OK, demo_learned)"
proof -
  have t: "arp_table demo_arp = entry_clear # replicate 9 entry_clear" by (simp add: demo_arp_def numeral_eq_Suc)
  have f: "find_loop (Some demo_ip) 500 (arp_table demo_arp) 0 cand_init = Inr (cand_init\<lparr>c_empty := 0\<rparr>)"
    by (simp add: t numeral_eq_Suc arp_match_def cand_step_def cand_init_def entry_clear_def)
  have "etharp_find_entry (Some demo_ip) ETHARP_FLAG_TRY_HARD 500 demo_arp = Some (Inr 0, find_fill (Some demo_ip) 500 0 demo_arp)"
    unfolding etharp_find_entry_def f by (simp add: const_defs cand_init_def)
  then show ?thesis using demo_unicast
    by (simp add: etharp_update_arp_entry_def demo_arp_def [THEN arg_cong, of netifs] t find_fill_eq upd_entry_def entry_clear_def demo_learned_def
        demo_entry_def send_queue.simps)
qed


text \<open>
  C8 In every state that the functions of etharp.c reach the table has ten entries, no two in use for the
  same address on the same interface and none older than its state allows; each pending entry holds a well-formed
  queue of at most three packets, other entries hold none, and the elements of the queues are exactly the elements
  taken from the pool \<open>MEMP_ARP_QUEUE\<close>: none is lost and none is used twice.
\<close>

theorem arp_table_invariant:
  assumes "arp_reach lo d s"
  shows "\<exists>Q. table_ok (arp_table s) \<and> pool_inv d (arp_queue s) (\<Union>i<10. set (Q i)) \<and> dom (q_ents s) = (\<Union>i<10. set (Q i)) \<and>
    (\<forall>i<10. linked (qnexts s) (ae_q (arp_table s ! i)) (Q i) \<and> length (Q i) \<le> 3 \<and>
       (ae_state (arp_table s ! i) \<noteq> ETHARP_STATE_PENDING \<longrightarrow> Q i = []) \<and> (\<forall>j<10. i \<noteq> j \<longrightarrow> set (Q i) \<inter> set (Q j) = {}))"
proof -
  obtain Q where "arp_inv d s Q" using arp_reach_ok [OF assms] by blast
  then show ?thesis by (intro exI [of _ Q]) (simp add: arp_inv_def queues_ok_def elems_of_def)
qed

theorem arp_table_invariant_witness:
  "\<exists>Q. linked (qnexts demo_learned) (ae_q (arp_table demo_learned ! 0)) (Q 0) \<and> Q 0 = ([] :: addr list)"
proof -
  have "arp_reach demo_lo (memp_ARP_QUEUE 4000) demo_learned" by (rule arp_learn [OF demo_arp_reach demo_learn])
  from arp_table_invariant [OF this] obtain Q where
    "\<forall>i<10. linked (qnexts demo_learned) (ae_q (arp_table demo_learned ! i)) (Q i) \<and> length (Q i) \<le> 3 \<and>
       (ae_state (arp_table demo_learned ! i) \<noteq> ETHARP_STATE_PENDING \<longrightarrow> Q i = []) \<and> (\<forall>j<10. i \<noteq> j \<longrightarrow> set (Q i) \<inter> set (Q j) = {})" by blast
  then have "linked (qnexts demo_learned) (ae_q (arp_table demo_learned ! 0)) (Q 0)" "ae_state (arp_table demo_learned ! 0) \<noteq> ETHARP_STATE_PENDING \<longrightarrow> Q 0 = []"
    by simp_all
  then show ?thesis by (auto simp: demo_learned_def demo_entry_def)
qed

text \<open>
  C20 \<open>etharp_find_entry\<close> returns the entry of the address if the table has one. Otherwise it fails under
  \<open>ETHARP_FLAG_FIND_ONLY\<close>, takes the first empty entry if there is one, fails on a full table without
  \<open>ETHARP_FLAG_TRY_HARD\<close>, and recycles else: the oldest stable entry, else the oldest pending entry without packets,
  else the oldest pending one, whose packets are released.
\<close>

theorem etharp_find_entry_correct:
  assumes "arp_inv d s Q" and "netif \<noteq> NULL"
  shows "(\<forall>i<10. arp_match (Some ip) netif (arp_table s ! i) \<longrightarrow> etharp_find_entry (Some ip) flags netif s = Some (Inr i, s)) \<and>
    ((\<forall>i<10. \<not> arp_match (Some ip) netif (arp_table s ! i)) \<longrightarrow>
      (if flags AND ETHARP_FLAG_FIND_ONLY \<noteq> 0 then etharp_find_entry (Some ip) flags netif s = Some (Inl ERR_MEM, s)
       else if \<exists>e \<in> set (arp_table s). is_empty e then
         \<exists>i<10. first_empty (arp_table s) i \<and> etharp_find_entry (Some ip) flags netif s = Some (Inr i, find_fill (Some ip) netif i s)
       else if flags AND ETHARP_FLAG_TRY_HARD = 0 then etharp_find_entry (Some ip) flags netif s = Some (Inl ERR_MEM, s)
       else \<exists>i<10. victim (arp_table s) i \<and> etharp_find_entry (Some ip) flags netif s =
         map_option (\<lambda>b. (Inr i, find_fill (Some ip) netif i ((release (Q i) (s\<lparr>arp_table := (arp_table s)[i := entry_clear]\<rparr>))\<lparr>pbm := b\<rparr>)))
           (free_all (waiting s Q i) (pbm s))))"
  by (rule find_entry_ok [OF assms])

theorem etharp_find_entry_correct_witness:
  "etharp_find_entry (Some demo_ip) 0 500 demo_learned = Some (Inr 0, demo_learned)"
proof -
  obtain Q where Q: "arp_inv (memp_ARP_QUEUE 4000) demo_learned Q" using arp_reach_ok [OF arp_learn [OF demo_arp_reach demo_learn]] by blast
  have "arp_match (Some demo_ip) 500 (arp_table demo_learned ! 0)" by (simp add: arp_match_def demo_learned_def demo_entry_def)
  then show ?thesis using etharp_find_entry_correct [OF Q, of 500 demo_ip 0] by simp
qed


definition demo_pending :: "unit link_state" where
  "demo_pending = (upd_entry 0 (\<lambda>e. e\<lparr>ae_state := ETHARP_STATE_PENDING, ae_netif := 500\<rparr>) (find_fill (Some demo_ip) 500 0 demo_arp))
     \<lparr>pbm := demo_pb\<lparr>pbufs := [300 \<mapsto> demo_b3\<lparr>pb_type_internal := 0\<rparr>]\<rparr>\<rparr>"


lemma demo_pending_ok:
  "\<exists>Q. arp_inv (memp_ARP_QUEUE 4000) demo_pending Q" "netifs demo_pending 500 = Some demo_nif"
  "arp_table demo_pending ! 0 = \<lparr>ae_q = NULL, ae_ipaddr = demo_ip, ae_netif = 500, ae_ethaddr = ethzero, ae_ctime = 0, ae_state = ETHARP_STATE_PENDING\<rparr>"
  "copy_needed 300 (pbm demo_pending) = Some False" "\<exists>b. pbuf_ref 300 (pbm demo_pending) = Some b"
proof -
  have t: "\<forall>i<10. arp_table demo_arp ! i = entry_clear" "length (arp_table demo_arp) = 10" by (simp_all add: demo_arp_def)
  obtain Q where Q: "arp_inv (memp_ARP_QUEUE 4000) demo_arp Q" using arp_reach_ok [OF demo_arp_reach] by blast
  let ?s = "find_fill (Some demo_ip) 500 0 demo_arp"
  have s: "arp_inv (memp_ARP_QUEUE 4000) ?s Q" by (rule find_fill_inv [OF Q]) (simp_all add: t entry_clear_def)
  have "arp_inv (memp_ARP_QUEUE 4000) (upd_entry 0 (\<lambda>e. e\<lparr>ae_state := ETHARP_STATE_PENDING, ae_netif := 500\<rparr>) ?s) Q"
    by (rule pending_inv [OF s, where ip = demo_ip]) (simp_all add: t entry_clear_def find_fill_eq nth_list_update)
  then show "\<exists>Q. arp_inv (memp_ARP_QUEUE 4000) demo_pending Q" by (auto simp: demo_pending_def)
  show "netifs demo_pending 500 = Some demo_nif"
    "arp_table demo_pending ! 0 = \<lparr>ae_q = NULL, ae_ipaddr = demo_ip, ae_netif = 500, ae_ethaddr = ethzero, ae_ctime = 0, ae_state = ETHARP_STATE_PENDING\<rparr>"
    "\<exists>b. pbuf_ref 300 (pbm demo_pending) = Some b"
    by (simp_all add: demo_pending_def find_fill_def t entry_clear_def pbuf_ref_def getp_def) (simp add: demo_arp_def)
  show "copy_needed 300 (pbm demo_pending) = Some False"
    by (simp add: demo_pending_def copy_needed.simps [of 300] copy_needed.simps [of NULL] getp_def PBUF_NEEDS_COPY_def demo_b3_def)
qed


text \<open>
  C18 Learning an address: \<open>etharp_update_arp_entry\<close> makes the entry of the address stable with the new hardware
  address and age 0 and sends the packets that waited for it, in the order in which they came, each released after it was
  sent. The queue of the entry is empty then, its elements are back in the pool and the other entries are as they were.
\<close>

theorem etharp_update_sends:
  assumes inv: "arp_inv d s Q" and nif: "netifs s netif = Some nif"
    and uni: "\<not> (ip4_addr_isany ip \<or> ip4_addr_isbroadcast_u32 ip nif \<or> ip4_addr_ismulticast ip)"
    and i: "i < 10" "arp_match (Some ip) netif (arp_table s ! i)"
  shows "\<exists>s1. etharp_update_arp_entry lo netif ip mac flags s =
      map_option (\<lambda>t. (ERR_OK, t)) (send_all lo netif (nif_hwaddr nif) mac (waiting s Q i) s1) \<and> pbm s1 = pbm s \<and> wire s1 = wire s \<and>
    (\<forall>t. send_all lo netif (nif_hwaddr nif) mac (waiting s Q i) s1 = Some t \<longrightarrow>
       arp_inv d t (Q(i := [])) \<and> (\<forall>j<10. j \<noteq> i \<longrightarrow> waiting t (Q(i := [])) j = waiting s Q j) \<and>
       arp_table t = (arp_table s)[i := \<lparr>ae_q = NULL, ae_ipaddr = ip, ae_netif = netif, ae_ethaddr = mac, ae_ctime = 0, ae_state = ETHARP_STATE_STABLE\<rparr>])"
proof -
  let ?s = "release (Q i) (upd_entry i (\<lambda>e. e\<lparr>ae_state := ETHARP_STATE_STABLE, ae_netif := netif, ae_ethaddr := mac, ae_ctime := 0, ae_q := NULL\<rparr>) s)"
  have n0: "netif \<noteq> NULL" by (rule netif_not_null [OF inv nif])
  have t: "table_ok (arp_table s)" "length (arp_table s) = 10" and q: "queues_ok d s Q" using inv by (simp_all add: arp_inv_def table_ok_def)
  have key: "ae_ipaddr (arp_table s ! i) = ip" "ae_netif (arp_table s ! i) = netif" "\<not> is_empty (arp_table s ! i)"
    using i(2) n0 by (auto simp: arp_match_def)
  have f: "etharp_find_entry (Some ip) flags netif s = Some (Inr i, s)" using find_entry_ok [OF inv n0] i by blast
  note run = update_arp_eq [OF nif uni f inv i(1) refl, of lo mac]
  have "arp_inv d ?s (Q(i := []))"
    by (rule update_inv [OF inv i(1) key(1)]) (use table_unique [OF t(1) i(1)] key in blast)
  moreover have "waiting ?s (Q(i := [])) j = waiting s Q j" if "j < 10" "j \<noteq> i" for j
    unfolding upd_entry_def by (rule waiting_release [OF q i(1) that])
  moreover have "arp_table ?s = (arp_table s)[i := \<lparr>ae_q = NULL, ae_ipaddr = ip, ae_netif = netif, ae_ethaddr = mac, ae_ctime = 0, ae_state = ETHARP_STATE_STABLE\<rparr>]"
    using key i(1) t(2) by (cases "arp_table s ! i") (simp add: upd_entry_def)
  ultimately have "arp_inv d t (Q(i := [])) \<and> (\<forall>j<10. j \<noteq> i \<longrightarrow> waiting t (Q(i := [])) j = waiting s Q j) \<and>
      arp_table t = (arp_table s)[i := \<lparr>ae_q = NULL, ae_ipaddr = ip, ae_netif = netif, ae_ethaddr = mac, ae_ctime = 0, ae_state = ETHARP_STATE_STABLE\<rparr>]"
    if "same_arp ?s t" for t
    using arp_inv_same [OF _ that] waiting_same [OF that] that by (simp add: same_arp_def)
  then show ?thesis unfolding run using send_all_same [of lo netif "nif_hwaddr nif" mac "waiting s Q i" ?s]
    by (intro exI [of _ ?s]) (simp add: release_def)
qed

theorem etharp_update_sends_witness:
  "\<exists>t. etharp_update_arp_entry demo_lo 500 demo_ip demo_mac 0 demo_pending = Some (ERR_OK, t) \<and> arp_table t ! 0 = demo_entry"
proof -
  obtain Q where Q: "arp_inv (memp_ARP_QUEUE 4000) demo_pending Q" using demo_pending_ok(1) by blast
  have "arp_match (Some demo_ip) 500 (arp_table demo_pending ! 0)" by (simp add: arp_match_def demo_pending_ok(3))
  note u = etharp_update_sends [OF Q demo_pending_ok(2) demo_unicast _ this, of demo_lo demo_mac 0]
  have "Q 0 = []" using queues_okD(7) [of "memp_ARP_QUEUE 4000" demo_pending Q 0] Q demo_pending_ok(3) by (simp add: arp_inv_def)
  moreover have "length (arp_table demo_pending) = 10" using Q by (simp add: arp_inv_def table_ok_def)
  ultimately show ?thesis using u by (auto simp: waiting_def demo_entry_def)
qed

end
