(* ===== verification/Acd.thy ===== *)
theory Acd
  imports Etharp
begin

text \<open>
  Address conflict detection, \<open>lwip/src/core/ipv4/acd.c\<close> (RFC 5227). A module (\<open>struct acd\<close>) probes an
  address, announces it and then watches over it; it sits in a list at its interface. The clients are called back through
  \<open>acd_conflict_callback\<close>: the function behind a pointer is a parameter, indexed by the pointer, that may change the state and may
  fail to return. Random numbers come from a stream in the state. \<open>LWIP_ASSERT\<close> prints and continues.
\<close>

unbundle bit_operations_syntax

section \<open>Data\<close>

datatype acd_callback_enum = ACD_IP_OK | ACD_RESTART_CLIENT | ACD_DECLINE

type_synonym 'w acd_callbacks = "nat \<Rightarrow> addr \<Rightarrow> acd_callback_enum \<Rightarrow> 'w link_state \<Rightarrow> 'w link_state option"

definition PROBE_WAIT :: nat where [const_defs]: "PROBE_WAIT = 1"
definition PROBE_MIN :: nat where [const_defs]: "PROBE_MIN = 1"
definition PROBE_MAX :: nat where [const_defs]: "PROBE_MAX = 2"
definition PROBE_NUM :: u8 where [const_defs]: "PROBE_NUM = 3"
definition ANNOUNCE_NUM :: u8 where [const_defs]: "ANNOUNCE_NUM = 2"
definition ANNOUNCE_INTERVAL :: nat where [const_defs]: "ANNOUNCE_INTERVAL = 2"
definition ANNOUNCE_WAIT :: nat where [const_defs]: "ANNOUNCE_WAIT = 2"
definition MAX_CONFLICTS :: u8 where [const_defs]: "MAX_CONFLICTS = 10"
definition RATE_LIMIT_INTERVAL :: nat where [const_defs]: "RATE_LIMIT_INTERVAL = 60"
definition DEFEND_INTERVAL :: nat where [const_defs]: "DEFEND_INTERVAL = 10"
definition ACD_TMR_INTERVAL :: nat where [const_defs]: "ACD_TMR_INTERVAL = 100"
definition ACD_TICKS_PER_SECOND :: nat where [const_defs]: "ACD_TICKS_PER_SECOND = 1000 div ACD_TMR_INTERVAL"

definition LWIP_RAND :: "'w link_state \<Rightarrow> u32 \<times> 'w link_state" where
  "LWIP_RAND s = (rand_state s 0, s\<lparr>rand_state := \<lambda>n. rand_state s (Suc n)\<rparr>)"

definition ACD_RANDOM_PROBE_WAIT :: "u32 \<Rightarrow> u32" where
  "ACD_RANDOM_PROBE_WAIT r = r mod of_nat (PROBE_WAIT * ACD_TICKS_PER_SECOND)"

definition ACD_RANDOM_PROBE_INTERVAL :: "u32 \<Rightarrow> u32" where
  "ACD_RANDOM_PROBE_INTERVAL r = r mod of_nat ((PROBE_MAX - PROBE_MIN) * ACD_TICKS_PER_SECOND) + of_nat (PROBE_MIN * ACD_TICKS_PER_SECOND)"

text \<open>Reading a module, and writing to one that is there.\<close>

definition getacd :: "addr \<Rightarrow> 'w link_state \<Rightarrow> acd option" where
  "getacd a s = (if a = NULL then None else acds s a)"

definition upd_acd :: "addr \<Rightarrow> (acd \<Rightarrow> acd) \<Rightarrow> 'w link_state \<Rightarrow> 'w link_state" where
  "upd_acd a f s = s\<lparr>acds := (acds s)(a := map_option f (acds s a))\<rparr>"

section \<open>Clients\<close>

partial_function (option) acd_on_list :: "addr \<Rightarrow> addr \<Rightarrow> 'w link_state \<Rightarrow> bool option" where
  "acd_on_list acd acd2 s =
     (if acd2 = NULL then Some False
      else if acd2 = acd then Some True
      else do { x \<leftarrow> getacd acd2 s; acd_on_list acd (acd_next x) s })"

definition acd_add :: "addr \<Rightarrow> addr \<Rightarrow> nat \<Rightarrow> 'w link_state \<Rightarrow> (err_t \<times> 'w link_state) option" where
  "acd_add netif acd callback s =
     do {
       _ \<leftarrow> getacd acd s;
       let s = upd_acd acd (\<lambda>x. x\<lparr>acd_conflict_callback := callback\<rparr>) s;
       nif \<leftarrow> netifs s netif;
       there \<leftarrow> acd_on_list acd (nif_acd_list nif) s;
       if there then Some (ERR_OK, s)
       else do {
         let s = upd_acd acd (\<lambda>x. x\<lparr>acd_next := nif_acd_list nif\<rparr>) s;
         Some (ERR_OK, s\<lparr>netifs := (netifs s)(netif \<mapsto> nif\<lparr>nif_acd_list := acd\<rparr>)\<rparr>)
       }
     }"

partial_function (option) acd_remove_loop :: "addr \<Rightarrow> addr \<Rightarrow> addr \<Rightarrow> addr \<Rightarrow> 'w link_state \<Rightarrow> 'w link_state option" where
  "acd_remove_loop netif acd acd2 prev s =
     (if acd2 = NULL then Some s
      else do {
        x \<leftarrow> getacd acd2 s;
        if acd2 = acd then
          (if prev \<noteq> NULL then Some (upd_acd prev (\<lambda>y. y\<lparr>acd_next := acd_next x\<rparr>) s)
           else do { nif \<leftarrow> netifs s netif; Some (s\<lparr>netifs := (netifs s)(netif \<mapsto> nif\<lparr>nif_acd_list := acd_next x\<rparr>)\<rparr>) })
        else acd_remove_loop netif acd (acd_next x) acd2 s
      })"

definition acd_remove :: "addr \<Rightarrow> addr \<Rightarrow> 'w link_state \<Rightarrow> 'w link_state option" where
  "acd_remove netif acd s = do { nif \<leftarrow> netifs s netif; acd_remove_loop netif acd (nif_acd_list nif) NULL s }"

definition acd_start :: "addr \<Rightarrow> addr \<Rightarrow> u32 \<Rightarrow> 'w link_state \<Rightarrow> (err_t \<times> 'w link_state) option" where
  "acd_start netif acd ipaddr s =
     do {
       _ \<leftarrow> getacd acd s;
       let s = upd_acd acd (\<lambda>x. x\<lparr>acd_sent_num := 0, acd_lastconflict := 0, acd_ipaddr := ipaddr, acd_state := ACD_STATE_PROBE_WAIT\<rparr>) s;
       let (r, s) = LWIP_RAND s;
       Some (ERR_OK, upd_acd acd (\<lambda>x. x\<lparr>acd_ttw := ucast (ACD_RANDOM_PROBE_WAIT r)\<rparr>) s)
     }"

definition acd_stop :: "addr \<Rightarrow> 'w link_state \<Rightarrow> 'w link_state option" where
  "acd_stop acd s =
     (if acd \<noteq> NULL then do { _ \<leftarrow> getacd acd s; Some (upd_acd acd (\<lambda>x. x\<lparr>acd_state := ACD_STATE_OFF\<rparr>) s) } else Some s)"

partial_function (option) link_down_loop :: "addr \<Rightarrow> 'w link_state \<Rightarrow> 'w link_state option" where
  "link_down_loop acd s =
     (if acd = NULL then Some s
      else do { s \<leftarrow> acd_stop acd s; x \<leftarrow> getacd acd s; link_down_loop (acd_next x) s })"

definition acd_network_changed_link_down :: "addr \<Rightarrow> 'w link_state \<Rightarrow> 'w link_state option" where
  "acd_network_changed_link_down netif s = do { nif \<leftarrow> netifs s netif; link_down_loop (nif_acd_list nif) s }"

section \<open>The timer\<close>

text \<open>The branches of \<open>acd_tmr\<close>, for a module whose time to wait is over.\<close>

definition acd_probe :: "'w linkoutput \<Rightarrow> addr \<Rightarrow> addr \<Rightarrow> 'w link_state \<Rightarrow> 'w link_state option" where
  "acd_probe lo netif acd s =
     do {
       let s = upd_acd acd (\<lambda>x. x\<lparr>acd_state := ACD_STATE_PROBING\<rparr>) s;
       x \<leftarrow> getacd acd s;
       (_, s) \<leftarrow> etharp_acd_probe lo netif (acd_ipaddr x) s;
       let s = upd_acd acd (\<lambda>x. x\<lparr>acd_sent_num := acd_sent_num x + 1\<rparr>) s;
       x \<leftarrow> getacd acd s;
       if acd_sent_num x \<ge> PROBE_NUM
       then Some (upd_acd acd (\<lambda>x. x\<lparr>acd_state := ACD_STATE_ANNOUNCE_WAIT, acd_sent_num := 0,
                    acd_ttw := of_nat (ANNOUNCE_WAIT * ACD_TICKS_PER_SECOND)\<rparr>) s)
       else do {
         let (r, s) = LWIP_RAND s;
         Some (upd_acd acd (\<lambda>x. x\<lparr>acd_ttw := ucast (ACD_RANDOM_PROBE_INTERVAL r)\<rparr>) s)
       }
     }"

definition acd_announce :: "'w acd_callbacks \<Rightarrow> 'w linkoutput \<Rightarrow> addr \<Rightarrow> addr \<Rightarrow> 'w link_state \<Rightarrow> 'w link_state option" where
  "acd_announce cbs lo netif acd s =
     do {
       x \<leftarrow> getacd acd s;
       let s = (if acd_sent_num x = 0 then upd_acd acd (\<lambda>x. x\<lparr>acd_state := ACD_STATE_ANNOUNCING, acd_num_conflicts := 0\<rparr>) s else s);
       (_, s) \<leftarrow> etharp_acd_announce lo netif (acd_ipaddr x) s;
       let s = upd_acd acd (\<lambda>x. x\<lparr>acd_ttw := of_nat (ANNOUNCE_INTERVAL * ACD_TICKS_PER_SECOND), acd_sent_num := acd_sent_num x + 1\<rparr>) s;
       x \<leftarrow> getacd acd s;
       if acd_sent_num x \<ge> ANNOUNCE_NUM then do {
         let s = upd_acd acd (\<lambda>x. x\<lparr>acd_state := ACD_STATE_ONGOING, acd_sent_num := 0, acd_ttw := 0\<rparr>) s;
         cbs (acd_conflict_callback x) netif ACD_IP_OK s
       }
       else Some s
     }"

definition acd_tmr_acd :: "'w acd_callbacks \<Rightarrow> 'w linkoutput \<Rightarrow> addr \<Rightarrow> addr \<Rightarrow> 'w link_state \<Rightarrow> 'w link_state option" where
  "acd_tmr_acd cbs lo netif acd s =
     do {
       x \<leftarrow> getacd acd s;
       let s = (if acd_lastconflict x > 0 then upd_acd acd (\<lambda>x. x\<lparr>acd_lastconflict := acd_lastconflict x - 1\<rparr>) s else s);
       let s = (if acd_ttw x > 0 then upd_acd acd (\<lambda>x. x\<lparr>acd_ttw := acd_ttw x - 1\<rparr>) s else s);
       x \<leftarrow> getacd acd s;
       if acd_state x \<in> {ACD_STATE_PROBE_WAIT, ACD_STATE_PROBING} then
         (if acd_ttw x = 0 then acd_probe lo netif acd s else Some s)
       else if acd_state x \<in> {ACD_STATE_ANNOUNCE_WAIT, ACD_STATE_ANNOUNCING} then
         (if acd_ttw x = 0 then acd_announce cbs lo netif acd s else Some s)
       else if acd_state x = ACD_STATE_RATE_LIMIT then
         (if acd_ttw x = 0 then do {
            s \<leftarrow> acd_stop acd s;
            x \<leftarrow> getacd acd s;
            cbs (acd_conflict_callback x) netif ACD_RESTART_CLIENT s
          } else Some s)
       else Some s
     }"

partial_function (option) acd_tmr_list :: "'w acd_callbacks \<Rightarrow> 'w linkoutput \<Rightarrow> addr \<Rightarrow> addr \<Rightarrow> 'w link_state \<Rightarrow> 'w link_state option" where
  "acd_tmr_list cbs lo netif acd s =
     (if acd = NULL then Some s
      else do { s \<leftarrow> acd_tmr_acd cbs lo netif acd s; x \<leftarrow> getacd acd s; acd_tmr_list cbs lo netif (acd_next x) s })"

partial_function (option) acd_tmr_netifs :: "'w acd_callbacks \<Rightarrow> 'w linkoutput \<Rightarrow> addr \<Rightarrow> 'w link_state \<Rightarrow> 'w link_state option" where
  "acd_tmr_netifs cbs lo netif s =
     (if netif = NULL then Some s
      else do {
        nif \<leftarrow> netifs s netif;
        s \<leftarrow> acd_tmr_list cbs lo netif (nif_acd_list nif) s;
        nif \<leftarrow> netifs s netif;
        acd_tmr_netifs cbs lo (nif_next nif) s
      })"

definition acd_tmr :: "'w acd_callbacks \<Rightarrow> 'w linkoutput \<Rightarrow> 'w link_state \<Rightarrow> 'w link_state option" where
  "acd_tmr cbs lo s = acd_tmr_netifs cbs lo (netif_list s) s"

section \<open>Conflicts\<close>

definition acd_restart :: "'w acd_callbacks \<Rightarrow> addr \<Rightarrow> addr \<Rightarrow> 'w link_state \<Rightarrow> 'w link_state option" where
  "acd_restart cbs netif acd s =
     do {
       let s = upd_acd acd (\<lambda>x. x\<lparr>acd_num_conflicts := acd_num_conflicts x + 1\<rparr>) s;
       x \<leftarrow> getacd acd s;
       s \<leftarrow> cbs (acd_conflict_callback x) netif ACD_DECLINE s;
       x \<leftarrow> getacd acd s;
       if acd_num_conflicts x \<ge> MAX_CONFLICTS
       then Some (upd_acd acd (\<lambda>x. x\<lparr>acd_state := ACD_STATE_RATE_LIMIT, acd_ttw := of_nat (RATE_LIMIT_INTERVAL * ACD_TICKS_PER_SECOND)\<rparr>) s)
       else do {
         s \<leftarrow> acd_stop acd s;
         x \<leftarrow> getacd acd s;
         cbs (acd_conflict_callback x) netif ACD_RESTART_CLIENT s
       }
     }"

definition acd_handle_arp_conflict :: "'w acd_callbacks \<Rightarrow> 'w linkoutput \<Rightarrow> addr \<Rightarrow> addr \<Rightarrow> 'w link_state \<Rightarrow> 'w link_state option" where
  "acd_handle_arp_conflict cbs lo netif acd s =
     do {
       x \<leftarrow> getacd acd s;
       if acd_state x = ACD_STATE_PASSIVE_ONGOING then do {
         s \<leftarrow> acd_stop acd s;
         cbs (acd_conflict_callback x) netif ACD_DECLINE s
       }
       else if acd_lastconflict x > 0 then acd_restart cbs netif acd s
       else do {
         (_, s) \<leftarrow> etharp_acd_announce lo netif (acd_ipaddr x) s;
         Some (upd_acd acd (\<lambda>x. x\<lparr>acd_lastconflict := of_nat (DEFEND_INTERVAL * ACD_TICKS_PER_SECOND)\<rparr>) s)
       }
     }"

text \<open>One module in \<open>acd_arp_reply\<close>; \<open>h\<close> is the address of the ARP packet.\<close>

definition acd_reply_acd :: "'w acd_callbacks \<Rightarrow> 'w linkoutput \<Rightarrow> addr \<Rightarrow> addr \<Rightarrow> eth_addr \<Rightarrow> u32 \<Rightarrow> u32 \<Rightarrow> addr \<Rightarrow> 'w link_state \<Rightarrow> 'w link_state option" where
  "acd_reply_acd cbs lo netif h netifaddr sipaddr dipaddr acd s =
     do {
       x \<leftarrow> getacd acd s;
       let shwaddr = rdmac (bytes (pbm s)) (h + 8);
       if acd_state x \<in> {ACD_STATE_PROBE_WAIT, ACD_STATE_PROBING, ACD_STATE_ANNOUNCE_WAIT} then
         (if sipaddr = acd_ipaddr x \<or> ip4_addr_isany sipaddr \<and> dipaddr = acd_ipaddr x \<and> netifaddr \<noteq> shwaddr
          then acd_restart cbs netif acd s else Some s)
       else if acd_state x \<in> {ACD_STATE_ANNOUNCING, ACD_STATE_ONGOING, ACD_STATE_PASSIVE_ONGOING} then
         (if sipaddr = acd_ipaddr x \<and> netifaddr \<noteq> shwaddr
          then acd_handle_arp_conflict cbs lo netif acd s else Some s)
       else Some s
     }"

partial_function (option) acd_reply_loop :: "'w acd_callbacks \<Rightarrow> 'w linkoutput \<Rightarrow> addr \<Rightarrow> addr \<Rightarrow> eth_addr \<Rightarrow> u32 \<Rightarrow> u32 \<Rightarrow> addr \<Rightarrow> 'w link_state \<Rightarrow> 'w link_state option" where
  "acd_reply_loop cbs lo netif h netifaddr sipaddr dipaddr acd s =
     (if acd = NULL then Some s
      else do {
        s \<leftarrow> acd_reply_acd cbs lo netif h netifaddr sipaddr dipaddr acd s;
        x \<leftarrow> getacd acd s;
        acd_reply_loop cbs lo netif h netifaddr sipaddr dipaddr (acd_next x) s
      })"

definition acd_arp_reply :: "'w acd_callbacks \<Rightarrow> 'w linkoutput \<Rightarrow> addr \<Rightarrow> addr \<Rightarrow> 'w link_state \<Rightarrow> 'w link_state option" where
  "acd_arp_reply cbs lo netif h s =
     do {
       nif \<leftarrow> netifs s netif;
       let sipaddr = rd32 (bytes (pbm s)) (h + 14);
       let dipaddr = rd32 (bytes (pbm s)) (h + 24);
       acd_reply_loop cbs lo netif h (nif_hwaddr nif) sipaddr dipaddr (nif_acd_list nif) s
     }"

definition acd_put_in_passive_mode :: "'w acd_callbacks \<Rightarrow> addr \<Rightarrow> addr \<Rightarrow> 'w link_state \<Rightarrow> 'w link_state option" where
  "acd_put_in_passive_mode cbs netif acd s =
     do {
       x \<leftarrow> getacd acd s;
       if acd_state x \<in> {ACD_STATE_PROBE_WAIT, ACD_STATE_PROBING, ACD_STATE_ANNOUNCE_WAIT, ACD_STATE_RATE_LIMIT} then do {
         s \<leftarrow> acd_stop acd s;
         cbs (acd_conflict_callback x) netif ACD_DECLINE s
       }
       else if acd_state x \<in> {ACD_STATE_ANNOUNCING, ACD_STATE_ONGOING}
       then Some (upd_acd acd (\<lambda>x. x\<lparr>acd_state := ACD_STATE_PASSIVE_ONGOING\<rparr>) s)
       else Some s
     }"

partial_function (option) addr_changed_loop :: "'w acd_callbacks \<Rightarrow> addr \<Rightarrow> u32 \<Rightarrow> u32 \<Rightarrow> addr \<Rightarrow> 'w link_state \<Rightarrow> 'w link_state option" where
  "addr_changed_loop cbs netif old_addr new_addr acd s =
     (if acd = NULL then Some s
      else do {
        x \<leftarrow> getacd acd s;
        s \<leftarrow> (if acd_ipaddr x = old_addr \<and> ip4_addr_islinklocal old_addr \<and> \<not> ip4_addr_islinklocal new_addr
              then acd_put_in_passive_mode cbs netif acd s else Some s);
        x \<leftarrow> getacd acd s;
        addr_changed_loop cbs netif old_addr new_addr (acd_next x) s
      })"

text \<open>The addresses are IPv4 addresses, as at the caller in \<open>netif.c\<close>.\<close>

definition acd_netif_ip_addr_changed :: "'w acd_callbacks \<Rightarrow> addr \<Rightarrow> u32 \<Rightarrow> u32 \<Rightarrow> 'w link_state \<Rightarrow> 'w link_state option" where
  "acd_netif_ip_addr_changed cbs netif old_addr new_addr s =
     (if ip4_addr_isany old_addr \<or> ip4_addr_isany new_addr then Some s
      else do { nif \<leftarrow> netifs s netif; addr_changed_loop cbs netif old_addr new_addr (nif_acd_list nif) s })"

section \<open>The state machine\<close>

text \<open>What a module does at a tick: the next state, the random numbers left, and what it sends or tells its client.\<close>

datatype acd_action = Probe | Announce | Tell acd_callback_enum

definition acd_wait :: "acd \<Rightarrow> acd" where
  "acd_wait x = x\<lparr>acd_lastconflict := acd_lastconflict x - (if acd_lastconflict x = 0 then 0 else 1),
     acd_ttw := acd_ttw x - (if acd_ttw x = 0 then 0 else 1)\<rparr>"

definition acd_tick :: "(nat \<Rightarrow> u32) \<Rightarrow> acd \<Rightarrow> acd \<times> (nat \<Rightarrow> u32) \<times> acd_action list" where
  "acd_tick rs x =
     (let x = acd_wait x in
      if acd_ttw x \<noteq> 0 then (x, rs, [])
      else if acd_state x = ACD_STATE_PROBE_WAIT \<or> acd_state x = ACD_STATE_PROBING then
        (if acd_sent_num x + 1 \<ge> 3
         then (x\<lparr>acd_state := ACD_STATE_ANNOUNCE_WAIT, acd_sent_num := 0, acd_ttw := 20\<rparr>, rs, [Probe])
         else (x\<lparr>acd_state := ACD_STATE_PROBING, acd_sent_num := acd_sent_num x + 1, acd_ttw := ucast (rs 0 mod 10 + 10)\<rparr>, rs \<circ> Suc, [Probe]))
      else if acd_state x = ACD_STATE_ANNOUNCE_WAIT \<or> acd_state x = ACD_STATE_ANNOUNCING then
        (let y = (if acd_sent_num x = 0 then x\<lparr>acd_state := ACD_STATE_ANNOUNCING, acd_num_conflicts := 0\<rparr> else x) in
         if acd_sent_num x + 1 \<ge> 2
         then (y\<lparr>acd_state := ACD_STATE_ONGOING, acd_sent_num := 0, acd_ttw := 0\<rparr>, rs, [Announce, Tell ACD_IP_OK])
         else (y\<lparr>acd_ttw := 20, acd_sent_num := acd_sent_num x + 1\<rparr>, rs, [Announce]))
      else if acd_state x = ACD_STATE_RATE_LIMIT then (x\<lparr>acd_state := ACD_STATE_OFF\<rparr>, rs, [Tell ACD_RESTART_CLIENT])
      else (x, rs, []))"

text \<open>Performing the actions.\<close>

fun acd_act :: "'w acd_callbacks \<Rightarrow> 'w linkoutput \<Rightarrow> addr \<Rightarrow> acd \<Rightarrow> acd_action list \<Rightarrow> 'w link_state \<Rightarrow> 'w link_state option" where
  "acd_act cbs lo netif x [] s = Some s"
| "acd_act cbs lo netif x (Probe # as) s = do { (_, s) \<leftarrow> etharp_acd_probe lo netif (acd_ipaddr x) s; acd_act cbs lo netif x as s }"
| "acd_act cbs lo netif x (Announce # as) s = do { (_, s) \<leftarrow> etharp_acd_announce lo netif (acd_ipaddr x) s; acd_act cbs lo netif x as s }"
| "acd_act cbs lo netif x (Tell e # as) s = do { s \<leftarrow> cbs (acd_conflict_callback x) netif e s; acd_act cbs lo netif x as s }"

lemma acd_act_end [simp]: "Option.bind c (acd_act cbs lo netif x []) = c"
  by (cases c) simp_all

definition set_acd :: "addr \<Rightarrow> acd \<Rightarrow> (nat \<Rightarrow> u32) \<Rightarrow> 'w link_state \<Rightarrow> 'w link_state" where
  "set_acd a x rs s = s\<lparr>acds := (acds s)(a \<mapsto> x), rand_state := rs\<rparr>"

lemma upd_acd_eq: "acds s a = Some x \<Longrightarrow> upd_acd a f s = set_acd a (f x) (rand_state s) s"
  by (simp add: upd_acd_def set_acd_def)

lemma set_acd_simps [simp]:
  "acds (set_acd a x rs s) = (acds s)(a \<mapsto> x)" "rand_state (set_acd a x rs s) = rs"
  "set_acd a x rs (set_acd a y rs' s) = set_acd a x rs s" "netifs (set_acd a x rs s) = netifs s" "pbm (set_acd a x rs s) = pbm s"
  "netif_list (set_acd a x rs s) = netif_list s" "wire (set_acd a x rs s) = wire s" "arp_table (set_acd a x rs s) = arp_table s"
  by (simp_all add: set_acd_def)

text \<open>Sending neither reads nor writes the modules.\<close>

lemma set_acd_out [simp]:
  "set_acd a x rs (s\<lparr>pbm := b\<rparr>) = (set_acd a x rs s)\<lparr>pbm := b\<rparr>" "set_acd a x rs (s\<lparr>wire := w\<rparr>) = (set_acd a x rs s)\<lparr>wire := w\<rparr>"
  "(set_acd a x rs s)\<lparr>rand_state := rs'\<rparr> = set_acd a x rs' s" "set_acd a x rs (LINK_STATS_INC f s) = LINK_STATS_INC f (set_acd a x rs s)" "set_acd a x rs (ETHARP_STATS_INC f s) = ETHARP_STATS_INC f (set_acd a x rs s)"
  by (simp_all add: set_acd_def LINK_STATS_INC_def ETHARP_STATS_INC_def)

lemma eth_set_acd:
  "ethernet_output lo netif p src dst ty (set_acd a x rs s) = map_option (\<lambda>(e, t). (e, set_acd a x rs t)) (ethernet_output lo netif p src dst ty s)"
  by (auto simp: ethernet_output_def Let_def map_conv_bind_option split: Option.bind_split prod.splits)

lemma eth_set_acd':
  "ethernet_output lo netif p src dst ty ((set_acd a x rs s)\<lparr>pbm := b\<rparr>) = map_option (\<lambda>(e, t). (e, set_acd a x rs t)) (ethernet_output lo netif p src dst ty (s\<lparr>pbm := b\<rparr>))"
  using eth_set_acd [of lo netif p src dst ty a x rs "s\<lparr>pbm := b\<rparr>"] by simp

lemma raw_set_acd:
  "etharp_raw lo netif e1 e2 h1 i1 h2 i2 op (set_acd a x rs s) = map_option (\<lambda>(e, t). (e, set_acd a x rs t)) (etharp_raw lo netif e1 e2 h1 i1 h2 i2 op s)"
proof (cases "pbuf_alloc PBUF_LINK SIZEOF_ETHARP_HDR PBUF_RAM (pbm s)")
  case None
  then show ?thesis by (simp add: etharp_raw_def)
next
  case (Some y)
  obtain p b where y: "y = (p, b)" by (cases y)
  have pb: "pbm (ETHARP_STATS_INC f t) = pbm t" for f and t :: "'a link_state" by (simp add: ETHARP_STATS_INC_def)
  show ?thesis using Some y
    by (cases "getp p b") (auto simp: etharp_raw_def Let_def eth_set_acd' map_conv_bind_option pb split: Option.bind_split prod.splits)
qed

lemma acd_send_set:
  "etharp_acd_probe lo netif ip (set_acd a x rs s) = map_option (\<lambda>(e, t). (e, set_acd a x rs t)) (etharp_acd_probe lo netif ip s)"
  "etharp_acd_announce lo netif ip (set_acd a x rs s) = map_option (\<lambda>(e, t). (e, set_acd a x rs t)) (etharp_acd_announce lo netif ip s)"
  by (cases "netifs s netif"; simp add: etharp_acd_probe_def etharp_acd_announce_def raw_set_acd)+

text \<open>\<open>acd_tmr\<close> does for each module what the state machine says.\<close>

lemma tmr_acd_refines:
  assumes x: "getacd acd s = Some x" and t: "acd_tick (rand_state s) x = (x', rs, as)"
  shows "acd_tmr_acd cbs lo netif acd s = acd_act cbs lo netif x' as (set_acd acd x' rs s)"
proof -
  have a: "acd \<noteq> NULL" "acds s acd = Some x" using x by (auto simp: getacd_def split: if_splits)
  let ?x = "acd_wait x" and ?s = "set_acd acd (acd_wait x) (rand_state s) s"
  have g: "getacd acd (set_acd acd y r t) = Some y" for y r and t :: "'a link_state" using a(1) by (simp add: getacd_def)
  have u: "upd_acd acd f (set_acd acd y r t) = set_acd acd (f y) r t" for f y r and t :: "'a link_state" by (simp add: upd_acd_eq)
  have w: "(let s = (if acd_lastconflict x > 0 then upd_acd acd (\<lambda>x. x\<lparr>acd_lastconflict := acd_lastconflict x - 1\<rparr>) s else s)
      in if acd_ttw x > 0 then upd_acd acd (\<lambda>x. x\<lparr>acd_ttw := acd_ttw x - 1\<rparr>) s else s) = ?s"
  proof -
    have s0: "s = set_acd acd x (rand_state s) s" using a(2) by (auto simp: set_acd_def intro!: link_state.equality)
    show ?thesis by (subst (1 2 3 4) s0, cases x) (auto simp: u acd_wait_def Let_def word_neq_0_conv)
  qed
  have run: "acd_tmr_acd cbs lo netif acd s =
     (if acd_state ?x \<in> {ACD_STATE_PROBE_WAIT, ACD_STATE_PROBING} then (if acd_ttw ?x = 0 then acd_probe lo netif acd ?s else Some ?s)
      else if acd_state ?x \<in> {ACD_STATE_ANNOUNCE_WAIT, ACD_STATE_ANNOUNCING} then (if acd_ttw ?x = 0 then acd_announce cbs lo netif acd ?s else Some ?s)
      else if acd_state ?x = ACD_STATE_RATE_LIMIT then
        (if acd_ttw ?x = 0 then do { s \<leftarrow> acd_stop acd ?s; x \<leftarrow> getacd acd s; cbs (acd_conflict_callback x) netif ACD_RESTART_CLIENT s } else Some ?s)
      else Some ?s)"
    unfolding acd_tmr_acd_def x Option.bind.bind_lunit Let_def w [unfolded Let_def] g ..
  have st: "acd_state ?x = acd_state x" "acd_sent_num ?x = acd_sent_num x" "acd_ipaddr ?x = acd_ipaddr x" "acd_conflict_callback ?x = acd_conflict_callback x"
    by (simp_all add: acd_wait_def)
  have probe: "acd_probe lo netif acd ?s = acd_act cbs lo netif x' as (set_acd acd x' rs s)"
    if "acd_ttw ?x = 0" "acd_state x = ACD_STATE_PROBE_WAIT \<or> acd_state x = ACD_STATE_PROBING"
    using that t a(1) by (cases "etharp_acd_probe lo netif (acd_ipaddr x) s")
      (auto simp: acd_probe_def acd_tick_def Let_def st u g acd_send_set LWIP_RAND_def comp_def ACD_RANDOM_PROBE_INTERVAL_def const_defs split: if_splits)
  have ann: "acd_announce cbs lo netif acd ?s = acd_act cbs lo netif x' as (set_acd acd x' rs s)"
    if "acd_ttw ?x = 0" "acd_state x = ACD_STATE_ANNOUNCE_WAIT \<or> acd_state x = ACD_STATE_ANNOUNCING"
    using that t a(1) by (cases "etharp_acd_announce lo netif (acd_ipaddr x) s")
      (auto simp: acd_announce_def acd_tick_def Let_def st u g acd_send_set const_defs split: if_splits)
  show ?thesis
  proof (cases "acd_ttw ?x = 0")
    case True
    then show ?thesis using t a(1) probe ann unfolding run
      by (cases "acd_state x") (auto simp: acd_tick_def Let_def st acd_stop_def g u)
  next
    case False
    then show ?thesis using t unfolding run by (auto simp: acd_tick_def)
  qed
qed

section \<open>From the first probe to the address\<close>

fun acd_ticks :: "nat \<Rightarrow> (nat \<Rightarrow> u32) \<Rightarrow> acd \<Rightarrow> acd \<times> (nat \<Rightarrow> u32) \<times> acd_action list" where
  "acd_ticks 0 rs x = (x, rs, [])"
| "acd_ticks (Suc n) rs x = (let (x1, rs1, as) = acd_tick rs x; (x2, rs2, bs) = acd_ticks n rs1 x1 in (x2, rs2, as @ bs))"

lemma acd_ticks_add:
  "acd_ticks (m + n) rs x = (let (x1, rs1, as) = acd_ticks m rs x; (x2, rs2, bs) = acd_ticks n rs1 x1 in (x2, rs2, as @ bs))"
  by (induction m arbitrary: rs x) (simp_all add: Let_def split_def)

lemma acd_ticks_then:
  "acd_ticks m rs x = (y, rs1, as) \<Longrightarrow> acd_ticks n rs1 y = (z, rs2, bs) \<Longrightarrow> acd_ticks (m + n) rs x = (z, rs2, as @ bs)"
  by (simp add: acd_ticks_add)

lemma acd_ticks_1: "acd_ticks 1 rs x = acd_tick rs x"
  by (simp add: Let_def split_def)

text \<open>A module that waits does nothing else.\<close>

lemma acd_idle:
  assumes "acd_lastconflict x = 0" and "j < unat (acd_ttw x)"
  shows "acd_ticks j rs x = (x\<lparr>acd_ttw := acd_ttw x - of_nat j\<rparr>, rs, [])"
  using assms(2)
proof (induction j)
  case (Suc j)
  let ?y = "x\<lparr>acd_ttw := acd_ttw x - of_nat j\<rparr>"
  have "j < 65536" using Suc.prems unat_u16_less [of "acd_ttw x"] by linarith
  then have "unat (of_nat j :: u16) = j" by (simp add: unat_of_nat_id)
  then have u: "unat (acd_ttw ?y) = unat (acd_ttw x) - j" using Suc.prems by (simp add: unat_sub_le word_le_nat_alt)
  then have n: "acd_ttw ?y \<noteq> 0" using Suc.prems by (metis diff_is_0_eq not_le unat_0 Suc_lessD)
  have "acd_ttw ?y - 1 \<noteq> 0" using u n Suc.prems by (metis Suc_lessD eq_iff_diff_eq_0 less_diff_conv not_less_eq_eq plus_1_eq_Suc order_refl unat_1 add.commute Suc_leI less_imp_diff_less)
  then have "acd_tick rs ?y = (?y\<lparr>acd_ttw := acd_ttw ?y - 1\<rparr>, rs, [])" using n assms(1) by (cases x) (simp add: acd_tick_def acd_wait_def Let_def)
  then show ?case using Suc acd_ticks_add [of j 1 rs x] unfolding acd_ticks_1 by (simp add: algebra_simps)
qed simp

lemma acd_fire:
  assumes l: "acd_lastconflict x = 0"
  shows "acd_ticks (max 1 (unat (acd_ttw x))) rs x = acd_tick rs (x\<lparr>acd_ttw := 0\<rparr>)"
proof (cases "unat (acd_ttw x)")
  case 0
  then have "x\<lparr>acd_ttw := 0\<rparr> = x" by (cases x) (simp add: unat_eq_zero)
  then show ?thesis using 0 acd_ticks_1 by simp
next
  case (Suc k)
  let ?y = "x\<lparr>acd_ttw := acd_ttw x - of_nat k\<rparr>"
  have k: "k < unat (acd_ttw x)" "max 1 (unat (acd_ttw x)) = k + 1" using Suc by simp_all
  have "acd_ttw x = of_nat (unat (acd_ttw x))" by simp
  then have "acd_ttw x = of_nat (Suc k)" unfolding Suc .
  then have "acd_ttw ?y = 1" by simp
  then have "acd_tick rs ?y = acd_tick rs (x\<lparr>acd_ttw := 0\<rparr>)" using l by (simp add: acd_tick_def acd_wait_def)
  then show ?thesis unfolding k(2) acd_ticks_add acd_idle [OF l k(1)] acd_ticks_1 by (simp add: Let_def split_def)
qed

lemma unat_rand: "unat (ucast (r mod 10) :: u16) = unat r mod 10" "unat (ucast (r mod 10 + 10) :: u16) = unat r mod 10 + 10" for r :: u32
proof -
  have m: "unat (r mod 10) = unat r mod 10" by (simp add: unat_mod)
  have p: "unat (r mod 10 + 10) = unat r mod 10 + 10" using m by (subst unat_add_no_wrap) simp_all
  show "unat (ucast (r mod 10) :: u16) = unat r mod 10" using m by (subst unat_ucast_id) simp_all
  show "unat (ucast (r mod 10 + 10) :: u16) = unat r mod 10 + 10" using p by (subst unat_ucast_id) simp_all
qed

text \<open>The timetable: three probes, two announcements, then the address is good.\<close>

definition acd_time :: "u16 \<Rightarrow> (nat \<Rightarrow> u32) \<Rightarrow> nat" where
  "acd_time ttw rs = max 1 (unat ttw) + (10 + unat (rs 0) mod 10) + (10 + unat (rs 1) mod 10) + 20 + 19"

lemma acd_timetable:
  assumes x: "acd_state x = ACD_STATE_PROBE_WAIT" "acd_sent_num x = 0" "acd_lastconflict x = 0"
  shows "\<exists>y rs'. acd_ticks (acd_time (acd_ttw x) rs) rs x = (y, rs', [Probe, Probe, Probe, Announce]) \<and>
    acd_tick rs' y = (x\<lparr>acd_state := ACD_STATE_ONGOING, acd_sent_num := 0, acd_ttw := 0, acd_num_conflicts := 0\<rparr>, rs', [Announce, Tell ACD_IP_OK])"
proof -
  let ?x1 = "x\<lparr>acd_state := ACD_STATE_PROBING, acd_sent_num := 1, acd_ttw := ucast (rs 0 mod 10 + 10)\<rparr>"
  let ?x2 = "x\<lparr>acd_state := ACD_STATE_PROBING, acd_sent_num := 2, acd_ttw := ucast (rs 1 mod 10 + 10)\<rparr>"
  let ?x3 = "x\<lparr>acd_state := ACD_STATE_ANNOUNCE_WAIT, acd_sent_num := 0, acd_ttw := 20\<rparr>"
  let ?x4 = "x\<lparr>acd_state := ACD_STATE_ANNOUNCING, acd_num_conflicts := 0, acd_sent_num := 1, acd_ttw := 20\<rparr>"
  let ?x5 = "x\<lparr>acd_state := ACD_STATE_ANNOUNCING, acd_num_conflicts := 0, acd_sent_num := 1, acd_ttw := 1\<rparr>"
  let ?r2 = "rs \<circ> Suc \<circ> Suc"
  have 1: "acd_ticks (max 1 (unat (acd_ttw x))) rs x = (?x1, rs \<circ> Suc, [Probe])"
    unfolding acd_fire [OF x(3)] using x by (cases x) (simp add: acd_tick_def acd_wait_def Let_def word_le_nat_alt)
  have "acd_ticks (10 + unat (rs 0) mod 10) (rs \<circ> Suc) ?x1 = acd_tick (rs \<circ> Suc) (?x1\<lparr>acd_ttw := 0\<rparr>)"
  proof -
    have "max 1 (unat (acd_ttw ?x1)) = 10 + unat (rs 0) mod 10" by (simp add: unat_rand)
    moreover have "acd_lastconflict ?x1 = 0" using x(3) by simp
    ultimately show ?thesis using acd_fire [of ?x1] by (simp only:)
  qed
  then have 2: "acd_ticks (10 + unat (rs 0) mod 10) (rs \<circ> Suc) ?x1 = (?x2, ?r2, [Probe])"
    using x by (cases x) (simp add: acd_tick_def acd_wait_def Let_def word_le_nat_alt comp_assoc)
  have "acd_ticks (10 + unat (rs 1) mod 10) ?r2 ?x2 = acd_tick ?r2 (?x2\<lparr>acd_ttw := 0\<rparr>)"
  proof -
    have "max 1 (unat (acd_ttw ?x2)) = 10 + unat (rs 1) mod 10" by (simp add: unat_rand)
    moreover have "acd_lastconflict ?x2 = 0" using x(3) by simp
    ultimately show ?thesis using acd_fire [of ?x2] by (simp only:)
  qed
  then have 3: "acd_ticks (10 + unat (rs 1) mod 10) ?r2 ?x2 = (?x3, ?r2, [Probe])"
    using x by (cases x) (simp add: acd_tick_def acd_wait_def Let_def word_le_nat_alt)
  have "acd_ticks 20 ?r2 ?x3 = acd_tick ?r2 (?x3\<lparr>acd_ttw := 0\<rparr>)" using acd_fire [of ?x3] x(3) by (simp del: acd_ticks.simps)
  then have 4: "acd_ticks 20 ?r2 ?x3 = (?x4, ?r2, [Announce])"
    using x by (cases x) (simp add: acd_tick_def acd_wait_def Let_def word_le_nat_alt del: acd_ticks.simps)
  have 5: "acd_ticks 19 ?r2 ?x4 = (?x5, ?r2, [])" using acd_idle [of ?x4 19 ?r2] x(3) by (simp del: acd_ticks.simps)
  have "acd_ticks (acd_time (acd_ttw x) rs) rs x = (?x5, ?r2, [Probe, Probe, Probe, Announce])"
    using acd_ticks_then [OF acd_ticks_then [OF acd_ticks_then [OF acd_ticks_then [OF 1 2] 3] 4] 5] by (simp only: acd_time_def append.simps)
  moreover have "acd_tick ?r2 ?x5 = (x\<lparr>acd_state := ACD_STATE_ONGOING, acd_sent_num := 0, acd_ttw := 0, acd_num_conflicts := 0\<rparr>, ?r2, [Announce, Tell ACD_IP_OK])"
    using x by (cases x) (simp add: acd_tick_def acd_wait_def Let_def word_le_nat_alt)
  ultimately show ?thesis by blast
qed

section \<open>One module over a driver\<close>

text \<open>One interface with one module, \<open>x\<close>; the driver is in order.\<close>

definition acd_single :: "addr set \<Rightarrow> ('w \<Rightarrow> bool) \<Rightarrow> memp_desc \<Rightarrow> memp_desc \<Rightarrow> addr \<Rightarrow> addr \<Rightarrow> acd \<Rightarrow> 'w link_state \<Rightarrow> bool" where
  "acd_single D ready dR dP netif acd x s \<longleftrightarrow> netif \<noteq> NULL \<and> acd \<noteq> NULL \<and> netif_list s = netif \<and> acds s acd = Some x \<and> acd_next x = NULL \<and>
     (\<exists>nif. netifs s netif = Some nif \<and> nif_next nif = NULL \<and> nif_acd_list nif = acd \<and> length (nif_hwaddr nif) = 6) \<and>
     pb_inv dR dP (pbm s) \<and> heap_apart D (pbm s) \<and> ready (wire s)"

fun acd_tmr_n :: "nat \<Rightarrow> 'w acd_callbacks \<Rightarrow> 'w linkoutput \<Rightarrow> 'w link_state \<Rightarrow> 'w link_state option" where
  "acd_tmr_n 0 cbs lo s = Some s"
| "acd_tmr_n (Suc n) cbs lo s = do { s \<leftarrow> acd_tmr cbs lo s; acd_tmr_n n cbs lo s }"

lemma acd_tmr_n_add: "acd_tmr_n (m + n) cbs lo s = do { s \<leftarrow> acd_tmr_n m cbs lo s; acd_tmr_n n cbs lo s }"
proof (induction m arbitrary: s)
  case (Suc m)
  then show ?case by (cases "acd_tmr cbs lo s") simp_all
qed simp

lemma acd_tmr_n_1: "acd_tmr_n 1 cbs lo s = acd_tmr cbs lo s"
  by (cases "acd_tmr cbs lo s") simp_all

lemma acd_single_set:
  "acd_single D ready dR dP netif acd x s \<Longrightarrow> acd_next y = NULL \<Longrightarrow> acd_single D ready dR dP netif acd y (set_acd acd y rs s)"
  by (simp add: acd_single_def)

lemma acd_single_same:
  assumes "acd_single D ready dR dP netif acd x s" and "same_arp s t" and "pb_inv dR dP (pbm t)" and "heap_apart D (pbm t)" and "ready (wire t)"
  shows "acd_single D ready dR dP netif acd x t"
  using assms by (simp add: acd_single_def same_arp_def)

lemma acd_tick_keeps:
  "acd_tick rs x = (x', rs', as) \<Longrightarrow> acd_next x' = acd_next x \<and> acd_ipaddr x' = acd_ipaddr x \<and> acd_conflict_callback x' = acd_conflict_callback x"
  by (auto simp: acd_tick_def acd_wait_def Let_def split: if_splits)

text \<open>A tick of the system is the tick of the module, if what the client does leaves the list alone.\<close>

lemma acd_tmr_single:
  assumes s: "acd_single D ready dR dP netif acd x s" and t: "acd_tick (rand_state s) x = (x', rs, as)"
    and r: "\<And>s'. acd_act cbs lo netif x' as (set_acd acd x' rs s) = Some s' \<Longrightarrow> \<exists>y. acd_single D ready dR dP netif acd y s'"
  shows "acd_tmr cbs lo s = acd_act cbs lo netif x' as (set_acd acd x' rs s)"
proof -
  have g: "getacd acd s = Some x" and n: "netif \<noteq> NULL" "acd \<noteq> NULL" "netif_list s = netif" using s by (simp_all add: acd_single_def getacd_def)
  obtain nif where nif: "netifs s netif = Some nif" "nif_acd_list nif = acd" using s by (auto simp: acd_single_def)
  note run = tmr_acd_refines [OF g t, of cbs lo netif]
  show ?thesis
  proof (cases "acd_act cbs lo netif x' as (set_acd acd x' rs s)")
    case None
    then show ?thesis using run n nif by (simp add: acd_tmr_def acd_tmr_netifs.simps [of cbs lo netif] acd_tmr_list.simps [of cbs lo netif acd])
  next
    case (Some s')
    then obtain y where "acd_single D ready dR dP netif acd y s'" using r by blast
    then obtain nif' where "getacd acd s' = Some y" "acd_next y = NULL" "netifs s' netif = Some nif'" "nif_next nif' = NULL"
      by (auto simp: acd_single_def getacd_def)
    then show ?thesis using run n nif Some
      by (simp add: acd_tmr_def acd_tmr_netifs.simps [of cbs lo netif] acd_tmr_list.simps [of cbs lo netif acd] acd_tmr_netifs.simps [of cbs lo NULL] acd_tmr_list.simps [of cbs lo netif NULL])
  qed
qed

text \<open>The first wait that \<open>acd_start\<close> chooses is shorter than a second.\<close>

lemma acd_start_ok:
  assumes s: "acd_single D ready dR dP netif acd x s"
  shows "\<exists>y. acd_start netif acd ip s = Some (ERR_OK, set_acd acd y (rand_state s \<circ> Suc) s) \<and> acd_single D ready dR dP netif acd y (set_acd acd y (rand_state s \<circ> Suc) s) \<and>
    acd_state y = ACD_STATE_PROBE_WAIT \<and> acd_sent_num y = 0 \<and> acd_lastconflict y = 0 \<and> acd_ipaddr y = ip \<and> unat (acd_ttw y) < 10 \<and>
    acd_conflict_callback y = acd_conflict_callback x"
proof -
  let ?y = "x\<lparr>acd_sent_num := 0, acd_lastconflict := 0, acd_ipaddr := ip, acd_state := ACD_STATE_PROBE_WAIT, acd_ttw := ucast (ACD_RANDOM_PROBE_WAIT (rand_state s 0))\<rparr>"
  have a: "acd \<noteq> NULL" "acds s acd = Some x" "acd_next ?y = NULL" using s by (simp_all add: acd_single_def)
  have "acd_start netif acd ip s = Some (ERR_OK, set_acd acd ?y (rand_state s \<circ> Suc) s)"
    using a by (simp add: acd_start_def getacd_def upd_acd_eq LWIP_RAND_def Let_def comp_def)
  moreover have "unat (acd_ttw ?y) < 10" by (simp add: ACD_RANDOM_PROBE_WAIT_def const_defs unat_rand)
  ultimately show ?thesis using acd_single_set [OF s a(3)] by auto
qed

context link_driver
begin

lemma act_live:
  assumes s: "acd_single D ready dR dP netif acd x s" and q: "\<forall>e. Tell e \<notin> set as"
  shows "\<exists>s'. acd_act cbs lo netif y as s = Some s' \<and> acd_single D ready dR dP netif acd x s' \<and> rand_state s' = rand_state s"
  using s q
proof (induction as arbitrary: s)
  case (Cons a as)
  obtain nif where nif: "netifs s netif = Some nif" "length (nif_hwaddr nif) = 6" using Cons.prems(1) by (auto simp: acd_single_def)
  have m: "length ethbroadcast = 6" "length ethzero = 6" by (simp_all add: const_defs)
  have pb: "pb_inv dR dP (pbm s)" "heap_apart D (pbm s)" "ready (wire s)" using Cons.prems(1) by (simp_all add: acd_single_def)
  have raw: "\<exists>r t. etharp_raw lo netif (nif_hwaddr nif) ethbroadcast (nif_hwaddr nif) ip ethzero (acd_ipaddr y) ARP_REQUEST s = Some (r, t) \<and>
      acd_single D ready dR dP netif acd x t \<and> rand_state t = rand_state s" for ip
  proof -
    obtain r t where t: "etharp_raw lo netif (nif_hwaddr nif) ethbroadcast (nif_hwaddr nif) ip ethzero (acd_ipaddr y) ARP_REQUEST s = Some (r, t)"
      "pb_inv dR dP (pbm t)" "heap_apart D (pbm t)" "ready (wire t)"
      using etharp_raw_ok [OF pb nif(2) m(1) nif(2) m(2), of netif ip "acd_ipaddr y" ARP_REQUEST] by blast
    have "same_arp s t" by (rule etharp_raw_same [OF t(1)])
    then show ?thesis using t acd_single_same [OF Cons.prems(1) _ t(2-4)] by (auto simp: same_arp_def)
  qed
  show ?case
  proof (cases a)
    case Probe
    then show ?thesis using raw [of IPADDR_ANY] nif(1) Cons.IH Cons.prems(2) by (fastforce simp: etharp_acd_probe_def)
  next
    case Announce
    then show ?thesis using raw [of "acd_ipaddr y"] nif(1) Cons.IH Cons.prems(2) by (fastforce simp: etharp_acd_announce_def)
  next
    case (Tell e)
    then show ?thesis using Cons.prems(2) by auto
  qed
qed auto

lemma tick_live:
  assumes s: "acd_single D ready dR dP netif acd x s" and t: "acd_tick (rand_state s) x = (x', rs, as)" and q: "\<forall>e. Tell e \<notin> set as"
  shows "\<exists>s'. acd_tmr cbs lo s = Some s' \<and> acd_single D ready dR dP netif acd x' s' \<and> rand_state s' = rs"
proof -
  have "acd_next x' = NULL" using acd_tick_keeps [OF t] s by (simp add: acd_single_def)
  note s1 = acd_single_set [OF s this, of rs]
  from act_live [OF s1 q, of cbs x'] obtain s' where s': "acd_act cbs lo netif x' as (set_acd acd x' rs s) = Some s'"
    "acd_single D ready dR dP netif acd x' s'" "rand_state s' = rs" by auto
  then show ?thesis using acd_tmr_single [OF s t, of cbs lo] by auto
qed

lemma ticks_live:
  assumes "acd_single D ready dR dP netif acd x s" and "acd_ticks n (rand_state s) x = (x', rs, as)" and "\<forall>e. Tell e \<notin> set as"
  shows "\<exists>s'. acd_tmr_n n cbs lo s = Some s' \<and> acd_single D ready dR dP netif acd x' s' \<and> rand_state s' = rs"
  using assms
proof (induction n arbitrary: s x as)
  case (Suc n)
  obtain x1 rs1 bs where t: "acd_tick (rand_state s) x = (x1, rs1, bs)" by (cases "acd_tick (rand_state s) x") auto
  obtain ds where d: "acd_ticks n rs1 x1 = (x', rs, ds)" "as = bs @ ds" using Suc.prems(2) t by (auto simp: Let_def split: prod.splits)
  obtain s1 where s1: "acd_tmr cbs lo s = Some s1" "acd_single D ready dR dP netif acd x1 s1" "rand_state s1 = rs1"
    using tick_live [OF Suc.prems(1) t] Suc.prems(3) d(2) by auto
  then show ?case using Suc.IH [OF s1(2), of ds] d Suc.prems(3) by auto
qed auto

text \<open>The tick at which the client is told that the address is good.\<close>

lemma last_tick:
  assumes s: "acd_single D ready dR dP netif acd x s" and t: "acd_tick (rand_state s) x = (x', rs, [Announce, Tell ACD_IP_OK])"
  shows "acd_tmr (\<lambda>_ _ _ _. None) lo s = None"
    and "(\<And>u. acd_single D ready dR dP netif acd x' u \<Longrightarrow>
      \<exists>u'. cbs (acd_conflict_callback x') netif ACD_IP_OK u = Some u' \<and> acd_single D ready dR dP netif acd x' u') \<Longrightarrow>
      \<exists>s'. acd_tmr cbs lo s = Some s' \<and> acd_single D ready dR dP netif acd x' s'"
proof -
  have "acd_next x' = NULL" using acd_tick_keeps [OF t] s by (simp add: acd_single_def)
  note s1 = acd_single_set [OF s this, of rs]
  have eq: "acd_act cbs lo netif x' [Announce, Tell ACD_IP_OK] u = do { u \<leftarrow> acd_act cbs lo netif x' [Announce] u; cbs (acd_conflict_callback x') netif ACD_IP_OK u }" for cbs u
    by (cases "etharp_acd_announce lo netif (acd_ipaddr x') u") auto
  obtain r u where "etharp_acd_announce lo netif (acd_ipaddr x') (set_acd acd x' rs s) = Some (r, u)" "acd_single D ready dR dP netif acd x' u"
    using act_live [OF s1, of "[Announce]" "\<lambda>_ _ _ _. None" x'] by (auto split: Option.bind_splits)
  then have u: "acd_act c lo netif x' [Announce] (set_acd acd x' rs s) = Some u" "acd_single D ready dR dP netif acd x' u" for c by simp_all
  then have none: "acd_act (\<lambda>_ _ _ _. None) lo netif x' [Announce, Tell ACD_IP_OK] (set_acd acd x' rs s) = None" unfolding eq by simp
  show "acd_tmr (\<lambda>_ _ _ _. None) lo s = None" by (subst acd_tmr_single [OF s t]) (simp_all add: none del: acd_act.simps)
  assume "\<And>u. acd_single D ready dR dP netif acd x' u \<Longrightarrow>
      \<exists>u'. cbs (acd_conflict_callback x') netif ACD_IP_OK u = Some u' \<and> acd_single D ready dR dP netif acd x' u'"
  then obtain u' where u': "cbs (acd_conflict_callback x') netif ACD_IP_OK u = Some u'" "acd_single D ready dR dP netif acd x' u'" using u(2) by blast
  then have "acd_act cbs lo netif x' [Announce, Tell ACD_IP_OK] (set_acd acd x' rs s) = Some u'" unfolding eq using u(1) by simp
  then show "\<exists>s'. acd_tmr cbs lo s = Some s' \<and> acd_single D ready dR dP netif acd x' s'"
    using acd_tmr_single [OF s t, of cbs lo] u'(2) by auto
qed

lemma claims:
  assumes s: "acd_single D ready dR dP netif acd x s" and st: "acd_start netif acd ip s = Some (e, s0)"
    and quiet: "\<And>y u. acd_single D ready dR dP netif acd y u \<Longrightarrow> acd_state y = ACD_STATE_ONGOING \<Longrightarrow>
      \<exists>u'. cbs (acd_conflict_callback x) netif ACD_IP_OK u = Some u' \<and> acd_single D ready dR dP netif acd y u'"
  shows "\<exists>N y. 61 \<le> N \<and> N \<le> 87 \<and> acds s0 acd = Some y \<and>
    snd (snd (acd_ticks N (rand_state s0) y)) = [Probe, Probe, Probe, Announce, Announce, Tell ACD_IP_OK] \<and>
    (\<forall>n<N. acd_tmr_n n (\<lambda>_ _ _ _. None) lo s0 \<noteq> None) \<and> acd_tmr_n N (\<lambda>_ _ _ _. None) lo s0 = None \<and>
    (\<exists>s' z. acd_tmr_n N cbs lo s0 = Some s' \<and> acds s' acd = Some z \<and> acd_state z = ACD_STATE_ONGOING \<and> acd_ipaddr z = ip \<and> acd_num_conflicts z = 0)"
proof -
  obtain y where y: "s0 = set_acd acd y (rand_state s \<circ> Suc) s" "acd_single D ready dR dP netif acd y s0" "acd_state y = ACD_STATE_PROBE_WAIT" "acd_sent_num y = 0"
    "acd_lastconflict y = 0" "acd_ipaddr y = ip" "unat (acd_ttw y) < 10" "acd_conflict_callback y = acd_conflict_callback x"
    using acd_start_ok [OF s, of ip] st by auto
  define M where "M = acd_time (acd_ttw y) (rand_state s0)"
  let ?z = "y\<lparr>acd_state := ACD_STATE_ONGOING, acd_sent_num := 0, acd_ttw := 0, acd_num_conflicts := 0\<rparr>"
  obtain y1 rs where t: "acd_ticks M (rand_state s0) y = (y1, rs, [Probe, Probe, Probe, Announce])" "acd_tick rs y1 = (?z, rs, [Announce, Tell ACD_IP_OK])"
    using acd_timetable [OF y(3-5), of "rand_state s0"] unfolding M_def by blast
  have "61 \<le> M + 1" "M + 1 \<le> 87" using y(7) by (auto simp: M_def acd_time_def max_def)
  moreover have "snd (snd (acd_ticks (M + 1) (rand_state s0) y)) = [Probe, Probe, Probe, Announce, Announce, Tell ACD_IP_OK]"
    using acd_ticks_then [OF t(1) t(2) [folded acd_ticks_1]] by simp
  moreover have run: "\<exists>s1. acd_tmr_n M c lo s0 = Some s1 \<and> acd_single D ready dR dP netif acd y1 s1 \<and> rand_state s1 = rs" for c
    by (rule ticks_live [OF y(2) t(1)]) simp
  have step: "acd_tmr_n (M + 1) c lo s0 = do { s \<leftarrow> acd_tmr_n M c lo s0; acd_tmr c lo s }" for c
    unfolding acd_tmr_n_add acd_tmr_n_1 ..
  have "acd_tmr_n n (\<lambda>_ _ _ _. None) lo s0 \<noteq> None" if "n < M + 1" for n
    using run [of "\<lambda>_ _ _ _. None"] acd_tmr_n_add [of n "M - n" "\<lambda>_ _ _ _. None" lo s0] that by (cases "acd_tmr_n n (\<lambda>_ _ _ _. None) lo s0") auto
  moreover have "acd_tmr_n (M + 1) (\<lambda>_ _ _ _. None) lo s0 = None"
    unfolding step using run [of "\<lambda>_ _ _ _. None"] last_tick(1) t(2) by auto
  moreover obtain s1 where s1: "acd_tmr_n M cbs lo s0 = Some s1" "acd_single D ready dR dP netif acd y1 s1" "rand_state s1 = rs" using run by blast
  have "\<exists>s'. acd_tmr cbs lo s1 = Some s' \<and> acd_single D ready dR dP netif acd ?z s'"
    by (rule last_tick(2) [OF s1(2)]) (use t(2) s1(3) quiet [of ?z] y(8) in simp_all)
  then obtain s' where "acd_tmr_n (M + 1) cbs lo s0 = Some s'" "acd_single D ready dR dP netif acd ?z s'" unfolding step using s1(1) by auto
  moreover have "acds s0 acd = Some y" by (simp add: y(1))
  ultimately show ?thesis using y(6) by (intro exI [of _ "M + 1"] exI [of _ y]) (auto simp: acd_single_def)
qed

end

section \<open>The list of modules\<close>

abbreviation anexts :: "'w link_state \<Rightarrow> addr \<Rightarrow> addr option" where
  "anexts s \<equiv> \<lambda>a. map_option acd_next (acds s a)"

text \<open>The modules of an interface, in the order of the list.\<close>

definition modules :: "'w link_state \<Rightarrow> addr \<Rightarrow> addr list \<Rightarrow> bool" where
  "modules s netif qs \<longleftrightarrow> (\<exists>nif. netifs s netif = Some nif \<and> linked (anexts s) (nif_acd_list nif) qs)"

lemma acd_on_list_ok: "linked (anexts s) p qs \<Longrightarrow> acd_on_list a p s = Some (a \<in> set qs)"
proof (induction qs arbitrary: p)
  case Nil
  then show ?case by (simp add: acd_on_list.simps)
next
  case (Cons q qs)
  then show ?case by (auto simp: acd_on_list.simps [of a q] getacd_def)
qed

lemma upd_acd_next:
  assumes "acds s a = Some x" and "acd_next (f x) = acd_next x"
  shows "anexts (upd_acd a f s) = anexts s"
  using assms by (auto simp: fun_eq_iff upd_acd_def)

lemma acd_add_ok:
  assumes a: "a \<noteq> NULL" "acds s a = Some x" and m: "modules s netif qs"
  shows "\<exists>s'. acd_add netif a k s = Some (ERR_OK, s') \<and> modules s' netif (if a \<in> set qs then qs else a # qs) \<and>
    (\<exists>y. acds s' a = Some y \<and> acd_conflict_callback y = k \<and> acd_state y = acd_state x) \<and> (\<forall>b. b \<noteq> a \<longrightarrow> acds s' b = acds s b)"
proof -
  obtain nif where nif: "netifs s netif = Some nif" "linked (anexts s) (nif_acd_list nif) qs" using m by (auto simp: modules_def)
  let ?s = "upd_acd a (\<lambda>x. x\<lparr>acd_conflict_callback := k\<rparr>) s"
  have l: "linked (anexts ?s) (nif_acd_list nif) qs" using upd_acd_next [of s a x] a(2) nif(2) by simp
  have n: "netifs ?s = netifs s" "acds ?s a = Some (x\<lparr>acd_conflict_callback := k\<rparr>)" using a(2) by (simp_all add: upd_acd_def)
  show ?thesis
  proof (cases "a \<in> set qs")
    case True
    then have "acd_add netif a k s = Some (ERR_OK, ?s)" using a nif(1) n acd_on_list_ok [OF l, of a] by (simp add: acd_add_def getacd_def Let_def)
    then show ?thesis using True l n nif(1) by (auto simp: modules_def upd_acd_def)
  next
    case False
    let ?t = "upd_acd a (\<lambda>x. x\<lparr>acd_next := nif_acd_list nif\<rparr>) ?s"
    let ?u = "?t\<lparr>netifs := (netifs ?t)(netif \<mapsto> nif\<lparr>nif_acd_list := a\<rparr>)\<rparr>"
    have run: "acd_add netif a k s = Some (ERR_OK, ?u)" using False a nif(1) n acd_on_list_ok [OF l, of a] by (simp add: acd_add_def getacd_def Let_def)
    have "linked (anexts ?u) (nif_acd_list nif) qs"
      using l False by (subst linked_cong [of qs "anexts ?u" "anexts ?s"]) (auto simp: upd_acd_def)
    then have "linked (anexts ?u) a (a # qs)" using a n(2) by (simp add: upd_acd_def)
    then show ?thesis using run False n a by (auto simp: modules_def upd_acd_def)
  qed
qed

lemma acd_remove_loop_ok:
  assumes "linked (anexts s) p qs" and "v \<noteq> NULL" and "acds s v = Some y" and "acd_next y = p" and "v \<notin> set qs"
  shows "\<exists>s'. acd_remove_loop netif a p v s = Some s' \<and> netifs s' = netifs s \<and> linked (anexts s') v (v # remove1 a qs) \<and>
    (\<forall>b. b \<notin> set (v # qs) \<longrightarrow> acds s' b = acds s b)"
  using assms
proof (induction qs arbitrary: p v y)
  case Nil
  then show ?case by (simp add: acd_remove_loop.simps)
next
  case (Cons q qs)
  obtain x where x: "p = q" "q \<noteq> NULL" "acds s q = Some x" "linked (anexts s) (acd_next x) qs" using Cons.prems(1) by auto
  have nq: "q \<notin> set qs" using linked_distinct [OF Cons.prems(1)] by simp
  show ?case
  proof (cases "q = a")
    case True
    let ?s = "upd_acd v (\<lambda>y. y\<lparr>acd_next := acd_next x\<rparr>) s"
    have "acd_remove_loop netif a p v s = Some ?s" using x True Cons.prems(2) by (simp add: acd_remove_loop.simps [of netif a] getacd_def)
    moreover have "linked (anexts ?s) (acd_next x) qs" using x(4) Cons.prems(5) by (subst linked_cong [of qs "anexts ?s" "anexts s"]) (auto simp: upd_acd_def)
    ultimately show ?thesis using True Cons.prems(2,3) by (simp add: upd_acd_def)
  next
    case False
    obtain s' where s': "acd_remove_loop netif a (acd_next x) q s = Some s'" "netifs s' = netifs s" "linked (anexts s') q (q # remove1 a qs)"
      "\<forall>b. b \<notin> set (q # qs) \<longrightarrow> acds s' b = acds s b" using Cons.IH [OF x(4,2,3) refl nq] by blast
    have "acd_remove_loop netif a p v s = Some s'" using x False s'(1) by (simp add: acd_remove_loop.simps [of netif a q] getacd_def)
    moreover have "acds s' v = Some y" using s'(4) Cons.prems(3,5) by simp
    ultimately show ?thesis using s'(2-4) x(1) Cons.prems(2,4) False by auto
  qed
qed

lemma acd_remove_ok:
  assumes m: "modules s netif qs"
  shows "\<exists>s'. acd_remove netif a s = Some s' \<and> modules s' netif (remove1 a qs)"
proof -
  obtain nif where nif: "netifs s netif = Some nif" "linked (anexts s) (nif_acd_list nif) qs" using m by (auto simp: modules_def)
  show ?thesis
  proof (cases qs)
    case Nil
    then show ?thesis using nif m by (simp add: acd_remove_def acd_remove_loop.simps)
  next
    case (Cons q qs')
    obtain x where x: "nif_acd_list nif = q" "q \<noteq> NULL" "acds s q = Some x" "linked (anexts s) (acd_next x) qs'" using nif(2) Cons by auto
    have nq: "q \<notin> set qs'" using linked_distinct [OF nif(2)] Cons by simp
    show ?thesis
    proof (cases "q = a")
      case True
      then show ?thesis using Cons x nif(1) by (simp add: acd_remove_def acd_remove_loop.simps [of netif a] getacd_def modules_def)
    next
      case False
      obtain s' where "acd_remove_loop netif a (acd_next x) q s = Some s'" "netifs s' = netifs s" "linked (anexts s') q (q # remove1 a qs')"
        using acd_remove_loop_ok [OF x(4,2,3) refl nq] by blast
      then show ?thesis using False Cons x(1-3) nif(1) by (auto simp: acd_remove_def acd_remove_loop.simps [of netif a q] getacd_def modules_def)
    qed
  qed
qed

text \<open>When the link goes down every module of the interface is off.\<close>

lemma link_down_loop_ok:
  "linked (anexts s) p qs \<Longrightarrow> \<exists>s'. link_down_loop p s = Some s' \<and> netifs s' = netifs s \<and> anexts s' = anexts s \<and>
     (\<forall>b. acds s' b = (if b \<in> set qs then map_option (\<lambda>x. x\<lparr>acd_state := ACD_STATE_OFF\<rparr>) (acds s b) else acds s b))"
proof (induction qs arbitrary: p s)
  case Nil
  then show ?case by (simp add: link_down_loop.simps)
next
  case (Cons q qs)
  obtain x where x: "p = q" "q \<noteq> NULL" "acds s q = Some x" "linked (anexts s) (acd_next x) qs" using Cons.prems by auto
  have nq: "q \<notin> set qs" using linked_distinct [OF Cons.prems] by simp
  let ?s = "upd_acd q (\<lambda>x. x\<lparr>acd_state := ACD_STATE_OFF\<rparr>) s"
  have n: "anexts ?s = anexts s" using upd_acd_next [of s q x] x(3) by simp
  then have "linked (anexts ?s) (acd_next x) qs" using x(4) by simp
  from Cons.IH [OF this] obtain s' where s': "link_down_loop (acd_next x) ?s = Some s'" "netifs s' = netifs ?s" "anexts s' = anexts ?s"
    "\<forall>b. acds s' b = (if b \<in> set qs then map_option (\<lambda>x. x\<lparr>acd_state := ACD_STATE_OFF\<rparr>) (acds ?s b) else acds ?s b)" by blast
  have "link_down_loop p s = Some s'" using x s'(1) by (simp add: link_down_loop.simps [of q] acd_stop_def getacd_def upd_acd_def)
  moreover have "netifs s' = netifs s" using s'(2) by (simp add: upd_acd_def)
  ultimately show ?case using s'(3,4) n nq x by (auto simp: upd_acd_def)
qed

lemma acd_link_down_ok:
  assumes "modules s netif qs"
  shows "\<exists>s'. acd_network_changed_link_down netif s = Some s' \<and> modules s' netif qs \<and> (\<forall>a \<in> set qs. \<exists>x. acds s' a = Some x \<and> acd_state x = ACD_STATE_OFF)"
proof -
  obtain nif where nif: "netifs s netif = Some nif" "linked (anexts s) (nif_acd_list nif) qs" using assms by (auto simp: modules_def)
  obtain s' where s': "link_down_loop (nif_acd_list nif) s = Some s'" "netifs s' = netifs s" "anexts s' = anexts s"
     "\<forall>b. acds s' b = (if b \<in> set qs then map_option (\<lambda>x. x\<lparr>acd_state := ACD_STATE_OFF\<rparr>) (acds s b) else acds s b)" using link_down_loop_ok [OF nif(2)] by blast
  have "\<exists>x. acds s' a = Some x \<and> acd_state x = ACD_STATE_OFF" if "a \<in> set qs" for a
    using linked_in_dom [OF nif(2) that] s'(4) that by auto
  then show ?thesis using s'(1-3) nif by (auto simp: acd_network_changed_link_down_def modules_def)
qed

section \<open>Properties\<close>

text \<open>
  C15 The timer function refines the state machine of RFC 5227: for every module \<open>acd_tmr\<close> counts down, and when
  the wait is over sends a probe or an announcement, changes the state, chooses the next wait and calls back the client exactly as
  \<open>acd_tick\<close> says, with the new state stored before the client is called.
\<close>

theorem acd_tmr_refines:
  assumes "getacd acd s = Some x" and "acd_tick (rand_state s) x = (x', rs, as)"
  shows "acd_tmr_acd cbs lo netif acd s = acd_act cbs lo netif x' as (s\<lparr>acds := (acds s)(acd \<mapsto> x'), rand_state := rs\<rparr>)"
  using tmr_acd_refines [OF assms] unfolding set_acd_def .

definition demo_acd :: acd where
  "demo_acd = \<lparr>acd_next = NULL, acd_ipaddr = demo_ip, acd_state = ACD_STATE_RATE_LIMIT, acd_sent_num = 0, acd_ttw = 1, acd_lastconflict = 0,
     acd_num_conflicts = 10, acd_conflict_callback = 7\<rparr>"

theorem acd_tmr_refines_witness:
  "acd_tmr_acd (\<lambda>k netif e s. if k = 7 \<and> e = ACD_RESTART_CLIENT then Some s else None) demo_lo 500 600 (demo_arp\<lparr>acds := [600 \<mapsto> demo_acd]\<rparr>) =
     Some (demo_arp\<lparr>acds := [600 \<mapsto> demo_acd\<lparr>acd_ttw := 0, acd_state := ACD_STATE_OFF\<rparr>]\<rparr>)"
proof -
  let ?s = "demo_arp\<lparr>acds := [600 \<mapsto> demo_acd]\<rparr>"
  have x: "getacd 600 ?s = Some demo_acd" by (simp add: getacd_def)
  have t: "acd_tick (rand_state ?s) demo_acd = (demo_acd\<lparr>acd_ttw := 0, acd_state := ACD_STATE_OFF\<rparr>, rand_state ?s, [Tell ACD_RESTART_CLIENT])"
    by (simp add: acd_tick_def acd_wait_def demo_acd_def)
  show ?thesis unfolding acd_tmr_refines [OF x t] by (simp add: demo_acd_def demo_arp_def)
qed

text \<open>
  The list of modules of an interface: \<open>acd_add\<close> sets the callback and puts a module in front unless it
  is there already, \<open>acd_remove\<close> takes it out wherever it stands, so that removing a module that was added gives the list back, and \<open>acd_network_changed_link_down\<close> switches
  off exactly the modules of the interface.
\<close>

lemma acd_list_correct:
  assumes "a \<noteq> NULL" and "acds s a = Some x" and "modules s netif qs"
  shows "\<exists>s1 s2. acd_add netif a k s = Some (ERR_OK, s1) \<and> modules s1 netif (if a \<in> set qs then qs else a # qs) \<and>
    (\<exists>y. acds s1 a = Some y \<and> acd_conflict_callback y = k \<and> acd_state y = acd_state x) \<and> (\<forall>b. b \<noteq> a \<longrightarrow> acds s1 b = acds s b) \<and>
    acd_remove netif a s1 = Some s2 \<and> modules s2 netif (remove1 a qs) \<and>
    (\<exists>s3. acd_network_changed_link_down netif s1 = Some s3 \<and> (\<forall>b \<in> set (a # qs). \<exists>y. acds s3 b = Some y \<and> acd_state y = ACD_STATE_OFF))"
proof -
  obtain s1 where s1: "acd_add netif a k s = Some (ERR_OK, s1)" "modules s1 netif (if a \<in> set qs then qs else a # qs)"
    "\<exists>y. acds s1 a = Some y \<and> acd_conflict_callback y = k \<and> acd_state y = acd_state x" "\<forall>b. b \<noteq> a \<longrightarrow> acds s1 b = acds s b"
    using acd_add_ok [OF assms] by blast
  obtain s2 where "acd_remove netif a s1 = Some s2" "modules s2 netif (remove1 a (if a \<in> set qs then qs else a # qs))"
    using acd_remove_ok [OF s1(2)] by blast
  moreover have "remove1 a (if a \<in> set qs then qs else a # qs) = remove1 a qs" by (simp add: remove1_idem)
  moreover have "set (if a \<in> set qs then qs else a # qs) = set (a # qs)" by auto
  ultimately show ?thesis using s1 acd_link_down_ok [OF s1(2)] by metis
qed

text \<open>
  C17 What a conflict leads to: the client is told to decline, and then either the module is switched off and the client asked
  to start again, or the module waits for a minute. The number of conflicts since the last announcement is kept in
  eight bits: the wait is chosen exactly when the number modulo 256 is at least ten, so the 256th conflict in a row lifts the limit.
\<close>

theorem acd_restart_limits:
  assumes "getacd acd s = Some x"
    and "cbs (acd_conflict_callback x) netif ACD_DECLINE (upd_acd acd (\<lambda>x. x\<lparr>acd_num_conflicts := acd_num_conflicts x + 1\<rparr>) s) = Some s1"
    and "getacd acd s1 = Some y" and "acd_num_conflicts y = acd_num_conflicts x + 1"
  shows "acd_restart cbs netif acd s =
    (if (unat (acd_num_conflicts x) + 1) mod 256 \<ge> 10
     then Some (s1\<lparr>acds := (acds s1)(acd \<mapsto> y\<lparr>acd_state := ACD_STATE_RATE_LIMIT, acd_ttw := 600\<rparr>)\<rparr>)
     else cbs (acd_conflict_callback y) netif ACD_RESTART_CLIENT (s1\<lparr>acds := (acds s1)(acd \<mapsto> y\<lparr>acd_state := ACD_STATE_OFF\<rparr>)\<rparr>))"
proof -
  have a: "acd \<noteq> NULL" "acds s acd = Some x" "acds s1 acd = Some y" using assms(1,3) by (auto simp: getacd_def split: if_splits)
  have "unat (acd_num_conflicts x + 1) = (unat (acd_num_conflicts x) + 1) mod 256" by (simp add: unat_word_ariths)
  then have "acd_num_conflicts y \<ge> MAX_CONFLICTS \<longleftrightarrow> (unat (acd_num_conflicts x) + 1) mod 256 \<ge> 10"
    unfolding assms(4) by (simp add: word_le_nat_alt const_defs)
  then show ?thesis using assms(2) a
    by (simp add: acd_restart_def acd_stop_def getacd_def upd_acd_def const_defs)
qed

theorem acd_restart_limits_witness:
  "\<exists>s'. acd_restart (\<lambda>k netif e s. Some s) 500 600 (demo_arp\<lparr>acds := [600 \<mapsto> demo_acd\<lparr>acd_num_conflicts := 255\<rparr>]\<rparr>) = Some s' \<and>
     acds s' 600 = Some (demo_acd\<lparr>acd_num_conflicts := 0, acd_state := ACD_STATE_OFF\<rparr>)"
proof -
  let ?x = "demo_acd\<lparr>acd_num_conflicts := 255\<rparr>" let ?y = "demo_acd\<lparr>acd_num_conflicts := 0\<rparr>"
  let ?s = "demo_arp\<lparr>acds := [600 \<mapsto> ?x]\<rparr>" let ?s1 = "demo_arp\<lparr>acds := [600 \<mapsto> ?y]\<rparr>"
  have z: "(256 :: u8) = 0" by (simp add: word_unat_eq_iff)
  have "acd_restart (\<lambda>k netif e s. Some s) 500 600 ?s =
    (if (unat (acd_num_conflicts ?x) + 1) mod 256 \<ge> 10
     then Some (?s1\<lparr>acds := (acds ?s1)(600 \<mapsto> ?y\<lparr>acd_state := ACD_STATE_RATE_LIMIT, acd_ttw := 600\<rparr>)\<rparr>)
     else Some (?s1\<lparr>acds := (acds ?s1)(600 \<mapsto> ?y\<lparr>acd_state := ACD_STATE_OFF\<rparr>)\<rparr>))"
    by (rule acd_restart_limits) (simp_all add: getacd_def upd_acd_def z)
  then show ?thesis by simp
qed

end
