(* ===== verification/Ethernet_Input.thy ===== *)
theory Ethernet_Input
  imports Acd
begin

text \<open>
  Reception on the link layer: \<open>etharp_input\<close> of \<open>lwip/src/core/ipv4/etharp.c\<close> and \<open>ethernet_input\<close> of
  \<open>lwip/src/netif/ethernet.c\<close>, in the configuration of the port (no VLAN, no PPPoE, no hooks). \<open>ip4_input\<close> and
  \<open>ip6_input\<close> are parameters. An ARP packet is read at the address of its payload, field by field, as the code does.
\<close>

unbundle bit_operations_syntax

section \<open>ARP packets\<close>

text \<open>The end of both functions: the packet is released.\<close>

definition input_free :: "addr \<Rightarrow> 'w link_state \<Rightarrow> 'w link_state option" where
  "input_free p s = map_option (\<lambda>(_, b). s\<lparr>pbm := b\<rparr>) (pbuf_free p (pbm s))"

definition etharp_input :: "'w acd_callbacks \<Rightarrow> 'w linkoutput \<Rightarrow> addr \<Rightarrow> addr \<Rightarrow> 'w link_state \<Rightarrow> 'w link_state option" where
  "etharp_input cbs lo p netif s =
     (if netif = NULL then Some s
      else do {
        c \<leftarrow> getp p (pbm s);
        let h = pb_payload c;
        let m = bytes (pbm s);
        if rd16 m h \<noteq> lwip_htons 1 \<or> m (h + 4) \<noteq> 6 \<or> m (h + 5) \<noteq> 4 \<or> rd16 m (h + 2) \<noteq> lwip_htons ETHTYPE_IP
        then input_free p (ETHARP_STATS_INC sp_drop_update (ETHARP_STATS_INC sp_proterr_update s))
        else do {
          s \<leftarrow> acd_arp_reply cbs lo netif h (ETHARP_STATS_INC sp_recv_update s);
          let m = bytes (pbm s);
          let sipaddr = rd32 m (h + 14);
          let dipaddr = rd32 m (h + 24);
          nif \<leftarrow> netifs s netif;
          let for_us = (\<not> ip4_addr_isany (nif_ip_addr nif) \<and> dipaddr = nif_ip_addr nif);
          let from_us = (\<not> ip4_addr_isany (nif_ip_addr nif) \<and> sipaddr = nif_ip_addr nif);
          (_, s) \<leftarrow> etharp_update_arp_entry lo netif sipaddr (rdmac m (h + 8)) (if for_us then ETHARP_FLAG_TRY_HARD else ETHARP_FLAG_FIND_ONLY) s;
          let m = bytes (pbm s);
          s \<leftarrow> (if rd16 m (h + 6) = lwip_htons ARP_REQUEST then
                  (if for_us \<and> \<not> from_us then do {
                     nif \<leftarrow> netifs s netif;
                     (_, s) \<leftarrow> etharp_raw lo netif (nif_hwaddr nif) (rdmac m (h + 8)) (nif_hwaddr nif) (nif_ip_addr nif) (rdmac m (h + 8)) sipaddr ARP_REPLY s;
                     Some s
                   } else Some s)
                else if rd16 m (h + 6) = lwip_htons ARP_REPLY then Some s
                else Some (ETHARP_STATS_INC sp_err_update s));
          input_free p s
        }
      })"

section \<open>Frames\<close>

definition PBUF_FLAG_LLBCAST :: u8 where [const_defs]: "PBUF_FLAG_LLBCAST = 0x08"
definition PBUF_FLAG_LLMCAST :: u8 where [const_defs]: "PBUF_FLAG_LLMCAST = 0x10"
definition NETIF_FLAG_ETHARP :: u8 where [const_defs]: "NETIF_FLAG_ETHARP = 0x08"

text \<open>The flags that \<open>ethernet_input\<close> adds for the destination \<open>dest\<close> of the frame.\<close>

definition ll_flags :: "eth_addr \<Rightarrow> u8" where
  "ll_flags dest =
     (if dest ! 0 AND 1 \<noteq> 0 then
        (if dest ! 0 = 0x01 then (if dest ! 1 = 0x00 \<and> dest ! 2 = 0x5E then PBUF_FLAG_LLMCAST else 0)
         else if dest ! 0 = 0x33 \<and> dest ! 1 = 0x33 then PBUF_FLAG_LLMCAST
         else if dest = ethbroadcast then PBUF_FLAG_LLBCAST
         else 0)
      else 0)"

definition ethernet_input ::
  "(addr \<Rightarrow> addr \<Rightarrow> 'w link_state \<Rightarrow> 'w link_state option) \<Rightarrow> (addr \<Rightarrow> addr \<Rightarrow> 'w link_state \<Rightarrow> 'w link_state option) \<Rightarrow>
   'w acd_callbacks \<Rightarrow> 'w linkoutput \<Rightarrow> addr \<Rightarrow> addr \<Rightarrow> 'w link_state \<Rightarrow> (err_t \<times> 'w link_state) option" where
  "ethernet_input ip4_input ip6_input cbs lo p netif s = map_option (\<lambda>s. (ERR_OK, s))
     (do {
       c \<leftarrow> getp p (pbm s);
       if unat (pb_len c) \<le> SIZEOF_ETH_HDR
       then input_free p (ETHARP_STATS_INC sp_drop_update (ETHARP_STATS_INC sp_proterr_update s))
       else do {
         let m = bytes (pbm s);
         let ethhdr = pb_payload c;
         let type = rd16 m (ethhdr + 14);
         c \<leftarrow> (if pb_if_idx c = 0 then do { nif \<leftarrow> netifs s netif; Some (c\<lparr>pb_if_idx := nif_num nif + 1\<rparr>) } else Some c);
         let c = c\<lparr>pb_flags := pb_flags c OR ll_flags (rdmac m (ethhdr + 2))\<rparr>;
         let s = s\<lparr>pbm := putp p c (pbm s)\<rparr>;
         if type = lwip_htons ETHTYPE_IP then do {
           nif \<leftarrow> netifs s netif;
           if nif_flags nif AND NETIF_FLAG_ETHARP = 0 then input_free p s
           else do {
             (r, b) \<leftarrow> pbuf_remove_header p SIZEOF_ETH_HDR (pbm s);
             let s = s\<lparr>pbm := b\<rparr>;
             if r \<noteq> 0 then input_free p s else ip4_input p netif s
           }
         }
         else if type = lwip_htons ETHTYPE_ARP then do {
           nif \<leftarrow> netifs s netif;
           if nif_flags nif AND NETIF_FLAG_ETHARP = 0 then input_free p s
           else do {
             (r, b) \<leftarrow> pbuf_remove_header p SIZEOF_ETH_HDR (pbm s);
             let s = s\<lparr>pbm := b\<rparr>;
             if r \<noteq> 0 then input_free p (ETHARP_STATS_INC sp_drop_update (ETHARP_STATS_INC sp_lenerr_update s))
             else etharp_input cbs lo p netif s
           }
         }
         else if type = lwip_htons ETHTYPE_IPV6 then do {
           c \<leftarrow> getp p (pbm s);
           if unat (pb_len c) < SIZEOF_ETH_HDR then input_free p s
           else do {
             (r, b) \<leftarrow> pbuf_remove_header p SIZEOF_ETH_HDR (pbm s);
             let s = s\<lparr>pbm := b\<rparr>;
             if r \<noteq> 0 then input_free p s else ip6_input p netif s
           }
         }
         else input_free p (ETHARP_STATS_INC sp_drop_update (ETHARP_STATS_INC sp_proterr_update s))
       }
     })"


section \<open>Reading an ARP packet\<close>

lemma le16_inject: "le16 x = le16 y \<Longrightarrow> x = y"
proof (rule bit_eqI)
  fix n assume "le16 x = le16 y" and n: "possible_bit TYPE(u16) n"
  then have e: "bit (ucast x :: u8) k = bit (ucast y :: u8) k" "bit (ucast (drop_bit 8 x) :: u8) k = bit (ucast (drop_bit 8 y) :: u8) k" for k
    by (simp_all add: le16_def)
  show "bit x n = bit y n"
  proof (cases "n < 8")
    case True
    then show ?thesis using e(1) [of n] by (simp add: bit_simps)
  next
    case False
    then show ?thesis using e(2) [of "n - 8"] n by (auto simp: bit_simps)
  qed
qed

lemma le16_rd16: "le16 (rd16 m a) = [m a, m (a + 1)]"
proof -
  have "\<not> bit (m a) (8 + n)" for n using bit_imp_le_length [of "m a" "8 + n"] by auto
  then show ?thesis unfolding le16_def rd16_def by (auto intro!: bit_eqI simp: bit_simps)
qed

lemma rd16_be16: "map m [a..<a + 2] = be16 x \<Longrightarrow> rd16 m a = lwip_htons x"
proof -
  assume "map m [a..<a + 2] = be16 x"
  then have "le16 (rd16 m a) = le16 (lwip_htons x)" unfolding le16_htons le16_rd16 by (simp add: upt_rec)
  then show ?thesis by (rule le16_inject)
qed

lemma rd32_addr: "map m [a..<a + 4] = addr_bytes x \<Longrightarrow> rd32 m a = x"
proof -
  assume "map m [a..<a + 4] = addr_bytes x"
  then have e: "m a = ucast x" "m (a + 1) = ucast (drop_bit 8 x)" "m (a + 2) = ucast (drop_bit 16 x)" "m (a + 3) = ucast (drop_bit 24 x)"
    by (simp_all add: addr_bytes_def upt_rec numeral_eq_Suc)
  show ?thesis unfolding rd32_def e
  proof (rule bit_eqI)
    fix n assume "possible_bit TYPE(u32) n"
    then consider "n < 8" | "8 \<le> n" "n < 16" | "16 \<le> n" "n < 24" | "24 \<le> n" "n < 32" by force
    then show "bit (ucast (ucast x :: u8) OR push_bit 8 (ucast (ucast (drop_bit 8 x) :: u8)) OR push_bit 16 (ucast (ucast (drop_bit 16 x) :: u8)) OR
        push_bit 24 (ucast (ucast (drop_bit 24 x) :: u8)) :: u32) n = bit x n" by cases (auto simp: bit_simps)
  qed
qed

lemma map_segment:
  assumes "map m [h..<h + n] = xs" and "i + k \<le> n"
  shows "map m [h + i..<h + i + k] = take k (drop i xs)"
  using assms by (auto simp: take_map drop_map add.assoc)

text \<open>What the sender of an ARP packet put in is what \<open>etharp_input\<close> reads.\<close>

lemma arp_packet_read:
  assumes p: "map m [h..<h + 28] = arp_packet op hs ips ht ipd" and l: "length hs = 6" "length ht = 6"
  shows "rd16 m h = lwip_htons 1" "rd16 m (h + 2) = lwip_htons ETHTYPE_IP" "m (h + 4) = 6" "m (h + 5) = 4" "rd16 m (h + 6) = lwip_htons op"
    "rdmac m (h + 8) = hs" "rd32 m (h + 14) = ips" "rdmac m (h + 18) = ht" "rd32 m (h + 24) = ipd"
proof -
  note seg = map_segment [OF p]
  have a: "arp_packet op hs ips ht ipd = be16 1 @ be16 ETHTYPE_IP @ [6, 4] @ be16 op @ hs @ addr_bytes ips @ ht @ addr_bytes ipd" by (simp add: arp_packet_def)
  show "rd16 m h = lwip_htons 1" using seg [of 0 2] by (intro rd16_be16) (simp add: a)
  show "rd16 m (h + 2) = lwip_htons ETHTYPE_IP" using seg [of 2 2] by (intro rd16_be16) (simp add: a)
  have "map m [h + 4..<h + 4 + 2] = [6, 4]" using seg [of 4 2] by (simp add: a)
  then show "m (h + 4) = 6" "m (h + 5) = 4" by (simp_all add: upt_rec numeral_eq_Suc)
  show "rd16 m (h + 6) = lwip_htons op" using seg [of 6 2] by (intro rd16_be16) (simp add: a)
  show "rdmac m (h + 8) = hs" using seg [of 8 6] l by (simp add: a rdmac_def)
  show "rd32 m (h + 14) = ips" using seg [of 14 4] l by (intro rd32_addr) (simp add: a)
  show "rdmac m (h + 18) = ht" using seg [of 18 6] l by (simp add: a rdmac_def)
  show "rd32 m (h + 24) = ipd" using seg [of 24 4] l by (intro rd32_addr) (simp add: a)
qed

section \<open>Answering a request\<close>

text \<open>While no packet waits for an address, an address can always be learned, and nothing is sent.\<close>

lemma find_entry_idle:
  assumes inv: "arp_inv d s Q" and n: "netif \<noteq> NULL" and e: "q_ents s = Map.empty"
  shows "\<exists>i s1. i < 10 \<and> etharp_find_entry (Some ip) ETHARP_FLAG_TRY_HARD netif s = Some (Inr i, s1) \<and> pbm s1 = pbm s \<and> wire s1 = wire s \<and> q_ents s1 = Map.empty"
proof -
  have f: "ETHARP_FLAG_TRY_HARD AND ETHARP_FLAG_FIND_ONLY = 0" "ETHARP_FLAG_TRY_HARD AND ETHARP_FLAG_TRY_HARD \<noteq> 0" by (simp_all add: const_defs)
  have t: "length (arp_table s) = 10" using inv by (simp add: arp_inv_def table_ok_def)
  have "elems_of Q = {}" using inv e by (auto simp: arp_inv_def queues_ok_def)
  then have Q: "Q i = []" if "i < 10" for i using that by (simp add: elems_of_def)
  have ff: "pbm (find_fill (Some ip) netif i u) = pbm u" "wire (find_fill (Some ip) netif i u) = wire u" "q_ents (find_fill (Some ip) netif i u) = q_ents u"
    for i and u :: "'a link_state" by (simp_all add: find_fill_def)
  note F = find_entry_ok [OF inv n, of ip ETHARP_FLAG_TRY_HARD]
  show ?thesis
  proof (cases "\<exists>i<10. arp_match (Some ip) netif (arp_table s ! i)")
    case True
    then show ?thesis using F e by blast
  next
    case False
    show ?thesis
    proof (cases "\<exists>e \<in> set (arp_table s). is_empty e")
      case True
      then obtain i where "i < 10" "etharp_find_entry (Some ip) ETHARP_FLAG_TRY_HARD netif s = Some (Inr i, find_fill (Some ip) netif i s)"
        using F False f by auto
      then show ?thesis using e ff by auto
    next
      case full: False
      then obtain i where i: "i < 10" "etharp_find_entry (Some ip) ETHARP_FLAG_TRY_HARD netif s =
          map_option (\<lambda>b. (Inr i, find_fill (Some ip) netif i ((release (Q i) (s\<lparr>arp_table := (arp_table s)[i := entry_clear]\<rparr>))\<lparr>pbm := b\<rparr>)))
           (free_all (waiting s Q i) (pbm s))"
        using F False f by auto
      then show ?thesis using Q [OF i(1)] e ff by (auto simp: waiting_def)
    qed
  qed
qed

lemma learn_idle:
  assumes inv: "arp_inv d s Q" and nif: "netifs s netif = Some nif" and e: "q_ents s = Map.empty"
    and uni: "\<not> (ip4_addr_isany ip \<or> ip4_addr_isbroadcast_u32 ip nif \<or> ip4_addr_ismulticast ip)"
  shows "\<exists>i t Q'. i < 10 \<and> etharp_update_arp_entry lo netif ip mac ETHARP_FLAG_TRY_HARD s = Some (ERR_OK, t) \<and> arp_inv d t Q' \<and> pbm t = pbm s \<and> wire t = wire s \<and>
    netifs t = netifs s \<and> q_ents t = Map.empty \<and>
    arp_table t ! i = \<lparr>ae_q = NULL, ae_ipaddr = ip, ae_netif = netif, ae_ethaddr = mac, ae_ctime = 0, ae_state = ETHARP_STATE_STABLE\<rparr>"
proof -
  have n: "netif \<noteq> NULL" by (rule netif_not_null [OF inv nif])
  obtain i s1 where f: "i < 10" "etharp_find_entry (Some ip) ETHARP_FLAG_TRY_HARD netif s = Some (Inr i, s1)" "pbm s1 = pbm s" "wire s1 = wire s" "q_ents s1 = Map.empty"
    using find_entry_idle [OF inv n e] by blast
  obtain Q1 where Q1: "arp_inv d s1 Q1" "ae_ipaddr (arp_table s1 ! i) = ip" "netifs s1 = netifs s"
    "\<forall>j<10. j \<noteq> i \<longrightarrow> \<not> is_empty (arp_table s1 ! j) \<longrightarrow> ip \<noteq> ae_ipaddr (arp_table s1 ! j) \<or> netif \<noteq> ae_netif (arp_table s1 ! j)"
    using find_entry_inv [OF inv n f(2)] by blast
  have "elems_of Q1 = {}" using Q1(1) f(5) by (auto simp: arp_inv_def queues_ok_def)
  then have q: "Q1 i = []" "waiting s1 Q1 i = []" using f(1) by (simp_all add: elems_of_def waiting_def)
  let ?t = "upd_entry i (\<lambda>e. e\<lparr>ae_state := ETHARP_STATE_STABLE, ae_netif := netif, ae_ethaddr := mac, ae_ctime := 0, ae_q := NULL\<rparr>) s1"
  have "etharp_update_arp_entry lo netif ip mac ETHARP_FLAG_TRY_HARD s = Some (ERR_OK, ?t)"
    using update_arp_eq [OF nif uni f(2) Q1(1) f(1) Q1(3), of lo mac] unfolding q by simp
  moreover have "arp_inv d ?t (Q1(i := []))" using update_inv [OF Q1(1) f(1) Q1(2,4), of mac] unfolding q by simp
  moreover have "length (arp_table s1) = 10" using Q1(1) by (simp add: arp_inv_def table_ok_def)
  then have "arp_table ?t ! i = \<lparr>ae_q = NULL, ae_ipaddr = ip, ae_netif = netif, ae_ethaddr = mac, ae_ctime = 0, ae_state = ETHARP_STATE_STABLE\<rparr>"
    using f(1) Q1(2) by (cases "arp_table s1 ! i") simp
  ultimately show ?thesis using f(1,3-5) Q1(3) by fastforce
qed

lemma acd_reply_none: "netifs s netif = Some nif \<Longrightarrow> nif_acd_list nif = NULL \<Longrightarrow> acd_arp_reply cbs lo netif h s = Some s"
  by (simp add: acd_arp_reply_def Let_def acd_reply_loop.simps [of cbs lo netif h])

context link_driver
begin

lemma input_replies:
  assumes inv: "arp_inv d s Q" and e: "q_ents s = Map.empty" and pb: "pb_inv dR dP (pbm s)" "heap_apart D (pbm s)" "ready (wire s)"
    and nif: "netifs s netif = Some nif" "nif_acd_list nif = NULL" "length (nif_hwaddr nif) = 6" "\<not> ip4_addr_isany (nif_ip_addr nif)"
    and c: "getp p (pbm s) = Some c" "linked (nexts (pbm s)) p qs" "\<forall>q \<in> set qs. src_ok (pb (pbm s) q)"
    and pk: "map (bytes (pbm s)) [pb_payload c..<pb_payload c + 28] = arp_packet ARP_REQUEST mac ip tha (nif_ip_addr nif)" "length mac = 6" "length tha = 6"
    and uni: "\<not> (ip4_addr_isany ip \<or> ip4_addr_isbroadcast_u32 ip nif \<or> ip4_addr_ismulticast ip)" and them: "ip \<noteq> nif_ip_addr nif"
  shows "\<exists>s' Q'. etharp_input cbs lo p netif s = Some s' \<and> arp_inv d s' Q' \<and> pb_inv dR dP (pbm s') \<and> ready (wire s') \<and>
    pbufs (pbm s') = free_store (pbufs (pbm s)) qs \<and>
    (\<exists>i<10. arp_table s' ! i = \<lparr>ae_q = NULL, ae_ipaddr = ip, ae_netif = netif, ae_ethaddr = mac, ae_ctime = 0, ae_state = ETHARP_STATE_STABLE\<rparr>) \<and>
    ((good (wire s) \<longrightarrow> last_frame (bytes (pbm s')) (wire s') =
        eth_padded ((if ip4_addr_islinklocal (nif_ip_addr nif) then ethbroadcast else mac) @ nif_hwaddr nif @ be16 ETHTYPE_ARP @
          arp_packet ARP_REPLY (nif_hwaddr nif) (nif_ip_addr nif) mac ip)) \<or> wire s' = wire s)"
proof -
  note rd = arp_packet_read [OF pk]
  have n: "netif \<noteq> NULL" by (rule netif_not_null [OF inv nif(1)])
  let ?s = "ETHARP_STATS_INC sp_recv_update s" and ?h = "pb_payload c"
  have s1: "pbm ?s = pbm s" "wire ?s = wire s" "netifs ?s = netifs s" "q_ents ?s = Map.empty" using e by (simp_all add: ETHARP_STATS_INC_def)
  have "arp_inv d ?s Q" using inv by simp
  from learn_idle [OF this _ s1(4) uni, of netif lo mac] nif(1) s1(3)
  obtain i t Q' where t: "i < 10" "etharp_update_arp_entry lo netif ip mac ETHARP_FLAG_TRY_HARD ?s = Some (ERR_OK, t)" "arp_inv d t Q'" "pbm t = pbm s" "wire t = wire s"
    "netifs t = netifs s" "arp_table t ! i = \<lparr>ae_q = NULL, ae_ipaddr = ip, ae_netif = netif, ae_ethaddr = mac, ae_ctime = 0, ae_state = ETHARP_STATE_STABLE\<rparr>"
    unfolding s1 by auto
  obtain r u where u: "etharp_raw lo netif (nif_hwaddr nif) mac (nif_hwaddr nif) (nif_ip_addr nif) mac ip ARP_REPLY t = Some (r, u)"
    "pb_inv dR dP (pbm u)" "ready (wire u)" "pbufs (pbm u) = pbufs (pbm s)"
    "if r = ERR_OK then good (wire s) \<longrightarrow> last_frame (bytes (pbm u)) (wire u) =
        eth_padded ((if ip4_addr_islinklocal (nif_ip_addr nif) then ethbroadcast else mac) @ nif_hwaddr nif @ be16 ETHTYPE_ARP @
          arp_packet ARP_REPLY (nif_hwaddr nif) (nif_ip_addr nif) mac ip) else r = ERR_MEM \<and> wire u = wire s"
    using etharp_raw_ok [of dR dP t "nif_hwaddr nif" mac "nif_hwaddr nif" mac netif "nif_ip_addr nif" ip ARP_REPLY] pb nif(3) pk(2) unfolding t(4,5) by blast
  have "linked (nexts (pbm u)) p qs" "\<forall>q \<in> set qs. src_ok (pb (pbm u) q)" using c(2,3) unfolding u(4) by auto
  from pbuf_free_ok [OF u(2) this] obtain k b where b: "pbuf_free p (pbm u) = Some (k, b)" "pb_inv dR dP b" "pbufs b = free_store (pbufs (pbm s)) qs" "bytes b = bytes (pbm u)"
    unfolding u(4) by blast
  have "etharp_input cbs lo p netif s = Some (u\<lparr>pbm := b\<rparr>)"
    using n c(1) nif s1 acd_reply_none [of ?s netif nif cbs lo ?h] t(2,4,6) u(1) b(1) them
    by (simp add: etharp_input_def Let_def rd input_free_def del: add_2_eq_Suc')
  moreover have "same_arp t u" by (rule etharp_raw_same [OF u(1)])
  then have "arp_inv d (u\<lparr>pbm := b\<rparr>) Q'" "arp_table u = arp_table t" using arp_inv_same [OF t(3)] by (simp_all add: same_arp_def)
  ultimately show ?thesis using b(2-4) u(3,5) t(1,7) by (intro exI [of _ "u\<lparr>pbm := b\<rparr>"] exI [of _ Q']) (auto split: if_splits)
qed

end

section \<open>Taking a frame apart\<close>

text \<open>The pbuf of a received frame, marked with the interface and with how it was addressed.\<close>

definition rx_mark :: "eth_netif \<Rightarrow> eth_addr \<Rightarrow> pbuf \<Rightarrow> pbuf" where
  "rx_mark nif dest c = c\<lparr>pb_if_idx := (if pb_if_idx c = 0 then nif_num nif + 1 else pb_if_idx c), pb_flags := pb_flags c OR ll_flags dest\<rparr>"

lemma rx_mark_fields [simp]:
  "pb_next (rx_mark nif dest c) = pb_next c" "pb_payload (rx_mark nif dest c) = pb_payload c" "pb_len (rx_mark nif dest c) = pb_len c"
  "pb_tot_len (rx_mark nif dest c) = pb_tot_len c" "pb_ref (rx_mark nif dest c) = pb_ref c" "pb_type_internal (rx_mark nif dest c) = pb_type_internal c"
  by (simp_all add: rx_mark_def)

lemma rx_mark_custom [simp]: "is_custom (rx_mark nif dest c) = is_custom c"
  by (simp add: rx_mark_def is_custom_def ll_flags_def bit.conj_disj_distrib2 const_defs)

lemma rx_mark_src [simp]: "src_of (rx_mark nif dest c) = src_of c" "src_ok (rx_mark nif dest c) = src_ok c"
  by (simp_all add: src_of_def src_ok_def pbuf_get_allocsrc_def)

text \<open>A frame longer than its header is looked at: the type decides.\<close>

lemma ethernet_input_long:
  assumes g: "getp p (pbm s) = Some c" and nif: "netifs s netif = Some nif" and len: "16 < unat (pb_len c)"
  defines "v \<equiv> s\<lparr>pbm := putp p (rx_mark nif (rdmac (bytes (pbm s)) (pb_payload c + 2)) c) (pbm s)\<rparr>"
    and "ty \<equiv> rd16 (bytes (pbm s)) (pb_payload c + 14)"
  shows "ethernet_input ip4 ip6 cbs lo p netif s = map_option (\<lambda>s. (ERR_OK, s))
    (if ty \<in> {lwip_htons ETHTYPE_IP, lwip_htons ETHTYPE_ARP} \<and> nif_flags nif AND NETIF_FLAG_ETHARP = 0 then input_free p v
     else if ty \<in> {lwip_htons ETHTYPE_IP, lwip_htons ETHTYPE_ARP, lwip_htons ETHTYPE_IPV6} then do {
       (r, b) \<leftarrow> pbuf_remove_header p 16 (pbm v);
       let u = v\<lparr>pbm := b\<rparr>;
       if ty = lwip_htons ETHTYPE_IP then (if r \<noteq> 0 then input_free p u else ip4 p netif u)
       else if ty = lwip_htons ETHTYPE_ARP then
         (if r \<noteq> 0 then input_free p (ETHARP_STATS_INC sp_drop_update (ETHARP_STATS_INC sp_lenerr_update u)) else etharp_input cbs lo p netif u)
       else (if r \<noteq> 0 then input_free p u else ip6 p netif u)
     }
     else input_free p (ETHARP_STATS_INC sp_drop_update (ETHARP_STATS_INC sp_proterr_update v)))"
proof -
  have h: "lwip_htons ETHTYPE_IP \<noteq> lwip_htons ETHTYPE_ARP" "lwip_htons ETHTYPE_IP \<noteq> lwip_htons ETHTYPE_IPV6" "lwip_htons ETHTYPE_ARP \<noteq> lwip_htons ETHTYPE_IPV6"
    by (simp_all add: const_defs lwip_htons_def)
  have p: "p \<noteq> NULL" using g by (simp add: getp_some)
  have mark: "(if pb_if_idx c = 0 then do { nif \<leftarrow> netifs s netif; Some (c\<lparr>pb_if_idx := nif_num nif + 1\<rparr>) } else Some c) =
      Some (c\<lparr>pb_if_idx := (if pb_if_idx c = 0 then nif_num nif + 1 else pb_if_idx c)\<rparr>)" using nif by simp
  have e: "(c\<lparr>pb_if_idx := x\<rparr>)\<lparr>pb_flags := pb_flags (c\<lparr>pb_if_idx := x\<rparr>) OR f\<rparr> = c\<lparr>pb_if_idx := x, pb_flags := pb_flags c OR f\<rparr>" for x f by simp
  have gv: "getp p (pbm v) = Some (rx_mark nif (rdmac (bytes (pbm s)) (pb_payload c + 2)) c)" "netifs v netif = Some nif"
    using p nif by (simp_all add: v_def getp_def)
  have l: "\<not> unat (pb_len c) \<le> SIZEOF_ETH_HDR" "\<not> unat (pb_len c) < SIZEOF_ETH_HDR" "SIZEOF_ETH_HDR = 16" using len by (simp_all add: const_defs)
  have v: "s\<lparr>pbm := putp p (c\<lparr>pb_if_idx := (if pb_if_idx c = 0 then nif_num nif + 1 else pb_if_idx c), pb_flags := pb_flags c OR ll_flags (rdmac (bytes (pbm s)) (pb_payload c + 2))\<rparr>) (pbm s)\<rparr> = v"
    by (simp add: v_def rx_mark_def)
  show ?thesis
    unfolding ethernet_input_def Let_def g Option.bind.bind_lunit mark e ty_def [symmetric] v gv using l h by (simp split del: if_split cong: if_cong) (simp add: rx_mark_def)
qed

lemma input_free_ok:
  assumes "pb_inv dR dP (pbm s)" and "linked (nexts (pbm s)) p qs" and "\<forall>q \<in> set qs. src_ok (pb (pbm s) q)"
  shows "\<exists>b. input_free p s = Some (s\<lparr>pbm := b\<rparr>) \<and> pb_inv dR dP b \<and> pbufs b = free_store (pbufs (pbm s)) qs \<and> bytes b = bytes (pbm s)"
  using pbuf_free_ok [OF assms] by (auto simp: input_free_def)

lemma input_free_stats:
  "input_free p (ETHARP_STATS_INC f s) = map_option (ETHARP_STATS_INC f) (input_free p s)"
  by (cases "pbuf_free p (pbm s)") (auto simp: input_free_def ETHARP_STATS_INC_def)

lemma putp_mark:
  assumes pk: "packet b p (p # qs)" and c: "pbufs b p = Some c"
  shows "packet (putp p (rx_mark nif dest c) b) p (p # qs)" "cells (pbufs (putp p (rx_mark nif dest c) b)) (p # qs) = cells (pbufs b) (p # qs)"
proof -
  let ?b = "putp p (rx_mark nif dest c) b"
  have same: "pb_next (pb ?b q) = pb_next (pb b q)" "blen (pbufs ?b) q = blen (pbufs b) q" "tlen (pbufs ?b) q = tlen (pbufs b) q" "pb_payload (pb ?b q) = pb_payload (pb b q)" for q
    using c by (auto simp: blen_def tlen_def)
  have "tot_ok (pbufs ?b) 0 (p # qs) = tot_ok (pbufs b) 0 (p # qs)" by (rule tot_ok_cong) (rule same)+
  moreover have "linked (nexts ?b) p (p # qs)" using pk linked_putp [OF c, of "rx_mark nif dest c"] by (simp add: packet_def)
  ultimately show "packet ?b p (p # qs)" using pk by (simp add: packet_def)
  show "cells (pbufs ?b) (p # qs) = cells (pbufs b) (p # qs)" unfolding cells_def same ..
qed

text \<open>The first bytes of a packet lie in its first pbuf.\<close>

lemma pdata_head:
  assumes "pdata b (p # qs) = xs @ ys" and "length xs \<le> unat (pb_len (pb b p))"
  shows "map (bytes b) [pb_payload (pb b p)..<pb_payload (pb b p) + length xs] = xs"
proof -
  have "take (length xs) (pdata b (p # qs)) = take (length xs) (map (bytes b) [pb_payload (pb b p)..<pb_payload (pb b p) + unat (pb_len (pb b p))])"
    using assms(2) by (simp add: pdata_def blen_def)
  then show ?thesis using assms by (simp add: take_map)
qed

lemma frame_fields:
  assumes d: "pdata b (p # qs) = x # y # dst @ src @ be16 ty @ d" and c: "pb b p = c" and l: "16 < unat (pb_len c)" "length dst = 6" "length src = 6"
  shows "rdmac (bytes b) (pb_payload c + 2) = dst" "rd16 (bytes b) (pb_payload c + 14) = lwip_htons ty"
proof -
  have "map (bytes b) [pb_payload c..<pb_payload c + 16] = x # y # dst @ src @ be16 ty"
    using pdata_head [of b p qs "x # y # dst @ src @ be16 ty" d] d l c by simp
  note seg = map_segment [OF this]
  show "rdmac (bytes b) (pb_payload c + 2) = dst" using seg [of 2 6] l by (simp add: rdmac_def)
  show "rd16 (bytes b) (pb_payload c + 14) = lwip_htons ty" by (rule rd16_be16) (use seg [of 14 2] l in simp)
qed

lemma remove_header_same: "pbuf_remove_header p n b = Some (r, b') \<Longrightarrow> b' = b\<lparr>pbufs := pbufs b'\<rparr>"
  by (auto simp: pbuf_remove_header_def putp_def Let_def split: if_splits option.splits Option.bind_splits)

text \<open>What the input function of the type is called with.\<close>

lemma frame_unwrap:
  assumes "packet (pbm s) p (p # qs)" and "getp p (pbm s) = Some c" and "16 < unat (pb_len c)"
    and "netifs s netif = Some nif" and "nif_flags nif AND NETIF_FLAG_ETHARP \<noteq> 0"
    and "pdata (pbm s) (p # qs) = x # y # dst @ src @ be16 ty @ d" and "length dst = 6" and "length src = 6"
    and "ty \<in> {ETHTYPE_IP, ETHTYPE_ARP, ETHTYPE_IPV6}"
  shows "\<exists>b. ethernet_input ip4_input ip6_input cbs lo p netif s = map_option (Pair ERR_OK)
      ((if ty = ETHTYPE_IP then ip4_input else if ty = ETHTYPE_ARP then etharp_input cbs lo else ip6_input) p netif (s\<lparr>pbm := b\<rparr>)) \<and>
    packet b p (p # qs) \<and> pdata b (p # qs) = d \<and> bytes b = bytes (pbm s) \<and> (\<forall>q. q \<noteq> p \<longrightarrow> pbufs b q = pbufs (pbm s) q) \<and>
    pb_if_idx (pb b p) = (if pb_if_idx c = 0 then nif_num nif + 1 else pb_if_idx c) \<and> pb_flags (pb b p) = pb_flags c OR ll_flags dst \<and>
    src_of (pb b p) = src_of c \<and> src_ok (pb b p) = src_ok c \<and> pb_ref (pb b p) = pb_ref c \<and> pb_len (pb b p) = pb_len c - 16 \<and> b = (pbm s)\<lparr>pbufs := pbufs b\<rparr>"
proof -
  have c: "pbufs (pbm s) p = Some c" "pb (pbm s) p = c" using assms(2) by (simp_all add: getp_some)
  note fl = frame_fields [OF assms(6) c(2) assms(3,7,8)]
  let ?v = "putp p (rx_mark nif dst c) (pbm s)"
  have pk: "packet ?v p (p # qs)" "cells (pbufs ?v) (p # qs) = cells (pbufs (pbm s)) (p # qs)" by (rule putp_mark [OF assms(1) c(1)])+
  have "16 \<le> unat (pb_len (pb ?v p))" using assms(3) by simp
  from remove_header_packet [OF pk(1) this] obtain b where b: "pbuf_remove_header p 16 ?v = Some (0, b)" "packet b p (p # qs)" "bytes b = bytes (pbm s)"
    "pbufs b = (pbufs ?v)(p \<mapsto> (pb ?v p)\<lparr>pb_payload := pb_payload c + 16, pb_len := pb_len c - 16, pb_tot_len := pb_tot_len c - 16\<rparr>)"
    by auto
  have pn: "p \<notin> set qs" using assms(1) linked_distinct [of "nexts (pbm s)" p "p # qs"] by (simp add: packet_def)
  then have "cells (pbufs b) qs = cells (pbufs (pbm s)) qs" unfolding cells_def blen_def by (intro arg_cong [of _ _ concat] map_cong) (auto simp: b(4))
  moreover have "(16 :: u16) \<le> pb_len c" using assms(3) by (simp add: word_le_nat_alt)
  then have "unat (pb_len c - 16) = unat (pb_len c) - 16" by (simp add: unat_sub_le)
  ultimately have "cells (pbufs b) (p # qs) = drop 16 (cells (pbufs (pbm s)) (p # qs))" using assms(3) c by (simp add: b(4) blen_def add.commute)
  then have "pdata b (p # qs) = drop 16 (pdata (pbm s) (p # qs))" by (simp only: pdata_def b(3) drop_map)
  then have d: "pdata b (p # qs) = d" unfolding assms(6) using assms(7,8) by simp
  have h: "lwip_htons x = lwip_htons y \<longleftrightarrow> x = y" for x y by (metis htons_htons)
  have "ethernet_input ip4_input ip6_input cbs lo p netif s = map_option (Pair ERR_OK)
      ((if ty = ETHTYPE_IP then ip4_input else if ty = ETHTYPE_ARP then etharp_input cbs lo else ip6_input) p netif (s\<lparr>pbm := b\<rparr>))"
    unfolding ethernet_input_long [OF assms(2,4,3)] fl h using assms(5,9) b(1) by (auto simp: h)
  moreover have "b = (pbm s)\<lparr>pbufs := pbufs b\<rparr>" using remove_header_same [OF b(1)] by (simp add: putp_def)
  moreover have cb: "pb b p = (rx_mark nif dst c)\<lparr>pb_payload := pb_payload c + 16, pb_len := pb_len c - 16, pb_tot_len := pb_tot_len c - 16\<rparr>" by (simp add: b(4))
  have "src_of (pb b p) = src_of (rx_mark nif dst c)" "src_ok (pb b p) = src_ok (rx_mark nif dst c)"
    unfolding cb by (simp_all add: src_of_def src_ok_def is_custom_def pbuf_get_allocsrc_def)
  moreover have "pb_if_idx (pb b p) = (if pb_if_idx c = 0 then nif_num nif + 1 else pb_if_idx c)" "pb_flags (pb b p) = pb_flags c OR ll_flags dst" "pb_ref (pb b p) = pb_ref c" "pb_len (pb b p) = pb_len c - 16"
    unfolding cb by (simp_all add: rx_mark_def)
  moreover have "pbufs b q = pbufs (pbm s) q" if "q \<noteq> p" for q using that by (simp add: b(4))
  ultimately show ?thesis using b(2,3) d by (intro exI [of _ b]) simp
qed

text \<open>A frame with a request for the address of the interface is answered.\<close>

context link_driver
begin

lemma frame_replies:
  assumes inv: "arp_inv d s Q" and e: "q_ents s = Map.empty" and pb: "pb_inv dR dP (pbm s)" "heap_apart D (pbm s)" "ready (wire s)"
    and nif: "netifs s netif = Some nif" "nif_flags nif AND NETIF_FLAG_ETHARP \<noteq> 0" "nif_acd_list nif = NULL" "length (nif_hwaddr nif) = 6" "\<not> ip4_addr_isany (nif_ip_addr nif)"
    and pk: "packet (pbm s) p (p # qs)" "getp p (pbm s) = Some c" "44 \<le> unat (pb_len c)" "\<forall>q \<in> set (p # qs). src_ok (pb (pbm s) q)"
    and fr: "pdata (pbm s) (p # qs) = x # y # dst @ src @ be16 ETHTYPE_ARP @ arp_packet ARP_REQUEST mac ip tha (nif_ip_addr nif) @ pad"
      "length dst = 6" "length src = 6" "length mac = 6" "length tha = 6"
    and uni: "\<not> (ip4_addr_isany ip \<or> ip4_addr_isbroadcast_u32 ip nif \<or> ip4_addr_ismulticast ip)" and them: "ip \<noteq> nif_ip_addr nif"
  shows "\<exists>s' Q'. ethernet_input ip4 ip6 cbs lo p netif s = Some (ERR_OK, s') \<and> arp_inv d s' Q' \<and> pb_inv dR dP (pbm s') \<and> ready (wire s') \<and>
    (\<forall>q. q \<notin> set (p # qs) \<longrightarrow> pbufs (pbm s') q = pbufs (pbm s) q) \<and>
    ((\<forall>q \<in> set (p # qs). pb_ref (pb (pbm s) q) = 1) \<longrightarrow> (\<forall>q \<in> set (p # qs). pbufs (pbm s') q = None)) \<and>
    (\<exists>i<10. arp_table s' ! i = \<lparr>ae_q = NULL, ae_ipaddr = ip, ae_netif = netif, ae_ethaddr = mac, ae_ctime = 0, ae_state = ETHARP_STATE_STABLE\<rparr>) \<and>
    ((good (wire s) \<longrightarrow> last_frame (bytes (pbm s')) (wire s') =
        eth_padded ((if ip4_addr_islinklocal (nif_ip_addr nif) then ethbroadcast else mac) @ nif_hwaddr nif @ be16 ETHTYPE_ARP @
          arp_packet ARP_REPLY (nif_hwaddr nif) (nif_ip_addr nif) mac ip)) \<or> wire s' = wire s)"
proof -
  have len: "16 < unat (pb_len c)" and ty: "ETHTYPE_ARP \<in> {ETHTYPE_IP, ETHTYPE_ARP, ETHTYPE_IPV6}" "ETHTYPE_ARP \<noteq> ETHTYPE_IP" using pk(3) by (simp_all add: const_defs)
  have c: "pbufs (pbm s) p = Some c" "pb (pbm s) p = c" using pk(2) by (simp_all add: getp_some)
  let ?a = "arp_packet ARP_REQUEST mac ip tha (nif_ip_addr nif)"
  from frame_unwrap [OF pk(1,2) len nif(1,2) fr(1-3) ty(1), of ip4 ip6 cbs lo] obtain b where b:
    "ethernet_input ip4 ip6 cbs lo p netif s = map_option (Pair ERR_OK) (etharp_input cbs lo p netif (s\<lparr>pbm := b\<rparr>))" "packet b p (p # qs)" "pdata b (p # qs) = ?a @ pad"
    "bytes b = bytes (pbm s)" "\<forall>q. q \<noteq> p \<longrightarrow> pbufs b q = pbufs (pbm s) q" "src_of (pb b p) = src_of c" "src_ok (pb b p) = src_ok c" "pb_ref (pb b p) = pb_ref c" "b = (pbm s)\<lparr>pbufs := pbufs b\<rparr>" "pb_len (pb b p) = pb_len c - 16"
    using ty(2) by auto
  have pl: "linked (nexts b) p (p # qs)" using b(2) by (simp add: packet_def)
  then have gb: "getp p b = Some (pb b p)" using linked_pb [OF pl] by (auto simp: getp_def)
  have "b = putp p (pb b p) (pbm s)" using b(5) gb by (subst b(9)) (auto simp: putp_def getp_def fun_eq_iff intro!: pb_state_pbufs_eqI split: if_splits)
  then have "pb_inv dR dP b" using putp_inv [OF pb(1) c(1) b(6)] by simp
  moreover have "pb_heap b = pb_heap (pbm s)" by (subst b(9)) simp
  then have "heap_apart D b" using pb(2) by (simp add: heap_apart_def)
  moreover have so: "\<forall>q \<in> set (p # qs). src_ok (pb b q)" using pk(4) b(5,7) c(2) by auto
  moreover have al: "length ?a = 28" using fr(4,5) by (simp add: arp_packet_def be16_def addr_bytes_def)
  have "(16 :: u16) \<le> pb_len c" using pk(3) by (simp add: word_le_nat_alt)
  then have tl: "28 \<le> unat (pb_len (pb b p))" using pk(3) unfolding b(10) by (simp add: unat_sub_le)
  have "map (bytes b) [pb_payload (pb b p)..<pb_payload (pb b p) + 28] = ?a" using pdata_head [OF b(3)] al tl by simp
  ultimately obtain s' Q' where s': "etharp_input cbs lo p netif (s\<lparr>pbm := b\<rparr>) = Some s'" "arp_inv d s' Q'" "pb_inv dR dP (pbm s')" "ready (wire s')"
    "pbufs (pbm s') = free_store (pbufs b) (p # qs)"
    "\<exists>i<10. arp_table s' ! i = \<lparr>ae_q = NULL, ae_ipaddr = ip, ae_netif = netif, ae_ethaddr = mac, ae_ctime = 0, ae_state = ETHARP_STATE_STABLE\<rparr>"
    "(good (wire s) \<longrightarrow> last_frame (bytes (pbm s')) (wire s') =
        eth_padded ((if ip4_addr_islinklocal (nif_ip_addr nif) then ethbroadcast else mac) @ nif_hwaddr nif @ be16 ETHTYPE_ARP @
          arp_packet ARP_REPLY (nif_hwaddr nif) (nif_ip_addr nif) mac ip)) \<or> wire s' = wire s"
    using input_replies [of d "s\<lparr>pbm := b\<rparr>" Q dR dP netif nif p "pb b p" "p # qs" mac ip tha cbs] inv e pb(3) nif(1,3-5) gb pl fr(4,5) uni them by auto
  have "pbufs (pbm s') q = pbufs (pbm s) q" if "q \<notin> set (p # qs)" for q
    using that free_store_other [OF that, of "pbufs b"] b(5) by (simp add: s'(5))
  moreover have "pbufs (pbm s') q = None" if "\<forall>q \<in> set (p # qs). pb_ref (pb (pbm s) q) = 1" "q \<in> set (p # qs)" for q
    unfolding s'(5) by (subst free_store_all [OF linked_distinct [OF pl]]) (use that b(5,8) c in auto)
  ultimately show ?thesis using b(1) s'(1-4,6,7) by (intro exI [of _ s'] exI [of _ Q']) auto
qed

end

section \<open>Properties\<close>

text \<open>
  C14 Unwrapping a frame: what \<open>ethernet_output\<close> puts around a packet is what \<open>ethernet_input\<close> takes off. For a frame with a
  header in its first pbuf and more data, \<open>ethernet_input\<close> calls the input function of the type with the same chain of pbufs, now holding exactly the data
  after the header; the pbuf is marked with the index of the interface, if it had none, and as a broadcast if that was the destination.
  Nothing else of the state has changed at that call, and the result is \<open>ERR_OK\<close> whatever that function does.
\<close>

theorem ethernet_input_unwraps:
  assumes "packet (pbm s) p (p # qs)" and "getp p (pbm s) = Some c" and "16 < unat (pb_len c)"
    and "netifs s netif = Some nif" and "nif_flags nif AND NETIF_FLAG_ETHARP \<noteq> 0"
    and "pdata (pbm s) (p # qs) = x # y # dst @ src @ be16 ty @ d" and "length dst = 6" and "length src = 6"
    and "ty \<in> {ETHTYPE_IP, ETHTYPE_ARP, ETHTYPE_IPV6}"
  shows "\<exists>b. ethernet_input ip4_input ip6_input cbs lo p netif s = map_option (Pair ERR_OK)
      ((if ty = ETHTYPE_IP then ip4_input else if ty = ETHTYPE_ARP then etharp_input cbs lo else ip6_input) p netif (s\<lparr>pbm := b\<rparr>)) \<and>
    packet b p (p # qs) \<and> pdata b (p # qs) = d \<and> bytes b = bytes (pbm s) \<and> (\<forall>q. q \<noteq> p \<longrightarrow> pbufs b q = pbufs (pbm s) q) \<and>
    pb_if_idx (pb b p) = (if pb_if_idx c = 0 then nif_num nif + 1 else pb_if_idx c) \<and> pb_flags (pb b p) = pb_flags c OR ll_flags dst \<and>
    ll_flags ethbroadcast = PBUF_FLAG_LLBCAST \<and> (even (unat (dst ! 0)) \<longrightarrow> ll_flags dst = 0)"
proof -
  have "ll_flags ethbroadcast = PBUF_FLAG_LLBCAST" by (simp add: ll_flags_def const_defs)
  moreover have "ll_flags dst = 0" if "even (unat (dst ! 0))"
  proof -
    have "unat (dst ! 0 AND 1) = 0" using that by (simp add: and_one_eq unat_mod)
    then show ?thesis by (simp add: ll_flags_def unat_eq_zero)
  qed
  ultimately show ?thesis using frame_unwrap [OF assms, of ip4_input ip6_input cbs lo] by blast
qed

text \<open>A received frame in a custom pbuf, as the driver of the board hands it over.\<close>

definition demo_rx :: "u8 list \<Rightarrow> pbuf" where
  "demo_rx f = \<lparr>pb_next = NULL, pb_payload = 2000, pb_tot_len = of_nat (length f), pb_len = of_nat (length f), pb_type_internal = 0x41, pb_flags = 2, pb_ref = 1, pb_if_idx = 0\<rparr>"

definition demo_received :: "u8 list \<Rightarrow> pb_state" where
  "demo_received f = putp 100 (demo_rx f) (demo_pb\<lparr>bytes := \<lambda>a. if 2000 \<le> a \<and> a < 2000 + length f then f ! (a - 2000) else 0\<rparr>)"

definition demo_rx_nif :: eth_netif where
  "demo_rx_nif = demo_nif\<lparr>nif_flags := NETIF_FLAG_BROADCAST OR NETIF_FLAG_ETHARP\<rparr>"

lemma demo_received_parts:
  assumes "length f < 65536"
  shows "packet (demo_received f) 100 [100]" "getp 100 (demo_received f) = Some (demo_rx f)" "unat (pb_len (demo_rx f)) = length f"
    "pdata (demo_received f) [100] = f" "pb_inv demo_dR demo_dP (demo_received f)" "src_ok (demo_rx f)" "pb_payload (demo_rx f) = 2000" "pb_ref (demo_rx f) = 1" "pb_if_idx (demo_rx f) = 0" "pb_flags (demo_rx f) = 2"
proof -
  show u: "unat (pb_len (demo_rx f)) = length f" using assms by (simp add: demo_rx_def unat_of_nat_id)
  show "packet (demo_received f) 100 [100]" using u by (simp add: packet_def demo_received_def demo_rx_def tlen_def blen_def)
  show "getp 100 (demo_received f) = Some (demo_rx f)" by (simp add: getp_def demo_received_def)
  show "pdata (demo_received f) [100] = f" using u by (auto simp: pdata_def demo_received_def blen_def demo_rx_def intro!: nth_equalityI)
  have "pb_inv demo_dR demo_dP (demo_pb\<lparr>bytes := m\<rparr>)" for m using demo_pb_inv pb_inv_cong [of "demo_pb\<lparr>bytes := m\<rparr>" demo_pb] by simp
  then show "pb_inv demo_dR demo_dP (demo_received f)" unfolding demo_received_def
    by (rule putp_inv [where b = demo_b1]) (simp_all add: demo_pb_def src_of_def is_custom_def demo_rx_def demo_b1_def const_defs)
  show "src_ok (demo_rx f)" by (simp add: src_ok_def is_custom_def demo_rx_def const_defs)
qed (simp_all add: demo_rx_def)

theorem ethernet_input_unwraps_witness:
  "\<exists>b. ethernet_input (\<lambda>p netif s. Some s) (\<lambda>p netif s. None) (\<lambda>_ _ _ s. Some s) demo_lo 100 500
      (demo_arp\<lparr>netifs := [500 \<mapsto> demo_rx_nif], pbm := demo_received ([0, 0] @ ethbroadcast @ demo_mac @ be16 ETHTYPE_IP @ [1, 2, 3])\<rparr>) =
    Some (ERR_OK, demo_arp\<lparr>netifs := [500 \<mapsto> demo_rx_nif], pbm := b\<rparr>) \<and> pdata b [100] = [1, 2, 3] \<and> pb_if_idx (pb b 100) = 1 \<and> pb_flags (pb b 100) = 0x0A"
proof -
  let ?f = "0 # 0 # ethbroadcast @ demo_mac @ be16 ETHTYPE_IP @ [1, 2, 3]"
  let ?s = "demo_arp\<lparr>netifs := [500 \<mapsto> demo_rx_nif], pbm := demo_received ?f\<rparr>"
  have l: "length ?f < 65536" "length ?f = 19" "length ethbroadcast = 6" by (simp_all add: const_defs)
  note p = demo_received_parts [OF l(1)]
  have n: "nif_flags demo_rx_nif AND NETIF_FLAG_ETHARP \<noteq> 0" "nif_num demo_rx_nif = 0" by (simp_all add: demo_rx_nif_def demo_nif_def const_defs)
  have "packet (pbm ?s) 100 [100]" "getp 100 (pbm ?s) = Some (demo_rx ?f)" "16 < unat (pb_len (demo_rx ?f))" "netifs ?s 500 = Some demo_rx_nif"
    "pdata (pbm ?s) [100] = ?f" "ETHTYPE_IP \<in> {ETHTYPE_IP, ETHTYPE_ARP, ETHTYPE_IPV6}" using p(1-4) l by simp_all
  from ethernet_input_unwraps [OF this(1-4) n(1) this(5) l(3) _ this(6), of "\<lambda>p netif s. Some s" "\<lambda>p netif s. None" "\<lambda>_ _ _ s. Some s" demo_lo] n(2) p(9,10)
  show ?thesis by (auto simp: const_defs)
qed

text \<open>
  C16 Frames that are not for the stack: a frame with no data after its header, of an unknown type, or of IPv4 or ARP on an interface without ARP
  is dropped. \<open>ethernet_input\<close> returns \<open>ERR_OK\<close>, every pbuf of the frame that nobody else refers to is released and given back, no other pbuf and no byte changes, and
  neither the tables nor the device are touched. A malformed or unknown frame counts once as a protocol error and once as dropped.
\<close>

theorem ethernet_input_drops:
  fixes s :: "'w link_state"
  assumes "pb_inv dR dP (pbm s)" and "linked (nexts (pbm s)) p (p # qs)" and "\<forall>q \<in> set (p # qs). src_ok (pb (pbm s) q)"
    and "getp p (pbm s) = Some c" and "netifs s netif = Some nif"
  defines "bad \<equiv> unat (pb_len c) \<le> 16 \<or>
      rd16 (bytes (pbm s)) (pb_payload c + 14) \<notin> {lwip_htons ETHTYPE_IP, lwip_htons ETHTYPE_ARP, lwip_htons ETHTYPE_IPV6}"
  assumes "bad \<or> nif_flags nif AND NETIF_FLAG_ETHARP = 0 \<and> rd16 (bytes (pbm s)) (pb_payload c + 14) \<noteq> lwip_htons ETHTYPE_IPV6"
  shows "\<exists>st b. ethernet_input ip4_input ip6_input cbs lo p netif s = Some (ERR_OK, s\<lparr>pbm := b, stats_etharp := st\<rparr>) \<and> pb_inv dR dP b \<and> bytes b = bytes (pbm s) \<and>
    st = (if bad then (stats_etharp s)\<lparr>sp_drop := sp_drop (stats_etharp s) + 1, sp_proterr := sp_proterr (stats_etharp s) + 1\<rparr> else stats_etharp s) \<and>
    (\<forall>q. q \<notin> set (p # qs) \<longrightarrow> pbufs b q = pbufs (pbm s) q) \<and>
    ((\<forall>q \<in> set (p # qs). pb_ref (pb (pbm s) q) = 1) \<longrightarrow> (\<forall>q \<in> set (p # qs). pbufs b q = None))"
proof -
  have c: "pbufs (pbm s) p = Some c" using assms(4) by (simp add: getp_some)
  have d: "distinct (p # qs)" using linked_distinct [OF assms(2)] .
  have free: "\<exists>b. input_free p (s\<lparr>pbm := v\<rparr>) = Some (s\<lparr>pbm := b\<rparr>) \<and> pb_inv dR dP b \<and> bytes b = bytes (pbm s) \<and>
      (\<forall>q. q \<notin> set (p # qs) \<longrightarrow> pbufs b q = pbufs (pbm s) q) \<and>
      ((\<forall>q \<in> set (p # qs). pb_ref (pb (pbm s) q) = 1) \<longrightarrow> (\<forall>q \<in> set (p # qs). pbufs b q = None))"
    if v: "v = putp p c' (pbm s)" "src_of c' = src_of c" "src_ok c' = src_ok c" "pb_next c' = pb_next c" "pb_ref c' = pb_ref c" for v c'
  proof -
    have "pb_inv dR dP v" unfolding v(1) by (rule putp_inv [OF assms(1) c v(2)])
    moreover have "linked (nexts v) p (p # qs)" unfolding v(1) using linked_putp [OF c, of c'] assms(2) v(4) by simp
    moreover have "\<forall>q \<in> set (p # qs). src_ok (pb v q)" using assms(3) v(3) c by (auto simp: v(1))
    ultimately obtain b where b: "input_free p (s\<lparr>pbm := v\<rparr>) = Some (s\<lparr>pbm := b\<rparr>)" "pb_inv dR dP b" "pbufs b = free_store (pbufs v) (p # qs)" "bytes b = bytes v"
      using input_free_ok [of dR dP "s\<lparr>pbm := v\<rparr>" p "p # qs"] by auto
    moreover have "pbufs b q = pbufs (pbm s) q" if "q \<notin> set (p # qs)" for q
      using that free_store_other [OF that, of "pbufs v"] by (simp add: b(3) v(1))
    moreover have "pbufs b q = None" if "\<forall>q \<in> set (p # qs). pb_ref (pb (pbm s) q) = 1" "q \<in> set (p # qs)" for q
      unfolding b(3) by (subst free_store_all [OF d]) (use that v(5) c in \<open>auto simp: v(1)\<close>)
    ultimately show ?thesis using v(1) by auto
  qed
  have stats: "ETHARP_STATS_INC sp_drop_update (ETHARP_STATS_INC sp_proterr_update (s\<lparr>pbm := b\<rparr>)) = s\<lparr>pbm := b, stats_etharp :=
      (stats_etharp s)\<lparr>sp_drop := sp_drop (stats_etharp s) + 1, sp_proterr := sp_proterr (stats_etharp s) + 1\<rparr>\<rparr>" for b :: pb_state
    by (simp add: ETHARP_STATS_INC_def)
  show ?thesis
  proof (cases "unat (pb_len c) \<le> 16")
    case True
    have "pbm s = putp p c (pbm s)" using c by (auto simp: putp_def fun_eq_iff intro!: pb_state_pbufs_eqI [symmetric])
    from free [OF this] obtain b where b: "input_free p s = Some (s\<lparr>pbm := b\<rparr>)" "pb_inv dR dP b" "bytes b = bytes (pbm s)"
      "\<forall>q. q \<notin> set (p # qs) \<longrightarrow> pbufs b q = pbufs (pbm s) q"
      "(\<forall>q \<in> set (p # qs). pb_ref (pb (pbm s) q) = 1) \<longrightarrow> (\<forall>q \<in> set (p # qs). pbufs b q = None)" by auto
    have "ethernet_input ip4_input ip6_input cbs lo p netif s = Some (ERR_OK, ETHARP_STATS_INC sp_drop_update (ETHARP_STATS_INC sp_proterr_update (s\<lparr>pbm := b\<rparr>)))"
      using True b(1) assms(4) by (simp add: ethernet_input_def const_defs input_free_stats)
    then show ?thesis unfolding stats using b(2-5) True by (intro exI conjI) (auto simp: bad_def)
  next
    case False
    let ?v = "putp p (rx_mark nif (rdmac (bytes (pbm s)) (pb_payload c + 2)) c) (pbm s)"
    from free [OF refl, of "rx_mark nif (rdmac (bytes (pbm s)) (pb_payload c + 2)) c"] obtain b where b: "input_free p (s\<lparr>pbm := ?v\<rparr>) = Some (s\<lparr>pbm := b\<rparr>)" "pb_inv dR dP b"
      "bytes b = bytes (pbm s)" "\<forall>q. q \<notin> set (p # qs) \<longrightarrow> pbufs b q = pbufs (pbm s) q"
      "(\<forall>q \<in> set (p # qs). pb_ref (pb (pbm s) q) = 1) \<longrightarrow> (\<forall>q \<in> set (p # qs). pbufs b q = None)" by auto
    have "ethernet_input ip4_input ip6_input cbs lo p netif s = Some (ERR_OK,
        if bad then ETHARP_STATS_INC sp_drop_update (ETHARP_STATS_INC sp_proterr_update (s\<lparr>pbm := b\<rparr>)) else s\<lparr>pbm := b\<rparr>)"
      using assms(7) False ethernet_input_long [OF assms(4,5), of ip4_input ip6_input cbs lo] b(1) by (auto simp: bad_def input_free_stats)
    then show ?thesis unfolding stats using b(2-5) by (cases bad) (auto intro!: exI [of _ b])
  qed
qed

theorem ethernet_input_drops_witness:
  "\<exists>b. ethernet_input (\<lambda>p netif s. None) (\<lambda>p netif s. None) (\<lambda>_ _ _ s. Some s) demo_lo 100 500 (demo_arp\<lparr>pbm := demo_received (replicate 60 0x55)\<rparr>) =
    Some (ERR_OK, demo_arp\<lparr>pbm := b, stats_etharp := stats_proto_zero\<lparr>sp_drop := 1, sp_proterr := 1\<rparr>\<rparr>) \<and> pbufs b 100 = None \<and> pbufs b 200 = Some demo_b2"
proof -
  let ?f = "replicate 60 0x55 :: u8 list"
  let ?s = "demo_arp\<lparr>pbm := demo_received ?f\<rparr>"
  have l: "length ?f < 65536" by simp
  note p = demo_received_parts [OF l]
  have "bytes (pbm ?s) 2014 = 0x55" "bytes (pbm ?s) 2015 = 0x55" by (simp_all add: demo_received_def)
  then have ty: "rd16 (bytes (pbm ?s)) (pb_payload (demo_rx ?f) + 14) = 0x5555" unfolding p(7) by (simp add: rd16_def)
  have h: "0x5555 \<notin> {lwip_htons ETHTYPE_IP, lwip_htons ETHTYPE_ARP, lwip_htons ETHTYPE_IPV6}" by (simp add: const_defs lwip_htons_def)
  have q: "pb (demo_received ?f) 100 = demo_rx ?f" "pbufs (demo_received ?f) 200 = Some demo_b2" by (simp_all add: demo_received_def demo_pb_def)
  have "pb_inv demo_dR demo_dP (pbm ?s)" "linked (nexts (pbm ?s)) 100 [100]" "\<forall>q \<in> set [100]. src_ok (pb (pbm ?s) q)" "getp 100 (pbm ?s) = Some (demo_rx ?f)"
    "netifs ?s 500 = Some demo_nif" using p(1,2,5,6) q by (simp_all add: packet_def demo_arp_def)
  from ethernet_input_drops [OF this, of "\<lambda>p netif s. None" "\<lambda>p netif s. None" "\<lambda>_ _ _ s. Some s" demo_lo, unfolded ty] h q p(8)
  show ?thesis by (auto simp: demo_arp_def stats_proto_zero_def)
qed

end
