(* ===== verification/Stm32h7_Link.thy ===== *)
theory Stm32h7_Link
  imports Stm32h7_Eth Ethernet_Input
begin

text \<open>
  The stack on the board: the link layer over the STM32H7 driver. \<open>ethernetif_init\<close> (stm32h7_eth.c) sets
  \<open>netif->linkoutput\<close> to \<open>low_level_output\<close>; the locale \<open>link_driver\<close> is interpreted on that
  function, and what the link layer promises over any driver becomes what goes into the memory that the DMA reads.
\<close>

unbundle bit_operations_syntax

section \<open>The driver behind the interface\<close>

text \<open>
  \<open>netif->linkoutput = low_level_output\<close>. The state behind the interface is that of the driver; its packet
  buffers are those of the stack. \<open>own1\<close> and \<open>own2\<close> tell whether the DMA still owns the descriptor at each poll.
\<close>

definition stm32_linkoutput :: "(nat \<Rightarrow> bool) \<Rightarrow> (nat \<Rightarrow> bool) \<Rightarrow> eth_state linkoutput" where
  "stm32_linkoutput own1 own2 netif p b w = map_option (\<lambda>(e, w'). (e, pbs w', w')) (low_level_output own1 own2 p (w\<lparr>pbs := b\<rparr>))"

text \<open>The bounce buffer, and the frame in it that the last descriptor was given.\<close>

definition tx_buffer :: "addr set" where
  "tx_buffer = {ETH_TX_BUFFER_ADDR..<ETH_TX_BUFFER_ADDR + ETH_TX_BUFFER_MAX_SIZE}"

definition tx_ready :: "eth_state \<Rightarrow> bool" where
  "tx_ready w \<longleftrightarrow> tx_desc_idx w < 4"

definition tx_works :: "(nat \<Rightarrow> bool) \<Rightarrow> (nat \<Rightarrow> bool) \<Rightarrow> eth_state \<Rightarrow> bool" where
  "tx_works own1 own2 w \<longleftrightarrow> (\<exists>k<1000. \<not> own1 k) \<and> (\<exists>k<10000. \<not> own2 k)"

definition last_tx_frame :: "(addr \<Rightarrow> u8) \<Rightarrow> eth_state \<Rightarrow> u8 list" where
  "last_tx_frame m w = map m [ETH_TX_BUFFER_ADDR..<ETH_TX_BUFFER_ADDR + unat (DESC2 (DMATxDscrTab w ((tx_desc_idx w + 3) mod 4)))]"

lemma stm32_sends:
  assumes s: "sendable tx_buffer b p qs" and rdy: "tx_ready w"
  shows "\<exists>e m w'. stm32_linkoutput own1 own2 netif p b w = Some (e, b\<lparr>bytes := m\<rparr>, w') \<and> tx_ready w' \<and> (\<forall>a. a \<notin> tx_buffer \<longrightarrow> m a = bytes b a) \<and>
    (tx_works own1 own2 w \<longrightarrow> e = ERR_OK \<and> last_tx_frame m w' = eth_padded (drop 2 (pdata b (p # qs))))"
proof -
  let ?f = "drop 2 (pdata b (p # qs))" and ?w = "w\<lparr>pbs := b\<rparr>"
  have g: "getp p b = Some (pb b p)" using s by (auto simp: sendable_def packet_def getp_def)
  have w: "pbs ?w = b" "tx_desc_idx ?w = tx_desc_idx w" by simp_all
  have "packet b p (p # qs)" "unat (pb_tot_len (pb b p)) \<le> ETH_TX_BUFFER_MAX_SIZE" "2 \<le> unat (pb_len (pb b p))"
    "pb_type_internal (pb b p) AND PBUF_TYPE_FLAG_STRUCT_DATA_CONTIGUOUS \<noteq> 0" "p + 16 \<le> pb_payload (pb b p)" "pb_payload (pb b p) + 2 < 2 ^ 32"
    "pb_ref (pb b p) \<noteq> 0" "set (cells (pbufs b) (p # qs)) \<inter> tx_buffer = {}" using s by (simp_all add: sendable_def ETH_TX_BUFFER_MAX_SIZE_def)
  note ok = low_level_output_ok [of ?w p qs "pb b p" own1 own2, unfolded w tx_buffer_def [symmetric], OF this(1) g this(2-8)]
  then obtain e w' m where o: "low_level_output own1 own2 p ?w = Some (e, w')" "pbs w' = b\<lparr>bytes := m\<rparr>" "\<forall>a. a \<notin> tx_buffer \<longrightarrow> m a = bytes b a"
    "tx_desc_idx w' = (if \<exists>k<1000. \<not> own1 k then (tx_desc_idx w + 1) mod 4 else tx_desc_idx w)"
    "let f = ?f; d = DMATxDscrTab w' (tx_desc_idx w) in
     if \<exists>k<1000. \<not> own1 k
     then e = (if \<exists>k<10000. \<not> own2 k then ERR_OK else ERR_TIMEOUT) \<and>
       map m [ETH_TX_BUFFER_ADDR..<ETH_TX_BUFFER_ADDR + max 60 (length f)] = f @ replicate (60 - length f) 0 \<and>
       unat (DESC0 d) = ETH_TX_BUFFER_ADDR \<and> unat (DESC2 d) = max 60 (length f) \<and> own_bit (DESC3 d)
     else e = ERR_TIMEOUT \<and> DMATxDscrTab w' = DMATxDscrTab ?w"
    by blast
  have run: "stm32_linkoutput own1 own2 netif p b w = Some (e, b\<lparr>bytes := m\<rparr>, w')" using o(1,2) by (simp add: stm32_linkoutput_def)
  have "tx_ready w'" using o(4) rdy by (simp add: tx_ready_def)
  moreover have "e = ERR_OK \<and> last_tx_frame m w' = eth_padded ?f" if k: "tx_works own1 own2 w"
  proof -
    have "\<exists>k<1000. \<not> own1 k" "\<exists>k<10000. \<not> own2 k" using k by (simp_all add: tx_works_def)
    then have r: "e = ERR_OK" "map m [ETH_TX_BUFFER_ADDR..<ETH_TX_BUFFER_ADDR + max 60 (length ?f)] = eth_padded ?f"
      "unat (DESC2 (DMATxDscrTab w' (tx_desc_idx w))) = max 60 (length ?f)" "tx_desc_idx w' = (tx_desc_idx w + 1) mod 4"
      using o(4,5) by (simp_all add: Let_def eth_padded_def)
    have "(tx_desc_idx w' + 3) mod 4 = tx_desc_idx w" using r(4) rdy by (simp add: tx_ready_def mod_simps)
    then show ?thesis using r(1-3) by (simp only: last_tx_frame_def)
  qed
  ultimately show ?thesis using run o(3) by blast
qed

interpretation stm32: link_driver "stm32_linkoutput own1 own2" tx_buffer tx_ready "tx_works own1 own2" last_tx_frame for own1 own2
  by unfold_locales (rule stm32_sends)

section \<open>Properties\<close>

text \<open>
  C9 An ARP request on the wire: over the driver of the board \<open>etharp_request\<close> returns. If a pbuf can be
  allocated and the DMA releases the descriptors in time, the frame given to the DMA is the broadcast request of RFC 826 with
  the addresses of the interface, filled up with zeros to 60 bytes. The pbuf is released: the pbufs are as before, and
  outside the driver's buffer no memory in use has changed. Otherwise the error is \<open>ERR_MEM\<close> and nothing was sent.
\<close>

theorem arp_request_on_wire:
  assumes "pb_inv dR dP (pbm s)" and "heap_apart tx_buffer (pbm s)" and "tx_ready (wire s)"
    and "netifs s netif = Some nif" and "length (nif_hwaddr nif) = 6"
  shows "\<exists>r s'. etharp_request (stm32_linkoutput own1 own2) netif ip s = Some (r, s') \<and> pb_inv dR dP (pbm s') \<and>
    tx_ready (wire s') \<and> pbufs (pbm s') = pbufs (pbm s) \<and> (\<forall>a. settled (pbm s) a \<and> a \<notin> tx_buffer \<longrightarrow> bytes (pbm s') a = bytes (pbm s) a) \<and>
    (if r = ERR_OK then (\<exists>k<1000. \<not> own1 k) \<and> (\<exists>k<10000. \<not> own2 k) \<longrightarrow> last_tx_frame (bytes (pbm s')) (wire s') =
       eth_padded (ethbroadcast @ nif_hwaddr nif @ be16 ETHTYPE_ARP @
         arp_packet ARP_REQUEST (nif_hwaddr nif) (nif_ip_addr nif) ethzero ip)
     else r = ERR_MEM \<and> wire s' = wire s)"
proof -
  have l: "length ethbroadcast = 6" "length ethzero = 6" by (simp_all add: const_defs)
  have b: "(if P then ethbroadcast else ethbroadcast) = ethbroadcast" for P by simp
  have run: "etharp_request (stm32_linkoutput own1 own2) netif ip s = etharp_raw (stm32_linkoutput own1 own2) netif (nif_hwaddr nif) ethbroadcast
      (nif_hwaddr nif) (nif_ip_addr nif) ethzero ip ARP_REQUEST s" using assms(4) by (simp add: etharp_request_def etharp_request_dst_def)
  show ?thesis unfolding run
    using stm32.etharp_raw_ok [OF assms(1-3,5) l(1) assms(5) l(2), of own1 own2 netif "nif_ip_addr nif" ip ARP_REQUEST, unfolded b tx_works_def] by blast
qed

text \<open>A state of the stack on the board, with a pbuf that holds a packet of 20 bytes.\<close>

definition demo_ip_pbuf :: pbuf where
  "demo_ip_pbuf = \<lparr>pb_next = NULL, pb_payload = 1040, pb_tot_len = 20, pb_len = 20, pb_type_internal = 0x80, pb_flags = 0, pb_ref = 1, pb_if_idx = 0\<rparr>"

definition demo_board :: "eth_state link_state" where
  "demo_board = \<lparr>netif_list = 500, netifs = [500 \<mapsto> demo_nif], arp_table = demo_entry # replicate 9 entry_clear, etharp_cached_entry = 0,
     arp_queue = memp_init_pool (memp_ARP_QUEUE 4000) memp_pool_zero, q_ents = Map.empty, acds = Map.empty, pbm = demo_pb,
     stats_etharp = stats_proto_zero, stats_link = stats_proto_zero, rand_state = (\<lambda>_. 0), wire = demo_eth\<rparr>"

lemma demo_board_parts:
  "pb_inv demo_dR demo_dP (pbm demo_board)" "heap_apart tx_buffer (pbm demo_board)" "tx_ready (wire demo_board)"
  "netifs demo_board 500 = Some demo_nif" "length (nif_hwaddr demo_nif) = 6"
proof -
  show "pb_inv demo_dR demo_dP (pbm demo_board)" using demo_pb_inv by (simp add: demo_board_def)
  show "heap_apart tx_buffer (pbm demo_board)"
    by (auto simp: heap_apart_def demo_board_def demo_pb_def demo_heap_def MEM_SIZE_ALIGNED_val tx_buffer_def const_defs)
qed (simp_all add: demo_board_def tx_ready_def demo_eth_def demo_nif_def)

theorem arp_request_on_wire_witness:
  "\<exists>r s'. etharp_request (stm32_linkoutput (\<lambda>k. k < 3) (\<lambda>k. k < 7)) 500 demo_ip demo_board = Some (r, s') \<and> (r = ERR_OK \<longrightarrow>
     take 22 (last_tx_frame (bytes (pbm s')) (wire s')) =
       [0xFF, 0xFF, 0xFF, 0xFF, 0xFF, 0xFF, 2, 0, 0, 0, 0, 1, 8, 6, 0, 1, 8, 0, 6, 4, 0, 1])"
proof -
  have k: "\<exists>k<1000::nat. \<not> k < 3" "\<exists>k<10000::nat. \<not> k < 7" by (rule exI [of _ 10], simp)+
  from arp_request_on_wire [OF demo_board_parts, of "\<lambda>k. k < 3" "\<lambda>k. k < 7" demo_ip] obtain r s' where
    s': "etharp_request (stm32_linkoutput (\<lambda>k. k < 3) (\<lambda>k. k < 7)) 500 demo_ip demo_board = Some (r, s')"
    "r = ERR_OK \<longrightarrow> last_tx_frame (bytes (pbm s')) (wire s') = eth_padded (ethbroadcast @ nif_hwaddr demo_nif @ be16 ETHTYPE_ARP @
         arp_packet ARP_REQUEST (nif_hwaddr demo_nif) (nif_ip_addr demo_nif) ethzero demo_ip)"
    using k by (auto split: if_splits)
  have "take 22 (eth_padded (ethbroadcast @ nif_hwaddr demo_nif @ be16 ETHTYPE_ARP @
         arp_packet ARP_REQUEST (nif_hwaddr demo_nif) (nif_ip_addr demo_nif) ethzero demo_ip)) =
       [0xFF, 0xFF, 0xFF, 0xFF, 0xFF, 0xFF, 2, 0, 0, 0, 0, 1, 8, 6, 0, 1, 8, 0, 6, 4, 0, 1]"
    by (simp add: eth_padded_def arp_packet_def be16_def demo_nif_def const_defs)
  then show ?thesis using s' by auto
qed

lemma demo_board_inv: "\<exists>Q. arp_inv (memp_ARP_QUEUE 4000) demo_board Q \<and> (\<forall>i<10. Q i = [])"
proof -
  obtain Q where Q: "arp_inv (memp_ARP_QUEUE 4000) demo_learned Q" using arp_reach_ok [OF arp_learn [OF demo_arp_reach demo_learn]] by blast
  have E: "elems_of Q = {}" using Q by (auto simp: arp_inv_def queues_ok_def demo_learned_def demo_arp_def)
  then have "\<forall>i<10. Q i = []" by (simp add: elems_of_def)
  moreover have "arp_inv (memp_ARP_QUEUE 4000) demo_board Q"
    using Q E by (simp add: arp_inv_def queues_ok_def demo_board_def demo_learned_def demo_arp_def)
  ultimately show ?thesis by blast
qed

text \<open>
  C10 An IP packet to a known neighbour: when the table has a stable entry for the address, younger than the age at
  which it is asked for again, \<open>etharp_output\<close> over the driver of the board returns, and if the DMA releases the descriptors in time the
  frame given to it has the hardware address of the entry as destination, that of the interface as source, the type of IP and the
  data of the packet, filled up with zeros to 60 bytes. This holds whether the entry is the cached one or has to be searched.
\<close>

theorem etharp_output_on_wire:
  assumes "arp_inv d s Q" and "netifs s netif = Some nif" and "\<not> ip4_addr_isbroadcast_u32 ip nif" and "\<not> ip4_addr_ismulticast ip"
    and "ip4_addr_net_eq ip (nif_ip_addr nif) (nif_netmask nif)" and "i < 10" and "arp_usable netif ip (arp_table s ! i)"
    and "ae_ctime (arp_table s ! i) < ARP_AGE_REREQUEST_USED_UNICAST"
    and "packet (pbm s) p (p # qs)" and "getp p (pbm s) = Some c" and "unat (pb_tot_len c) + 16 \<le> 1536"
    and "pb_type_internal c AND PBUF_TYPE_FLAG_STRUCT_DATA_CONTIGUOUS \<noteq> 0"
    and "p + 32 \<le> pb_payload c" and "pb_payload c < 2 ^ 32" and "pb_ref c \<noteq> 0"
    and "(set (cells (pbufs (pbm s)) (p # qs)) \<union> {pb_payload c - 16..<pb_payload c}) \<inter> tx_buffer = {}"
    and "set (cells (pbufs (pbm s)) (p # qs)) \<inter> {pb_payload c - 16..<pb_payload c} = {}"
    and "length (nif_hwaddr nif) = 6" and "length (ae_ethaddr (arp_table s ! i)) = 6" and "tx_ready (wire s)"
  shows "\<exists>e s'. etharp_output (stm32_linkoutput own1 own2) netif p ip s = Some (e, s') \<and> tx_ready (wire s') \<and> arp_table s' = arp_table s \<and>
    ((\<exists>k<1000. \<not> own1 k) \<and> (\<exists>k<10000. \<not> own2 k) \<longrightarrow> e = ERR_OK \<and> last_tx_frame (bytes (pbm s')) (wire s') =
       eth_padded (ae_ethaddr (arp_table s ! i) @ nif_hwaddr nif @ be16 ETHTYPE_IP @ pdata (pbm s) (p # qs)))"
  using stm32.output_known [OF assms, of own1 own2] unfolding tx_works_def .

theorem etharp_output_on_wire_witness:
  "\<exists>s'. etharp_output (stm32_linkoutput (\<lambda>k. k < 3) (\<lambda>k. k < 7)) 500 1000 demo_ip (demo_board\<lparr>pbm := demo_pb\<lparr>pbufs := [1000 \<mapsto> demo_ip_pbuf]\<rparr>\<rparr>) = Some (ERR_OK, s') \<and>
     last_tx_frame (bytes (pbm s')) (wire s') = demo_mac @ [2, 0, 0, 0, 0, 1] @ [8, 0] @ map of_nat [1040..<1060] @ replicate 26 0"
proof -
  let ?s = "demo_board\<lparr>pbm := demo_pb\<lparr>pbufs := [1000 \<mapsto> demo_ip_pbuf]\<rparr>\<rparr>"
  obtain Q where Q: "arp_inv (memp_ARP_QUEUE 4000) ?s Q" using demo_board_inv by auto
  have k: "(\<exists>k<1000::nat. \<not> k < 3) \<and> (\<exists>k<10000::nat. \<not> k < 7)" by (rule conjI; rule exI [of _ 10], simp)
  have e: "arp_table ?s ! 0 = demo_entry" by (simp add: demo_board_def)
  have p: "packet (pbm ?s) 1000 [1000]" "getp 1000 (pbm ?s) = Some demo_ip_pbuf"
    by (simp_all add: packet_def tlen_def blen_def demo_ip_pbuf_def getp_def)
  have c: "cells (pbufs (pbm ?s)) [1000] = [1040..<1060]" by (simp add: cells_def demo_ip_pbuf_def blen_def del: upt_rec_numeral)
  then have d: "pdata (pbm ?s) [1000] = map of_nat [1040..<1060]" unfolding pdata_def by (simp add: demo_pb_def del: upt_rec_numeral)
  have net: "ip4_addr_net_eq demo_ip (nif_ip_addr demo_nif) (nif_netmask demo_nif)"
    by (simp add: ip4_addr_net_eq_def demo_nif_def IP4_ADDR_def LWIP_MAKEU32_def lwip_htonl_def)
  have dis: "({1040..<1060} \<union> {1024..<1040}) \<inter> tx_buffer = {}" by (auto simp: tx_buffer_def const_defs)
  have u: "\<not> ip4_addr_isbroadcast_u32 demo_ip demo_nif" "\<not> ip4_addr_ismulticast demo_ip" using demo_unicast by blast+
  have "\<exists>e s'. etharp_output (stm32_linkoutput (\<lambda>k. k < 3) (\<lambda>k. k < 7)) 500 1000 demo_ip ?s = Some (e, s') \<and> tx_ready (wire s') \<and> arp_table s' = arp_table ?s \<and>
      ((\<exists>k<1000::nat. \<not> k < 3) \<and> (\<exists>k<10000::nat. \<not> k < 7) \<longrightarrow> e = ERR_OK \<and> last_tx_frame (bytes (pbm s')) (wire s') =
       eth_padded (ae_ethaddr (arp_table ?s ! 0) @ nif_hwaddr demo_nif @ be16 ETHTYPE_IP @ pdata (pbm ?s) [1000]))"
    by (rule etharp_output_on_wire [OF Q _ u net _ _ _ p])
      (use demo_board_parts(3-5) dis c e in \<open>auto simp: demo_ip_pbuf_def demo_entry_def arp_usable_def stable_def const_defs demo_board_def simp del: upt_rec_numeral\<close>)
  then show ?thesis using k unfolding e d by (auto simp: eth_padded_def be16_def demo_nif_def demo_entry_def const_defs simp del: upt_rec_numeral)
qed








end
