(* ===== verification/Spec2Isabelle.thy ===== *)
theory Spec2Isabelle
  imports Inet_Chksum Timeouts Stm32h7_Link
begin

text \<open>
  \<^bold>\<open>A verification library for the lwIP port to the STM32H743.\<close>

  The repository is the lwIP TCP/IP stack on RTEMS with an Ethernet driver for the STM32H743 Nucleo board.
  The path of a frame goes through the parts in this order. The DMA engine of the MAC writes it into a buffer
  of the receive ring; the driver \<open>rtemslwip/stm32h7/stm32h7_eth.c\<close> turns the buffer into a custom packet
  buffer (pbuf), replaces it in the ring by a fresh one of its pool and calls \<open>netif->input\<close>. The protocol
  code of \<open>lwip/src/core\<close> verifies checksums, takes headers off, queues pbufs and in the end releases them
  with \<open>pbuf_free\<close>, which gives the buffer back to the pool of the driver. Outgoing data is put into pbufs
  from the heap (\<open>mem.c\<close>) and the pools (\<open>memp.c\<close>) and copied by \<open>low_level_output\<close> into the bounce buffer of
  a transmit descriptor. Timers (\<open>timeouts.c\<close>) drive the retransmissions and caches. The link thread of the
  driver polls the PHY through \<open>stm32h7_lan8742.c\<close>.

  \<^bold>\<open>Theories and the code they model.\<close>

  \<^descr> \<open>Prelude\<close>: the integer types and error codes of \<open>arch.h\<close> and \<open>err.h\<close>, alignment macros, and the
  facts on words, lists and linked structures that the other theories share.

  \<^descr> \<open>Memp\<close>: \<open>memp.c\<close>. A pool is its free list, threaded through the unused elements, with statistics. The
  locale \<open>object_pool\<close> is the contract of a pool (an element handed out is new and is not handed out again
  before its release; allocation fails only when all are out). It is interpreted on \<open>do_memp_malloc_pool\<close> and
  \<open>do_memp_free_pool\<close>; the pbufs, the timers and the driver use its facts.

  \<^descr> \<open>Mem\<close>: \<open>mem.c\<close>. The heap as the array with headers that the code has, and its abstraction, a sequence of
  used and free blocks. Allocation, release and trimming refine first fit on block sequences, also when other
  contexts free blocks in the windows that \<open>mem_malloc\<close> opens; the locale \<open>heap_allocator\<close> is the contract
  and \<open>heap_reach\<close> the reachable heaps, all of which pass \<open>mem_sanity\<close>.

  \<^descr> \<open>Pbuf\<close> and \<open>Pbuf_Data\<close>: \<open>pbuf.c\<close>. An explicit store of \<open>struct pbuf\<close> objects and payload bytes.
  Allocation of every type, reference counts, release of chains, concatenation, headers, truncation; copying,
  comparison and search against the list of data bytes of a chain.

  \<^descr> \<open>Lwip_Def\<close>: \<open>def.c\<close> and the byte-wise copy of \<open>lwipopts.h\<close>: string functions against their
  specification, decimal printing, copying.

  \<^descr> \<open>Chksum\<close> and \<open>Inet_Chksum\<close>: \<open>inet_chksum.c\<close>. The three versions of the sum agree with a reference of
  RFC 1071, a packet with its checksum filled in verifies, a changed byte is found; the sum over a chain and
  with pseudo headers is the sum over the bytes in order, whatever the lengths of the pbufs.

  \<^descr> \<open>Ip4_Addr\<close>: \<open>ip4_addr.c\<close>. Printing and parsing of addresses, their round trip, the tests of masks and
  broadcast addresses.

  \<^descr> \<open>Timeouts\<close>: \<open>timeouts.c\<close>. The list of timers refines a list of absolute due times as long as all of
  them lie within \<open>2 ^ 31\<close> milliseconds; due timers run, in order, and others do not.

  \<^descr> \<open>Lan8742\<close>: \<open>stm32h7_lan8742.c\<close>. The PHY driver over an arbitrary bus; initialisation ends when the tick
  counter advances, and the link mode that was set is the one read back.

  \<^descr> \<open>Stm32h7_Eth\<close>: \<open>stm32h7_eth.c\<close>. The receive ring shared with the DMA engine, the pool, reception,
  transmission, callbacks and the rounds of the threads. \<open>rx_reach\<close> is the transition system of driver, DMA
  engine and stack. Its invariant says who owns every buffer: a descriptor, the stack, or nobody (leaked).

  \<^descr> \<open>Ethernet\<close>: the state of the link layer in one record and \<open>ethernet_output\<close> of \<open>ethernet.c\<close>. The locale
  \<open>link_driver\<close> is what the stack relies on when it calls \<open>netif->linkoutput\<close>: the driver returns, writes only
  to memory of its own, keeps the pbufs, and hands the frame to the hardware if that works.

  \<^descr> \<open>Etharp\<close>: \<open>etharp.c\<close>. The table of addresses with its ageing, the queues of packets that wait for an address
  as lists over elements of a pool, learning, requests and output. \<open>arp_reach\<close> are the reachable tables;
  queues are first in, first out, and no queue element is lost. Over any \<open>link_driver\<close> the timer returns and entries expire.

  \<^descr> \<open>Acd\<close>: \<open>acd.c\<close>. Address conflict detection (RFC 5227): the timer of a module refines an abstract tick, and over any
  \<open>link_driver\<close> an undisturbed module claims its address after three probes and two announcements, within bounds that do not
  depend on the random numbers.

  \<^descr> \<open>Ethernet_Input\<close>: \<open>ethernet_input\<close> and \<open>etharp_input\<close>. What is put around a packet is taken off again, other frames are
  dropped without a trace, and requests for the address of the interface are answered.

  \<^descr> \<open>Stm32h7_Link\<close>: the interpretation of \<open>link_driver\<close> on \<open>low_level_output\<close> of the board, and what follows: the bytes of
  the frames that ARP requests, ARP replies and IP output put into the memory that the DMA reads.

  \<^bold>\<open>Conventions.\<close> Addresses are natural numbers, \<open>NULL\<close> is 0; integers have the width of the C types, and a sum
  wraps where the code's does. \<open>None\<close> is a dereference of an object that is not there, or a loop that does not
  end: such loops are \<open>partial_function (option)\<close>, there is no fuel, and the theorems state that the result is
  \<open>Some\<close>. Bounds in hypotheses are those of the machine: 32-bit addresses, chains whose lengths fit 16 bits,
  windows of \<open>2 ^ 31\<close> ms for timers. The configuration is that of \<open>lwipopts.h\<close> and \<open>lwipbspopts.h\<close> of the port.

  \<^bold>\<open>Parameters.\<close> Code that is not in the repository, or is called through pointers, is an argument: the HAL of
  ST as a record of functions, \<open>netif->input\<close>, \<open>ip4_input\<close> and \<open>ip6_input\<close>, the clients of conflict detection, the bus accessors of the PHY, handlers of timers, and scripts for
  what happens concurrently (frees by other contexts, the moments at which the DMA engine gives a descriptor
  back). Theorems state what they need of them.

  \<^bold>\<open>Not modelled.\<close> The protocols above the link layer (\<open>ip4.c\<close>, \<open>ip4_frag.c\<close>, \<open>icmp.c\<close>, \<open>igmp.c\<close>,
  \<open>udp.c\<close>, \<open>tcp*.c\<close>, \<open>dhcp.c\<close>, \<open>dns.c\<close>, IPv6) and \<open>netif.c\<close>: they are
  the continuation of this work over the pbufs, pools, checksums, timers and the link layer here. The socket interfaces and the RTEMS
  adaptation pass messages through the kernel of RTEMS, whose code is not here. The clock, pin, MPU and MAC
  set-up of the driver writes registers through the HAL. Caches and barriers are not visible in the model, in
  which memory is coherent. The drivers of other boards, PPP and the other link layers are not used by the port.
\<close>

end
